theory Spec2Isabelle
  imports Main "HOL-Library.Word"
begin

unbundle bit_operations_syntax

section \<open>The trie of libtriexx/trie.hxx\<close>

text \<open>
  The class template \<open>container::trie<T, KeyFn, KeyLenFn, KeyTracing>\<close> of
  \<^verbatim>\<open>src/CXX/libtriexx/trie.hxx\<close> is embedded over an explicit store.

  \<^item> A \<open>node *\<close> is an address (\<open>nat\<close>) or \<open>None\<close> for \<open>NULL\<close>; the member \<open>m_root\<close>
    lives at address \<open>0\<close>, every \<open>new node\<close> takes the next unused address, and a node
    released by a \<open>std::unique_ptr\<close> leaves the store.
  \<^item> \<open>m_items\<close> is a \<open>std::list<T>\<close>; its iterators are handles (\<open>nat\<close>) that stay valid
    until the element is erased, \<open>None\<close> is \<open>m_items.end()\<close>.  An item is the pair of its
    key bytes and its value (as in \<open>string_trie\<close>, where \<open>KeyFn\<close> and \<open>KeyLenFn\<close> read
    the \<open>std::string\<close> of the stored tuple).
  \<^item> A node's \<open>key\<close> is a pointer to the key bytes of a stored item: it is the handle of
    that item.  Reading through it after the item was erased, through \<open>NULL\<close>, or past the
    end of the key has no defined result in C++ and is an error value here.
  \<^item> \<open>size_t\<close> values are \<open>nat\<close>; the one subtraction that can wrap is written out.
\<close>

subsection \<open>Errors and results\<close>

datatype error =
    AlreadyPresent   \<comment> \<open>\<open>std::logic_error\<close>: insert to already occupied position\<close>
  | EndIterator      \<comment> \<open>\<open>std::logic_error\<close>: attempted erase at end iterator\<close>
  | NullPointer      \<comment> \<open>a read or write through \<open>NULL\<close>\<close>
  | UseAfterFree     \<comment> \<open>a read through a pointer whose target was released\<close>
  | OutOfRange       \<comment> \<open>a read past the end of a key or of \<open>branches\<close>\<close>
  | BadIterator      \<comment> \<open>\<open>m_items.erase\<close> of \<open>m_items.end()\<close>\<close>

type_synonym byte = "8 word"

datatype key_tracing = TRIE_KEY_TRACING_STRICT | TRIE_KEY_TRACING_SLOBBY

subsection \<open>Nodes\<close>

record node =
  item :: "nat option"
  key :: "nat option"
  qlen :: nat
  parent :: "nat option"
  branches :: "nat \<Rightarrow> nat option"
  br_attrs :: "32 word"

definition br_attrs_init :: "nat \<Rightarrow> nat \<Rightarrow> nat \<Rightarrow> 32 word" where
  "br_attrs_init br_own' br_1st' br_last' =
     push_bit 8 (of_nat br_own') OR push_bit 4 (of_nat br_last') OR of_nat br_1st'"

definition new_node ::
  "nat option \<Rightarrow> nat option \<Rightarrow> nat \<Rightarrow> nat option \<Rightarrow> nat \<Rightarrow> nat \<Rightarrow> nat \<Rightarrow> node" where
  "new_node item' key' qlen' parent' br_own' br_1st' br_last' =
     \<lparr> item = item', key = key', qlen = qlen', parent = parent',
       branches = (\<lambda>_. None), br_attrs = br_attrs_init br_own' br_1st' br_last' \<rparr>"

definition br_1st :: "node \<Rightarrow> nat" where
  "br_1st n = unat (0xf AND br_attrs n)"

definition set_br_1st :: "nat \<Rightarrow> node \<Rightarrow> node" where
  "set_br_1st ix n = n\<lparr>br_attrs := (br_attrs n AND NOT 0xf) OR of_nat ix\<rparr>"

definition br_last :: "node \<Rightarrow> nat" where
  "br_last n = unat (0xf AND drop_bit 4 (br_attrs n))"

definition set_br_last :: "nat \<Rightarrow> node \<Rightarrow> node" where
  "set_br_last ix n = n\<lparr>br_attrs := (br_attrs n AND NOT 0xf0) OR push_bit 4 (of_nat ix)\<rparr>"

definition br_set :: "nat \<Rightarrow> nat \<Rightarrow> node \<Rightarrow> node" where
  "br_set ix_1st ix_last n =
     n\<lparr>br_attrs := (br_attrs n AND NOT 0xff) OR (push_bit 4 (of_nat ix_last) OR of_nat ix_1st)\<rparr>"

definition br_own :: "node \<Rightarrow> nat" where
  "br_own n = unat (0xf AND drop_bit 8 (br_attrs n))"

definition set_br_own :: "nat \<Rightarrow> node \<Rightarrow> node" where
  "set_br_own ix n = n\<lparr>br_attrs := (br_attrs n AND NOT 0xf00) OR push_bit 8 (of_nat ix)\<rparr>"

definition is_leaf :: "node \<Rightarrow> bool" where
  "is_leaf n = (br_1st n > br_last n)"

definition has_only_son :: "node \<Rightarrow> bool" where
  "has_only_son n = (br_1st n = br_last n)"

subsection \<open>The trie object\<close>

record 'v trie =
  m_items :: "nat \<Rightarrow> (byte list \<times> 'v) option"
  items_next :: nat
  nodes :: "nat \<Rightarrow> node option"
  nodes_next :: nat

definition m_root :: nat where
  "m_root = 0"

text \<open>The constructor: \<open>m_root(m_items.end(), NULL, 0, NULL, 0)\<close>, a leaf.\<close>

definition trie_new :: "'v trie" where
  "trie_new =
     \<lparr> m_items = (\<lambda>_. None), items_next = 0,
       nodes = (\<lambda>_. None)(m_root := Some (new_node None None 0 None 0 1 0)),
       nodes_next = Suc m_root \<rparr>"

definition deref :: "'v trie \<Rightarrow> nat option \<Rightarrow> error + node" where
  "deref s p =
     (case p of None \<Rightarrow> Inl NullPointer
      | Some a \<Rightarrow> (case nodes s a of None \<Rightarrow> Inl UseAfterFree | Some n \<Rightarrow> Inr n))"

definition upd_node :: "nat \<Rightarrow> (node \<Rightarrow> node) \<Rightarrow> 'v trie \<Rightarrow> 'v trie" where
  "upd_node a f s = s\<lparr>nodes := (nodes s)(a := map_option f (nodes s a))\<rparr>"

text \<open>The bytes a key pointer points at.\<close>

definition key_bytes :: "'v trie \<Rightarrow> nat option \<Rightarrow> error + byte list" where
  "key_bytes s p =
     (case p of None \<Rightarrow> Inl NullPointer
      | Some h \<Rightarrow> (case m_items s h of None \<Rightarrow> Inl UseAfterFree | Some e \<Rightarrow> Inr (fst e)))"

definition byte_at :: "byte list \<Rightarrow> nat \<Rightarrow> error + byte" where
  "byte_at k i = (if i < length k then Inr (k ! i) else Inl OutOfRange)"

definition key_at :: "'v trie \<Rightarrow> nat option \<Rightarrow> nat \<Rightarrow> error + byte" where
  "key_at s p i = (case key_bytes s p of Inl e \<Rightarrow> Inl e | Inr k \<Rightarrow> byte_at k i)"

definition hi :: "byte \<Rightarrow> nat" where
  "hi b = unat (drop_bit 4 b)"

definition lo :: "byte \<Rightarrow> nat" where
  "lo b = unat (b AND 0x0f)"

definition get_qpos :: "byte list \<Rightarrow> nat \<Rightarrow> error + nat" where
  "get_qpos k qpos =
     (case byte_at k (qpos div 2) of Inl e \<Rightarrow> Inl e
      | Inr b \<Rightarrow> Inr (if qpos mod 2 \<noteq> 0 then lo b else hi b))"

subsection \<open>Positions and miss actions\<close>

type_synonym position = "nat option \<times> nat \<times> bool"

definition pos_node :: "position \<Rightarrow> nat option" where
  "pos_node pos = fst pos"

definition pos_qlen :: "position \<Rightarrow> nat" where
  "pos_qlen pos = fst (snd pos)"

definition pos_match :: "position \<Rightarrow> bool" where
  "pos_match pos = snd (snd pos)"

type_synonym 'v trace_miss =
  "'v trie \<Rightarrow> byte list \<Rightarrow> nat \<Rightarrow> nat option \<Rightarrow> nat \<Rightarrow> error + position \<times> 'v trie"

definition search_position :: "'v trace_miss" where
  "search_position s k len nod ql = Inr ((nod, ql, False), s)"

text \<open>
  ``Set 1st and last branch indices correctly'' of \<open>insert_node\<close>, on the node that gets
  a branch at \<open>br_ix\<close>.
\<close>

definition br_extend :: "nat \<Rightarrow> node \<Rightarrow> node" where
  "br_extend br_ix n =
     (if is_leaf n then br_set br_ix br_ix n
      else
        let n1 = (if br_1st n > br_ix then set_br_1st br_ix n else n)
        in (if br_last n1 < br_ix then set_br_last br_ix n1 else n1))"

text \<open>
  What \<open>delete\<close> of a node does: \<open>~node\<close> releases the \<open>branches\<close> the node owns, and so
  on below it.  The work list holds the pointers still to be deleted.  The addresses the
  store has handed out lie below \<open>b\<close>, a pointer from there on is not the address of a node.
\<close>

function release ::
  "nat \<Rightarrow> nat list \<Rightarrow> (nat \<Rightarrow> node option) \<Rightarrow> error + (nat \<Rightarrow> node option)" where
  "release b work h =
     (case work of [] \<Rightarrow> Inr h
      | a # rest \<Rightarrow>
          if a < b then
            (case h a of None \<Rightarrow> Inl UseAfterFree
             | Some n \<Rightarrow> release b (List.map_filter (branches n) [0..<16] @ rest) (h(a := None)))
          else Inl UseAfterFree)"
  by pat_completeness auto
termination
proof (relation "measure (\<lambda>(b, work, h). card {a. a < b \<and> h a \<noteq> None})")
  show "wf (measure (\<lambda>(b, work, h). card {a. a < b \<and> h a \<noteq> None}))" by simp
next
  fix b :: nat and work :: "nat list" and h :: "nat \<Rightarrow> node option" and a rest n
  assume "a < b" "h a = Some n"
  then have "{x. x < b \<and> (h(a := None)) x \<noteq> None} \<subset> {x. x < b \<and> h x \<noteq> None}" by auto
  then have "card {x. x < b \<and> (h(a := None)) x \<noteq> None} < card {x. x < b \<and> h x \<noteq> None}"
    by (intro psubset_card_mono) simp_all
  then show "((b, List.map_filter (branches n) [0..<16] @ rest, h(a := None)), (b, work, h))
      \<in> measure (\<lambda>(b, work, h). card {a. a < b \<and> h a \<noteq> None})" by simp
qed

text \<open>
  The second half of \<open>insert_node\<close>: ``Set 1st and last branch indices correctly'' on
  \<open>nod\<close>, then the new leaf under \<open>nod\<close> at \<open>br_ix\<close>, with \<open>key = NULL\<close>.
  \<open>nod->branches[br_ix].reset(br_node)\<close> deletes the node the slot held before, if any.
\<close>

definition insert_node_leaf ::
  "'v trie \<Rightarrow> nat \<Rightarrow> nat \<Rightarrow> nat \<Rightarrow> error + position \<times> 'v trie" where
  "insert_node_leaf s len nod br_ix =
     (case nodes s nod of None \<Rightarrow> Inl UseAfterFree
      | Some n \<Rightarrow>
          let s1 = upd_node nod (br_extend br_ix) s;
              ql = 2 * len;
              br_node = nodes_next s1;
              s2 = s1\<lparr>nodes := (nodes s1)(br_node \<mapsto> new_node None None ql (Some nod) br_ix 1 0),
                      nodes_next := Suc br_node\<rparr>;
              s3 = upd_node nod (\<lambda>m. m\<lparr>branches := (branches m)(br_ix := Some br_node)\<rparr>) s2
          in (case branches n br_ix of
                None \<Rightarrow> Inr ((Some br_node, ql, False), s3)
              | Some old \<Rightarrow>
                  (case release (nodes_next s3) [old] (nodes s3) of
                     Inl e \<Rightarrow> Inl e
                   | Inr h \<Rightarrow> Inr ((Some br_node, ql, False), s3\<lparr>nodes := h\<rparr>))))"

definition insert_node :: "'v trace_miss" where
  "insert_node s k len nod' ql =
     (case nod' of None \<Rightarrow> Inl NullPointer
      | Some nod \<Rightarrow>
     (case nodes s nod of None \<Rightarrow> Inl UseAfterFree
      | Some n \<Rightarrow>
     (case get_qpos k (qlen n) of Inl e \<Rightarrow> Inl e
      | Inr br_ix \<Rightarrow>
     (case branches n br_ix of
        None \<Rightarrow> insert_node_leaf s len nod br_ix
      | Some br_node \<Rightarrow>
     (case nodes s br_node of None \<Rightarrow> Inl UseAfterFree
      | Some bn \<Rightarrow>
     (case key_bytes s (key bn) of Inl e \<Rightarrow> Inl e
      | Inr bk \<Rightarrow>
     (case get_qpos bk ql of Inl e \<Rightarrow> Inl e
      | Inr in_br_ix \<Rightarrow>
          let in_node = nodes_next s;
              s1 = s\<lparr>nodes := (nodes s)(in_node \<mapsto>
                        new_node None (key bn) ql (Some nod) br_ix in_br_ix in_br_ix),
                     nodes_next := Suc in_node\<rparr>;
              s2 = upd_node nod (\<lambda>m. m\<lparr>branches := (branches m)(br_ix := None)\<rparr>) s1;
              s3 = upd_node in_node
                     (\<lambda>m. m\<lparr>branches := (branches m)(in_br_ix := Some br_node)\<rparr>) s2;
              s4 = upd_node br_node (set_br_own in_br_ix) s3;
              s5 = upd_node nod
                     (\<lambda>m. m\<lparr>branches := (branches m)(br_ix := Some in_node)\<rparr>) s4;
              s6 = upd_node br_node (\<lambda>m. m\<lparr>parent := Some in_node\<rparr>) s5
          in if ql = 2 * len then Inr ((Some in_node, ql, False), s6)
             else (case get_qpos k ql of Inl e \<Rightarrow> Inl e
                   | Inr br_ix' \<Rightarrow> insert_node_leaf s6 len in_node br_ix'))))))))"

text \<open>\<open>insert_item\<close>: the item goes to the back of \<open>m_items\<close>; the node points at it.\<close>

definition insert_item :: "byte list \<times> 'v \<Rightarrow> nat option \<Rightarrow> 'v trie \<Rightarrow> error + 'v trie" where
  "insert_item e nod' s =
     (case deref s nod' of Inl err \<Rightarrow> Inl err
      | Inr n \<Rightarrow>
          let h = items_next s;
              s1 = s\<lparr>m_items := (m_items s)(h \<mapsto> e), items_next := Suc h\<rparr>
          in Inr (upd_node (the nod') (\<lambda>m. m\<lparr>key := Some h, item := Some h\<rparr>) s1))"

subsection \<open>Key tracing\<close>

text \<open>\<open>nod->qlen - (i << 1)\<close> on \<open>size_t\<close>.\<close>

definition size_sub :: "nat \<Rightarrow> nat \<Rightarrow> nat" where
  "size_sub a b = (if b \<le> a then a - b else a + 2 ^ 64 - b)"

type_synonym 'v trace_result = "error + position \<times> 'v trie"

text \<open>
  The branching loop \<open>while (!(qlen & ~(size_t)0x1))\<close> of \<open>trace\<close> at byte \<open>i\<close>; the loop
  runs while \<open>qlen\<close> is 0 or 1.  \<open>Some (Inl r)\<close>: \<open>trace\<close> returns \<open>r\<close> from inside the loop;
  \<open>Some (Inr (nod, qlen, forward_branch))\<close>: the loop is left.
\<close>

partial_function (option) trace_branch ::
  "key_tracing \<Rightarrow> 'v trace_miss \<Rightarrow> 'v trie \<Rightarrow> byte list \<Rightarrow> nat \<Rightarrow> bool \<Rightarrow> nat \<Rightarrow> byte \<Rightarrow>
   nat \<Rightarrow> nat \<Rightarrow> bool \<Rightarrow> ('v trace_result + nat \<times> nat \<times> bool) option" where
  "trace_branch kt miss s k len slob i b nod ql forward_branch =
     (if \<not> ql < 2 then Some (Inr (nod, ql, forward_branch))
      else
     (case nodes s nod of None \<Rightarrow> Some (Inl (Inl UseAfterFree))
      | Some pn \<Rightarrow>
     (case branches pn (if ql \<noteq> 0 then lo b else hi b) of
        None \<Rightarrow>
          (if ql \<noteq> 0 then
             (case key_at s (key pn) i of Inl e \<Rightarrow> Some (Inl (Inl e))
              | Inr kb \<Rightarrow>
                  if drop_bit 4 (kb XOR b) \<noteq> 0
                  then Some (Inl (miss s k len (parent pn) (2 * i)))
                  else Some (Inl (miss s k len (Some nod) (2 * i + ql))))
           else Some (Inl (miss s k len (Some nod) (2 * i + ql))))
      | Some c \<Rightarrow>
     (case nodes s c of None \<Rightarrow> Some (Inl (Inl UseAfterFree))
      | Some cn \<Rightarrow>
          if kt = TRIE_KEY_TRACING_SLOBBY \<and> slob \<and> is_leaf cn
          then Some (Inl (Inr ((Some c, 2 * len, True), s)))
          else trace_branch kt miss s k len slob i b c (size_sub (qlen cn) (2 * i)) (ql > 0)))))"

declare trace_branch.simps [code]

text \<open>The \<open>for\<close> loop of \<open>trace\<close> from byte \<open>i\<close> on, and what follows it.\<close>

function trace_bytes ::
  "key_tracing \<Rightarrow> 'v trace_miss \<Rightarrow> 'v trie \<Rightarrow> byte list \<Rightarrow> nat \<Rightarrow> bool \<Rightarrow> nat \<Rightarrow>
   nat \<Rightarrow> nat \<Rightarrow> 'v trace_result option" where
  "trace_bytes kt miss s k len slob i nod ql =
     (if i < len then
        (case byte_at k i of Inl e \<Rightarrow> Some (Inl e)
         | Inr b \<Rightarrow>
        (case trace_branch kt miss s k len slob i b nod ql False of
           None \<Rightarrow> None
         | Some (Inl r) \<Rightarrow> Some r
         | Some (Inr (nod1, ql1, forward_branch)) \<Rightarrow>
        (case nodes s nod1 of None \<Rightarrow> Some (Inl UseAfterFree)
         | Some n \<Rightarrow>
        (case key_at s (key n) i of Inl e \<Rightarrow> Some (Inl e)
         | Inr kb \<Rightarrow>
             let mismatch = kb XOR b in
             if mismatch \<noteq> 0 then
               (if forward_branch then
                  (case deref s (parent n) of Inl e \<Rightarrow> Some (Inl e)
                   | Inr pn \<Rightarrow>
                       Some (miss s k len (parent pn)
                               (2 * i + (if mismatch AND 0xf0 = 0 then 1 else 0))))
                else Some (miss s k len (parent n)
                             (2 * i + (if mismatch AND 0xf0 = 0 then 1 else 0))))
             else trace_bytes kt miss s k len slob (Suc i) nod1 (ql1 - 2)))))
      else
        (case nodes s nod of None \<Rightarrow> Some (Inl UseAfterFree)
         | Some n \<Rightarrow>
             if ql = 0 then Some (Inr ((Some nod, 2 * len, item n \<noteq> None), s))
             else Some (miss s k len (parent n) (2 * len))))"
  by pat_completeness auto
termination
  by (relation "measure (\<lambda>(kt, miss, s, k, len, slob, i, nod, ql). len - i)") auto

definition trace ::
  "key_tracing \<Rightarrow> 'v trace_miss \<Rightarrow> 'v trie \<Rightarrow> byte list \<Rightarrow> nat \<Rightarrow> bool \<Rightarrow> 'v trace_result option" where
  "trace kt miss s k len slob = trace_bytes kt miss s k len slob 0 m_root 0"

subsection \<open>Iterators\<close>

text \<open>
  An iterator is its \<open>m_node\<close>; \<open>None\<close> is the end iterator.  \<open>next_loop\<close> is the
  \<open>for (;;)\<close> of \<open>iterator_base::next\<close>: with \<open>descend\<close> it stands at the head of the
  \<open>while\<close> loop, otherwise at the head of the \<open>do\<close> body.
\<close>

partial_function (option) next_loop ::
  "'v trie \<Rightarrow> bool \<Rightarrow> nat \<Rightarrow> nat \<Rightarrow> (error + nat option) option" where
  "next_loop s descend m_node br_ix =
     (case nodes s m_node of None \<Rightarrow> Some (Inl UseAfterFree)
      | Some n \<Rightarrow>
          if descend then
            (if br_ix \<le> br_last n then
               (case branches n br_ix of
                  Some nod \<Rightarrow>
                    (case nodes s nod of None \<Rightarrow> Some (Inl UseAfterFree)
                     | Some cn \<Rightarrow>
                         if item cn \<noteq> None then Some (Inr (Some nod))
                         else next_loop s True nod (br_1st cn))
                | None \<Rightarrow> next_loop s True m_node (Suc br_ix))
             else next_loop s False m_node br_ix)
          else
            (case parent n of None \<Rightarrow> Some (Inr None)
             | Some p \<Rightarrow>
                 (case nodes s p of None \<Rightarrow> Some (Inl UseAfterFree)
                  | Some pn \<Rightarrow>
                      if br_own n + 1 > br_last pn
                      then next_loop s False p (br_own n + 1)
                      else next_loop s True p (br_own n + 1))))"

declare next_loop.simps [code]

definition iter_next :: "'v trie \<Rightarrow> nat option \<Rightarrow> (error + nat option) option" where
  "iter_next s it =
     (case deref s it of Inl e \<Rightarrow> Some (Inl e)
      | Inr n \<Rightarrow> next_loop s True (the it) (br_1st n))"

text \<open>The constructor \<open>iterator_base(_trie, _node)\<close>.\<close>

definition iterator :: "'v trie \<Rightarrow> nat option \<Rightarrow> (error + nat option) option" where
  "iterator s nod =
     (case nod of None \<Rightarrow> Some (Inr None)
      | Some a \<Rightarrow>
          (case nodes s a of None \<Rightarrow> Some (Inl UseAfterFree)
           | Some n \<Rightarrow> if item n = None then iter_next s nod else Some (Inr nod)))"

definition trie_begin :: "'v trie \<Rightarrow> (error + nat option) option" where
  "trie_begin s = iterator s (Some m_root)"

text \<open>\<open>operator *\<close>: the key pointer with the \<open>qlen >> 1\<close> bytes it stands for, and the item.\<close>

definition iter_deref :: "'v trie \<Rightarrow> nat option \<Rightarrow> error + byte list \<times> nat \<times> 'v" where
  "iter_deref s it =
     (case deref s it of Inl e \<Rightarrow> Inl e
      | Inr n \<Rightarrow>
     (case key_bytes s (key n) of Inl e \<Rightarrow> Inl e
      | Inr kb \<Rightarrow>
     (case item n of None \<Rightarrow> Inl BadIterator
      | Some h \<Rightarrow>
     (case m_items s h of None \<Rightarrow> Inl UseAfterFree
      | Some e \<Rightarrow>
          if qlen n div 2 \<le> length kb then Inr (take (qlen n div 2) kb, qlen n div 2, snd e)
          else Inl OutOfRange))))"

text \<open>The nodes visited by \<open>for (it = begin(); it != end(); ++it)\<close>, in order.\<close>

partial_function (option) iterate ::
  "'v trie \<Rightarrow> nat option \<Rightarrow> nat list \<Rightarrow> (error + nat list) option" where
  "iterate s it acc =
     (case it of None \<Rightarrow> Some (Inr (rev acc))
      | Some a \<Rightarrow>
          (case iter_next s it of None \<Rightarrow> None
           | Some (Inl e) \<Rightarrow> Some (Inl e)
           | Some (Inr it') \<Rightarrow> iterate s it' (a # acc)))"

declare iterate.simps [code]

definition traverse :: "'v trie \<Rightarrow> (error + nat list) option" where
  "traverse s =
     (case trie_begin s of None \<Rightarrow> None
      | Some (Inl e) \<Rightarrow> Some (Inl e)
      | Some (Inr it) \<Rightarrow> iterate s it [])"

subsection \<open>The public operations\<close>

definition trie_insert :: "'v trie \<Rightarrow> byte list \<times> 'v \<Rightarrow> (error + 'v trie \<times> nat option) option" where
  "trie_insert s e =
     (case trace TRIE_KEY_TRACING_STRICT insert_node s (fst e) (length (fst e)) False of
        None \<Rightarrow> None
      | Some (Inl err) \<Rightarrow> Some (Inl err)
      | Some (Inr (pos, s1)) \<Rightarrow>
          (case (if \<not> pos_match pos then insert_item e (pos_node pos) s1 else Inr s1) of
             Inl err \<Rightarrow> Some (Inl err)
           | Inr s2 \<Rightarrow>
               (case iterator s2 (pos_node pos) of None \<Rightarrow> None
                | Some (Inl err) \<Rightarrow> Some (Inl err)
                | Some (Inr it) \<Rightarrow> Some (Inr (s2, it)))))"

definition trie_find ::
  "key_tracing \<Rightarrow> 'v trie \<Rightarrow> byte list \<Rightarrow> nat \<Rightarrow> (error + nat option) option" where
  "trie_find kt s k len =
     (case trace kt search_position s k len True of None \<Rightarrow> None
      | Some (Inl err) \<Rightarrow> Some (Inl err)
      | Some (Inr (pos, s1)) \<Rightarrow>
          if \<not> pos_match pos then Some (Inr None) else iterator s (pos_node pos))"

definition lower_bound ::
  "key_tracing \<Rightarrow> 'v trie \<Rightarrow> byte list \<Rightarrow> nat \<Rightarrow> (error + position) option" where
  "lower_bound kt s k len =
     (case trace kt search_position s k len False of None \<Rightarrow> None
      | Some (Inl err) \<Rightarrow> Some (Inl err)
      | Some (Inr (pos, s1)) \<Rightarrow> Some (Inr pos))"

text \<open>\<open>insert(item, pos)\<close>, the spec's \<open>insert_at\<close>.\<close>

definition insert_at ::
  "'v trie \<Rightarrow> byte list \<times> 'v \<Rightarrow> position \<Rightarrow> (error + 'v trie \<times> nat option) option" where
  "insert_at s e pos =
     (if pos_match pos then Some (Inl AlreadyPresent)
      else
     (case deref s (pos_node pos) of Inl err \<Rightarrow> Some (Inl err)
      | Inr n \<Rightarrow>
     (case (if pos_qlen pos \<noteq> qlen n
            then insert_node s (fst e) (length (fst e)) (pos_node pos) (pos_qlen pos)
            else Inr ((pos_node pos, pos_qlen pos, False), s)) of
        Inl err \<Rightarrow> Some (Inl err)
      | Inr (pos1, s1) \<Rightarrow>
     (case insert_item e (pos_node pos1) s1 of Inl err \<Rightarrow> Some (Inl err)
      | Inr s2 \<Rightarrow>
     (case iterator s2 (pos_node pos1) of None \<Rightarrow> None
      | Some (Inl err) \<Rightarrow> Some (Inl err)
      | Some (Inr it) \<Rightarrow> Some (Inr (s2, it)))))))"

subsection \<open>Erasure\<close>

text \<open>
  Releasing the nodes a \<open>std::unique_ptr<node>\<close> owned: \<open>~node\<close> releases the node's
  \<open>branches\<close> in turn.  The work list holds the pointers still to be deleted.
\<close>

partial_function (option) destroy ::
  "nat list \<Rightarrow> (nat \<Rightarrow> node option) \<Rightarrow> (error + (nat \<Rightarrow> node option)) option" where
  "destroy work h =
     (case work of [] \<Rightarrow> Some (Inr h)
      | a # rest \<Rightarrow>
          (case h a of None \<Rightarrow> Some (Inl UseAfterFree)
           | Some n \<Rightarrow> destroy (List.map_filter (branches n) [0..<16] @ rest) (h(a := None))))"

declare destroy.simps [code]

text \<open>\<open>for (; NULL == parent->branches[ix].get(); ++ix);\<close> over the 16 slots.\<close>

function scan_up :: "node \<Rightarrow> nat \<Rightarrow> error + nat" where
  "scan_up pn ix =
     (if 16 \<le> ix then Inl OutOfRange
      else if branches pn ix = None then scan_up pn (Suc ix) else Inr ix)"
  by pat_completeness auto
termination
  by (relation "measure (\<lambda>(pn, ix). 16 - ix)") auto

text \<open>\<open>for (; NULL == parent->branches[ix].get(); --ix);\<close>: below slot 0, \<open>ix\<close> wraps.\<close>

fun scan_down :: "node \<Rightarrow> nat \<Rightarrow> error + nat" where
  "scan_down pn 0 = (if branches pn 0 = None then Inl OutOfRange else Inr 0)"
| "scan_down pn (Suc ix) =
     (if branches pn (Suc ix) = None then scan_down pn ix else Inr (Suc ix))"

text \<open>``Empty leaf node shall be removed'': the new state and the new \<open>nod\<close>.\<close>

definition erase_leaf :: "'v trie \<Rightarrow> nat \<Rightarrow> (error + 'v trie \<times> nat) option" where
  "erase_leaf s nod =
     (case nodes s nod of None \<Rightarrow> Some (Inl UseAfterFree)
      | Some n \<Rightarrow>
          if is_leaf n \<and> nod \<noteq> m_root then
            (let br_ix = br_own n in
             case parent n of None \<Rightarrow> Some (Inl NullPointer)
             | Some p \<Rightarrow>
            (case nodes s p of None \<Rightarrow> Some (Inl UseAfterFree)
             | Some pn \<Rightarrow>
            (case (case branches pn br_ix of None \<Rightarrow> Some (Inr (nodes s))
                   | Some old \<Rightarrow>
                       destroy [old]
                         ((nodes s)(p \<mapsto> pn\<lparr>branches := (branches pn)(br_ix := None)\<rparr>))) of
               None \<Rightarrow> None
             | Some (Inl e) \<Rightarrow> Some (Inl e)
             | Some (Inr h) \<Rightarrow>
                 let s1 = s\<lparr>nodes := h\<rparr> in
                 (case nodes s1 p of None \<Rightarrow> Some (Inl UseAfterFree)
                  | Some pn1 \<Rightarrow>
                      if has_only_son pn1 then Some (Inr (upd_node p (br_set 1 0) s1, p))
                      else if br_1st pn1 = br_ix then
                        (case scan_up pn1 (br_ix + 1) of Inl e \<Rightarrow> Some (Inl e)
                         | Inr ix \<Rightarrow> Some (Inr (upd_node p (set_br_1st ix) s1, p)))
                      else if br_last pn1 = br_ix then
                        (if br_ix = 0 then Some (Inl OutOfRange)
                         else
                           (case scan_down pn1 (br_ix - 1) of Inl e \<Rightarrow> Some (Inl e)
                            | Inr ix \<Rightarrow> Some (Inr (upd_node p (set_br_last ix) s1, p))))
                      else Some (Inr (s1, p))))))
          else Some (Inr (s, nod)))"

text \<open>``Interim node with only son shall be removed''.\<close>

definition erase_only_son :: "'v trie \<Rightarrow> nat \<Rightarrow> (error + 'v trie \<times> nat) option" where
  "erase_only_son s nod =
     (case nodes s nod of None \<Rightarrow> Some (Inl UseAfterFree)
      | Some n \<Rightarrow>
          if has_only_son n \<and> item n = None \<and> nod \<noteq> m_root then
            (case parent n of None \<Rightarrow> Some (Inl NullPointer)
             | Some p \<Rightarrow>
            (case nodes s p of None \<Rightarrow> Some (Inl UseAfterFree)
             | Some pn \<Rightarrow>
                 let br_ix = br_own n;
                     son = branches n (br_1st n);
                     s1 = upd_node nod (\<lambda>m. m\<lparr>branches := (branches m)(br_1st n := None)\<rparr>) s
                 in
            (case nodes s1 p of None \<Rightarrow> Some (Inl UseAfterFree)
             | Some pn1 \<Rightarrow>
                 let s2 = upd_node p (\<lambda>m. m\<lparr>branches := (branches m)(br_ix := son)\<rparr>) s1 in
            (case (case branches pn1 br_ix of None \<Rightarrow> Some (Inr (nodes s2))
                   | Some old \<Rightarrow> destroy [old] (nodes s2)) of
               None \<Rightarrow> None
             | Some (Inl e) \<Rightarrow> Some (Inl e)
             | Some (Inr h) \<Rightarrow>
                 let s3 = s2\<lparr>nodes := h\<rparr> in
                 (case son of None \<Rightarrow> Some (Inl NullPointer)
                  | Some c \<Rightarrow>
                      (case nodes s3 c of None \<Rightarrow> Some (Inl UseAfterFree)
                       | Some cn \<Rightarrow>
                           Some (Inr (upd_node c (set_br_own br_ix)
                                        (upd_node c (\<lambda>m. m\<lparr>parent := Some p\<rparr>) s3), p))))))))
          else Some (Inr (s, nod)))"

text \<open>
  The loop of ``Interim node without value uses key of its descendant'':
  \<open>while (items_end == nod->item && nod != &m_root) { nod->key = key; nod = nod->parent; }\<close>
\<close>

partial_function (option) erase_rekey ::
  "'v trie \<Rightarrow> nat option \<Rightarrow> nat \<Rightarrow> (error + 'v trie) option" where
  "erase_rekey s kp nod =
     (case nodes s nod of None \<Rightarrow> Some (Inl UseAfterFree)
      | Some n \<Rightarrow>
          if item n = None \<and> nod \<noteq> m_root then
            (case parent n of None \<Rightarrow> Some (Inl NullPointer)
             | Some p \<Rightarrow> erase_rekey (upd_node nod (\<lambda>m. m\<lparr>key := kp\<rparr>) s) kp p)
          else Some (Inr s))"

declare erase_rekey.simps [code]

definition erase_key :: "'v trie \<Rightarrow> nat \<Rightarrow> (error + 'v trie) option" where
  "erase_key s nod =
     (case nodes s nod of None \<Rightarrow> Some (Inl UseAfterFree)
      | Some n \<Rightarrow>
          if \<not> is_leaf n \<and> item n = None \<and> nod \<noteq> m_root then
            (case deref s (branches n (br_1st n)) of Inl e \<Rightarrow> Some (Inl e)
             | Inr cn \<Rightarrow> erase_rekey s (key cn) nod)
          else Some (Inr s))"

definition erase :: "'v trie \<Rightarrow> nat option \<Rightarrow> (error + 'v trie \<times> nat option) option" where
  "erase s iter =
     (case iter of None \<Rightarrow> Some (Inl EndIterator)
      | Some nod \<Rightarrow>
     (case iter_next s iter of None \<Rightarrow> None
      | Some (Inl e) \<Rightarrow> Some (Inl e)
      | Some (Inr iter') \<Rightarrow>
     (case nodes s nod of None \<Rightarrow> Some (Inl UseAfterFree)
      | Some n \<Rightarrow>
     (case item n of None \<Rightarrow> Some (Inl BadIterator)
      | Some h \<Rightarrow>
     (case m_items s h of None \<Rightarrow> Some (Inl UseAfterFree)
      | Some e \<Rightarrow>
     (case erase_leaf
             (upd_node nod (\<lambda>m. m\<lparr>item := None\<rparr>) (s\<lparr>m_items := (m_items s)(h := None)\<rparr>))
             nod of
        None \<Rightarrow> None
      | Some (Inl e) \<Rightarrow> Some (Inl e)
      | Some (Inr (s2, nod2)) \<Rightarrow>
     (case erase_only_son s2 nod2 of None \<Rightarrow> None
      | Some (Inl e) \<Rightarrow> Some (Inl e)
      | Some (Inr (s3, nod3)) \<Rightarrow>
     (case erase_key s3 nod3 of None \<Rightarrow> None
      | Some (Inl e) \<Rightarrow> Some (Inl e)
      | Some (Inr s4) \<Rightarrow> Some (Inr (s4, iter'))))))))))"

subsection \<open>Scenarios\<close>

text \<open>
  The driver of \<^verbatim>\<open>unit_test/paths.cxx\<close>: \<open>A\<close> inserts an item, \<open>R\<close> looks the key up and
  erases the item when it is there.
\<close>

datatype 'v action = A "byte list \<times> 'v" | R "byte list"

fun run :: "'v trie \<Rightarrow> 'v action list \<Rightarrow> (error + 'v trie) option" where
  "run s [] = Some (Inr s)"
| "run s (A e # as) =
     (case trie_insert s e of None \<Rightarrow> None
      | Some (Inl err) \<Rightarrow> Some (Inl err)
      | Some (Inr (s', it)) \<Rightarrow> run s' as)"
| "run s (R k # as) =
     (case trie_find TRIE_KEY_TRACING_STRICT s k (length k) of None \<Rightarrow> None
      | Some (Inl err) \<Rightarrow> Some (Inl err)
      | Some (Inr None) \<Rightarrow> run s as
      | Some (Inr (Some a)) \<Rightarrow>
          (case erase s (Some a) of None \<Rightarrow> None
           | Some (Inl err) \<Rightarrow> Some (Inl err)
           | Some (Inr (s', it)) \<Rightarrow> run s' as))"

definition the_trie :: "(error + 'v trie) option \<Rightarrow> 'v trie" where
  "the_trie r = (case r of Some (Inr s) \<Rightarrow> s | _ \<Rightarrow> trie_new)"

text \<open>What a full iteration observes: key bytes, key length and value of every visit.\<close>

fun deref_all ::
  "'v trie \<Rightarrow> nat list \<Rightarrow> error + (byte list \<times> nat \<times> 'v) list" where
  "deref_all s [] = Inr []"
| "deref_all s (a # as) =
     (case iter_deref s (Some a) of Inl e \<Rightarrow> Inl e
      | Inr x \<Rightarrow> (case deref_all s as of Inl e \<Rightarrow> Inl e | Inr xs \<Rightarrow> Inr (x # xs)))"

definition entries :: "'v trie \<Rightarrow> (error + (byte list \<times> nat \<times> 'v) list) option" where
  "entries s =
     (case traverse s of None \<Rightarrow> None
      | Some (Inl e) \<Rightarrow> Some (Inl e)
      | Some (Inr as) \<Rightarrow> Some (deref_all s as))"

text \<open>The keys of \<open>trie_test\<close> in \<^verbatim>\<open>unit_test/trie.cxx\<close>, with their indices as values.\<close>

definition str_list :: "(byte list \<times> nat) list" where
  "str_list =
     [([0x01, 0x02, 0x03], 0), ([0x01, 0x12, 0x03], 1), ([0x02, 0x12, 0x03], 2),
      ([0x10, 0x12, 0x03], 3), ([0x10, 0x12], 4), ([0x10, 0x13, 0x11], 5)]"

text \<open>The keys \<open>"abcd"\<close>, \<open>"abxx"\<close>, \<open>"abc"\<close> and \<open>"a"\<close>.\<close>

definition k_abcd :: "byte list" where "k_abcd = [0x61, 0x62, 0x63, 0x64]"
definition k_abxx :: "byte list" where "k_abxx = [0x61, 0x62, 0x78, 0x78]"
definition k_abc :: "byte list" where "k_abc = [0x61, 0x62, 0x63]"
definition k_a :: "byte list" where "k_a = [0x61]"

text \<open>\<open>"abcd"\<close>, \<open>"abxx"\<close> and \<open>"abc"\<close> inserted, then \<open>"abcd"\<close> erased.\<close>

definition s_erased :: "nat trie" where
  "s_erased = the_trie (run trie_new [A (k_abcd, 1), A (k_abxx, 2), A (k_abc, 3), R k_abcd])"

text \<open>Only \<open>"abcd"\<close> inserted.\<close>

definition s_single :: "nat trie" where
  "s_single = the_trie (run trie_new [A (k_abcd, 7)])"

text \<open>The keys \<open>aa 10\<close> and \<open>aa 1f\<close> inserted: an interim node after three nibbles.\<close>

definition s_odd :: "nat trie" where
  "s_odd = the_trie (run trie_new [A ([0xaa, 0x10], 1), A ([0xaa, 0x1f], 2)])"

text \<open>\<open>"abcd"\<close>, \<open>"abxx"\<close> and \<open>"abc"\<close> inserted.\<close>

definition s_three :: "nat trie" where
  "s_three = the_trie (run trie_new [A (k_abcd, 1), A (k_abxx, 2), A (k_abc, 3)])"

subsection \<open>Well-formed tries\<close>

fun nibbles :: "byte list \<Rightarrow> nat list" where
  "nibbles [] = []"
| "nibbles (b # bs) = hi b # lo b # nibbles bs"

definition br_ok :: "node \<Rightarrow> bool" where
  "br_ok n \<longleftrightarrow>
     (\<forall>i c. branches n i = Some c \<longrightarrow> i < 16) \<and>
     (if is_leaf n then (\<forall>i. branches n i = None)
      else branches n (br_1st n) \<noteq> None \<and> branches n (br_last n) \<noteq> None \<and>
           (\<forall>i. branches n i \<noteq> None \<longrightarrow> br_1st n \<le> i \<and> i \<le> br_last n))"

definition node_ok :: "nat set \<Rightarrow> 'v trie \<Rightarrow> (nat \<Rightarrow> nat list) \<Rightarrow> nat \<Rightarrow> node \<Rightarrow> bool" where
  "node_ok X s pth a n \<longleftrightarrow>
     a < nodes_next s \<and>
     br_ok n \<and>
     (\<forall>i c. branches n i = Some c \<longrightarrow>
        (\<exists>cn. nodes s c = Some cn \<and> parent cn = Some a \<and> br_own cn = i \<and> qlen n < qlen cn \<and>
              take (Suc (qlen n)) (pth c) = pth a @ [i])) \<and>
     (a \<noteq> m_root \<longrightarrow>
        (\<exists>p pn. parent n = Some p \<and> nodes s p = Some pn \<and> branches pn (br_own n) = Some a)) \<and>
     (a \<noteq> m_root \<and> a \<notin> X \<and> item n = None \<longrightarrow> br_1st n < br_last n) \<and>
     (\<forall>h. item n = Some h \<longrightarrow> key n = Some h \<and> m_items s h \<noteq> None) \<and>
     (\<forall>h. key n = Some h \<longrightarrow> h < items_next s) \<and>
     length (pth a) = qlen n \<and> (\<forall>x \<in> set (pth a). x < 16) \<and>
     (\<forall>h e. key n = Some h \<and> m_items s h = Some e \<longrightarrow>
        qlen n \<le> 2 * length (fst e) \<and> take (qlen n) (nibbles (fst e)) = pth a)"

definition trie_inv :: "nat set \<Rightarrow> 'v trie \<Rightarrow> (nat \<Rightarrow> nat list) \<Rightarrow> bool" where
  "trie_inv X s pth \<longleftrightarrow>
     (\<exists>r. nodes s m_root = Some r \<and> qlen r = 0 \<and> parent r = None) \<and>
     (\<forall>a n. nodes s a = Some n \<longrightarrow> node_ok X s pth a n) \<and>
     (\<forall>a b n m h. nodes s a = Some n \<and> nodes s b = Some m \<and> item n = Some h \<and> item m = Some h
        \<longrightarrow> a = b) \<and>
     (\<forall>h e. m_items s h = Some e \<longrightarrow> h < items_next s)"

definition good_pos :: "'v trie \<Rightarrow> (nat \<Rightarrow> nat list) \<Rightarrow> byte list \<Rightarrow> nat \<Rightarrow> nat \<Rightarrow> bool" where
  "good_pos s pth k p q \<longleftrightarrow>
     (\<exists>pn. nodes s p = Some pn \<and> qlen pn \<le> q \<and> q \<le> 2 * length k \<and> qlen pn < 2 * length k \<and>
        take (qlen pn) (nibbles k) = pth p \<and>
        (case branches pn (nibbles k ! qlen pn) of
           None \<Rightarrow> q = qlen pn
         | Some c \<Rightarrow>
             (\<exists>cn. nodes s c = Some cn \<and> qlen pn < q \<and> q < qlen cn \<and>
                   take q (nibbles k) = take q (pth c) \<and>
                   (q < 2 * length k \<longrightarrow> nibbles k ! q \<noteq> pth c ! q))))"

definition edge_inv ::
  "'v trie \<Rightarrow> (nat \<Rightarrow> nat list) \<Rightarrow> byte list \<Rightarrow> nat \<Rightarrow> nat \<Rightarrow> node \<Rightarrow> bool \<Rightarrow> bool" where
  "edge_inv s pth k i a n fwd \<longleftrightarrow>
     (\<exists>x xn. parent n = Some x \<and> nodes s x = Some xn \<and>
        (if fwd then
           qlen xn = 2 * i + 1 \<and> nibbles k ! (2 * i + 1) = pth a ! (2 * i + 1) \<and>
           (nibbles k ! (2 * i) = pth a ! (2 * i) \<or>
            (\<exists>g gn. parent xn = Some g \<and> nodes s g = Some gn \<and> qlen gn < 2 * i))
         else qlen xn < 2 * i \<or> (qlen xn = 2 * i \<and> nibbles k ! (2 * i) = pth a ! (2 * i))))"

definition branch_post ::
  "'v trie \<Rightarrow> (nat \<Rightarrow> nat list) \<Rightarrow> byte list \<Rightarrow> nat \<Rightarrow> nat \<times> nat \<times> bool \<Rightarrow> bool" where
  "branch_post s pth k i r \<longleftrightarrow>
     (case r of (nod1, ql1, fwd1) \<Rightarrow>
        \<exists>n1. 2 \<le> ql1 \<and> nodes s nod1 = Some n1 \<and> qlen n1 = 2 * i + ql1 \<and>
             take (2 * i) (nibbles k) = take (2 * i) (pth nod1) \<and> edge_inv s pth k i nod1 n1 fwd1)"

definition branch_res ::
  "'v trace_miss \<Rightarrow> 'v trie \<Rightarrow> (nat \<Rightarrow> nat list) \<Rightarrow> byte list \<Rightarrow> nat \<Rightarrow>
   ('v trace_result + nat \<times> nat \<times> bool) \<Rightarrow> bool" where
  "branch_res miss s pth k i res \<longleftrightarrow>
     (\<exists>e. res = Inl (Inl e)) \<or>
     (\<exists>p q. good_pos s pth k p q \<and> res = Inl (miss s k (length k) (Some p) q)) \<or>
     (\<exists>r. res = Inr r \<and> branch_post s pth k i r)"

definition trace_res ::
  "'v trace_miss \<Rightarrow> 'v trie \<Rightarrow> (nat \<Rightarrow> nat list) \<Rightarrow> byte list \<Rightarrow> 'v trace_result \<Rightarrow> bool" where
  "trace_res miss s pth k r \<longleftrightarrow>
     (\<exists>e. r = Inl e) \<or>
     (\<exists>p q. good_pos s pth k p q \<and> r = miss s k (length k) (Some p) q) \<or>
     (\<exists>a n. nodes s a = Some n \<and> qlen n = 2 * length k \<and> pth a = nibbles k \<and>
            r = Inr ((Some a, 2 * length k, item n \<noteq> None), s))"

definition key_fits :: "'v trie \<Rightarrow> nat option \<Rightarrow> nat list \<Rightarrow> bool" where
  "key_fits s kp xs \<longleftrightarrow>
     (\<forall>h. kp = Some h \<longrightarrow> h < items_next s \<and>
        (\<forall>e. m_items s h = Some e \<longrightarrow>
           length xs \<le> 2 * length (fst e) \<and> take (length xs) (nibbles (fst e)) = xs))"

inductive reach_all :: "'v trie \<Rightarrow> bool" where
  ra_new: "reach_all trie_new"
| ra_insert: "reach_all s \<Longrightarrow> trie_insert s e = Some (Inr (s', it)) \<Longrightarrow> reach_all s'"
| ra_insert_at: "reach_all s \<Longrightarrow> lower_bound kt s (fst e) (length (fst e)) = Some (Inr pos) \<Longrightarrow>
    insert_at s e pos = Some (Inr (s', it)) \<Longrightarrow> reach_all s'"
| ra_erase: "reach_all s \<Longrightarrow> erase s it = Some (Inr (s', it')) \<Longrightarrow> reach_all s'"

definition occupied :: "node \<Rightarrow> nat list" where
  "occupied n = filter (\<lambda>i. branches n i \<noteq> None) [0..<16]"

definition ok_run :: "(error + 'v trie) option \<Rightarrow> bool" where
  "ok_run r = (case r of Some (Inr s) \<Rightarrow> True | _ \<Rightarrow> False)"

text \<open>The zero-length key inserted into the empty trie.\<close>

definition s_empty_key :: "nat trie" where
  "s_empty_key = the_trie (run trie_new [A ([], 5)])"

definition root_item :: "'v trie \<Rightarrow> nat option" where
  "root_item s = (case nodes s m_root of None \<Rightarrow> None | Some r \<Rightarrow> item r)"

text \<open>\<open>"abcd"\<close> and \<open>"abxx"\<close> inserted and erased again.\<close>

definition s_emptied :: "nat trie" where
  "s_emptied = the_trie (run trie_new [A (k_abcd, 1), A (k_abxx, 2), R k_abcd, R k_abxx])"

definition no_items_below :: "'v trie \<Rightarrow> nat \<Rightarrow> bool" where
  "no_items_below s b =
     list_all (\<lambda>a. case nodes s a of None \<Rightarrow> True | Some n \<Rightarrow> item n = None) [0..<b]"

definition leafs_ok :: "'v trie \<Rightarrow> bool" where
  "leafs_ok s \<longleftrightarrow> (\<forall>c cn i. nodes s c = Some cn \<and> is_leaf cn \<longrightarrow> branches cn i = None)"

text \<open>
  One run of the branching loop with strict tracing, against the same run with slobby
  tracing: a return from inside the loop is never a match; when the loop is left, it is left
  at the node it started from if that is a leaf; and slobby tracing either does the same
  or has stopped at the leaf where strict tracing leaves the loop.
\<close>

definition branch_sim ::
  "'v trie \<Rightarrow> byte list \<Rightarrow> nat \<Rightarrow> nat \<Rightarrow> byte \<Rightarrow> nat \<Rightarrow> nat \<Rightarrow> bool \<Rightarrow>
   ('v trace_result + nat \<times> nat \<times> bool) \<Rightarrow> bool" where
  "branch_sim s k len i b nod ql fb y \<longleftrightarrow>
     (case y of
        Inl r \<Rightarrow> (case r of Inl e \<Rightarrow> True | Inr (pos, s1) \<Rightarrow> \<not> pos_match pos)
      | Inr (nod1, ql1, fb1) \<Rightarrow>
          (case nodes s nod of None \<Rightarrow> True | Some n \<Rightarrow> is_leaf n \<longrightarrow> nod1 = nod) \<and>
          (trace_branch TRIE_KEY_TRACING_SLOBBY search_position s k len True i b nod ql fb = Some y \<or>
           (case nodes s nod1 of None \<Rightarrow> False
            | Some cn \<Rightarrow> is_leaf cn \<and>
                trace_branch TRIE_KEY_TRACING_SLOBBY search_position s k len True i b nod ql fb =
                  Some (Inl (Inr ((Some nod1, 2 * len, True), s))))))"

text \<open>The fields of a node, with the three branch indices unpacked.\<close>

definition node_is ::
  "node option \<Rightarrow> nat option \<Rightarrow> nat option \<Rightarrow> nat \<Rightarrow> nat option \<Rightarrow> nat \<times> nat \<times> nat \<Rightarrow>
   (nat \<Rightarrow> nat option) \<Rightarrow> bool" where
  "node_is m' it k q p brs bs =
     (case m' of None \<Rightarrow> False
      | Some m \<Rightarrow> item m = it \<and> key m = k \<and> qlen m = q \<and> parent m = p \<and>
          (br_own m, br_1st m, br_last m) = brs \<and> branches m = bs)"

text \<open>
  The split of \<open>insert_node\<close> at the position \<open>(nod, q)\<close> for the item \<open>e\<close>, and the item
  installed.  The slot \<open>bi\<close> that the key of \<open>e\<close> takes in \<open>nod\<close> holds the node \<open>c\<close>; the
  nibble of the key of \<open>c\<close> at \<open>q\<close> is \<open>ci\<close>.  Afterwards the new interim node \<open>i\<close> stands in
  slot \<open>bi\<close> of \<open>nod\<close>, with \<open>qlen = q\<close>, and \<open>c\<close> stands in slot \<open>ci\<close> of \<open>i\<close>.  When the key
  ends at \<open>q\<close> the item is in \<open>i\<close>; otherwise \<open>i\<close> borrows the key of \<open>c\<close> and the item is in
  a new leaf in the slot \<open>li\<close> of \<open>i\<close> that the key takes at \<open>q\<close>.  \<open>it\<close> is the node of the
  item; no other node changes.
\<close>

definition split_done ::
  "'v trie \<Rightarrow> byte list \<times> 'v \<Rightarrow> nat \<Rightarrow> nat \<Rightarrow> 'v trie \<Rightarrow> nat option \<Rightarrow> bool" where
  "split_done s e nod q s' it \<longleftrightarrow>
     (\<exists>n bi c cn bk ci.
        nodes s nod = Some n \<and> get_qpos (fst e) (qlen n) = Inr bi \<and>
        branches n bi = Some c \<and> nodes s c = Some cn \<and> qlen n < q \<and> q < qlen cn \<and>
        key_bytes s (key cn) = Inr bk \<and> get_qpos bk q = Inr ci \<and>
        m_items s' = (m_items s)(items_next s \<mapsto> e) \<and> items_next s' = Suc (items_next s) \<and>
        nodes s' nod = Some (n\<lparr>branches := (branches n)(bi \<mapsto> nodes_next s)\<rparr>) \<and>
        node_is (nodes s' c) (item cn) (key cn) (qlen cn) (Some (nodes_next s))
          (ci, br_1st cn, br_last cn) (branches cn) \<and>
        (if q = 2 * length (fst e) then
           it = Some (nodes_next s) \<and> nodes_next s' = Suc (nodes_next s) \<and>
           node_is (nodes s' (nodes_next s)) (Some (items_next s)) (Some (items_next s)) q (Some nod)
             (bi, ci, ci) ((\<lambda>_. None)(ci \<mapsto> c)) \<and>
           (\<forall>a. a \<notin> {nod, c, nodes_next s} \<longrightarrow> nodes s' a = nodes s a)
         else
           (\<exists>li. get_qpos (fst e) q = Inr li \<and> li \<noteq> ci \<and>
              it = Some (Suc (nodes_next s)) \<and> nodes_next s' = Suc (Suc (nodes_next s)) \<and>
              node_is (nodes s' (nodes_next s)) None (key cn) q (Some nod)
                (bi, min ci li, max ci li) ((\<lambda>_. None)(ci \<mapsto> c, li \<mapsto> Suc (nodes_next s))) \<and>
              node_is (nodes s' (Suc (nodes_next s))) (Some (items_next s)) (Some (items_next s))
                (2 * length (fst e)) (Some (nodes_next s)) (li, 1, 0) (\<lambda>_. None) \<and>
              (\<forall>a. a \<notin> {nod, c, nodes_next s, Suc (nodes_next s)} \<longrightarrow> nodes s' a = nodes s a))))"

text \<open>What can be read off a node: item, key, \<open>qlen\<close>, parent, the branch indices, the slots.\<close>

definition node_view ::
  "node \<Rightarrow> nat option \<times> nat option \<times> nat \<times> nat option \<times> (nat \<times> nat \<times> nat) \<times> nat option list" where
  "node_view m =
     (item m, key m, qlen m, parent m, (br_own m, br_1st m, br_last m), map (branches m) [0..<16])"

text \<open>\<open>"abxx"\<close> inserted at its lower bound in the trie that holds \<open>"abcd"\<close>.\<close>

definition s_split :: "nat trie" where
  "s_split =
     (case insert_at s_single (k_abxx, 2) (Some m_root, 4, False) of
        Some (Inr (s', it)) \<Rightarrow> s' | _ \<Rightarrow> trie_new)"

text \<open>\<open>"ab"\<close> inserted at its lower bound in the trie that holds \<open>"abcd"\<close>.\<close>

definition k_ab :: "byte list" where "k_ab = [0x61, 0x62]"

definition s_split_end :: "nat trie" where
  "s_split_end =
     (case insert_at s_single (k_ab, 3) (Some m_root, 4, False) of
        Some (Inr (s', it)) \<Rightarrow> s' | _ \<Rightarrow> trie_new)"

text \<open>
  The result of slobby tracing that has no counterpart in strict tracing: a match at a leaf
  \<open>c\<close> that the descent has just reached through a slot of its parent.
\<close>

text \<open>The key \<open>"z"\<close>.\<close>

definition k_z :: "byte list" where "k_z = [0x7a]"

definition leaf_hit :: "'v trie \<Rightarrow> nat \<Rightarrow> nat \<Rightarrow> bool" where
  "leaf_hit s len c \<longleftrightarrow>
     (\<exists>cn p pn ix. nodes s c = Some cn \<and> is_leaf cn \<and> nodes s p = Some pn \<and>
        branches pn ix = Some c)"

text \<open>
  The tries built from the empty one by \<open>insert\<close> of items whose keys satisfy \<open>P\<close>, and by
  \<open>erase\<close>.
\<close>

inductive reach_keys :: "(byte list \<Rightarrow> bool) \<Rightarrow> 'v trie \<Rightarrow> bool" for P where
  rk_new: "reach_keys P trie_new"
| rk_insert: "reach_keys P s \<Longrightarrow> P (fst e) \<Longrightarrow> trie_insert s e = Some (Inr (s', it)) \<Longrightarrow>
    reach_keys P s'"
| rk_erase: "reach_keys P s \<Longrightarrow> erase s it = Some (Inr (s', it')) \<Longrightarrow> reach_keys P s'"

text \<open>
  The node of an item is as deep as the key of the item is long, and every item of the list
  is the item of a node.
\<close>

definition keyed :: "'v trie \<Rightarrow> bool" where
  "keyed s \<longleftrightarrow>
     (\<forall>a n h e. nodes s a = Some n \<and> item n = Some h \<and> m_items s h = Some e \<longrightarrow>
        qlen n = 2 * length (fst e)) \<and>
     (\<forall>h e. m_items s h = Some e \<longrightarrow> (\<exists>a n. nodes s a = Some n \<and> item n = Some h))"

text \<open>The nodes with items, their items and their depths are the same in \<open>s\<close> and \<open>s'\<close>.\<close>

definition items_kept :: "'v trie \<Rightarrow> 'v trie \<Rightarrow> bool" where
  "items_kept s s' \<longleftrightarrow>
     m_items s' = m_items s \<and>
     (\<forall>a m'. nodes s' a = Some m' \<and> item m' \<noteq> None \<longrightarrow>
        (\<exists>m. nodes s a = Some m \<and> item m = item m' \<and> qlen m = qlen m')) \<and>
     (\<forall>a m. nodes s a = Some m \<and> item m \<noteq> None \<longrightarrow>
        (\<exists>m'. nodes s' a = Some m' \<and> item m' = item m \<and> qlen m' = qlen m))"

text \<open>
  The item \<open>e\<close> is installed in the node \<open>t\<close>, which is as deep as the key is long; the other
  nodes with items, their items and their depths are the same in \<open>s\<close> and \<open>s'\<close>.
\<close>

definition installed :: "'v trie \<Rightarrow> byte list \<times> 'v \<Rightarrow> nat \<Rightarrow> 'v trie \<Rightarrow> bool" where
  "installed s e t s' \<longleftrightarrow>
     m_items s' = (m_items s)(items_next s \<mapsto> e) \<and>
     (\<exists>m. nodes s' t = Some m \<and> item m = Some (items_next s) \<and> qlen m = 2 * length (fst e)) \<and>
     (\<forall>a m'. a \<noteq> t \<and> nodes s' a = Some m' \<and> item m' \<noteq> None \<longrightarrow>
        (\<exists>m. nodes s a = Some m \<and> item m = item m' \<and> qlen m = qlen m')) \<and>
     (\<forall>a m. nodes s a = Some m \<and> item m \<noteq> None \<longrightarrow>
        a \<noteq> t \<and> (\<exists>m'. nodes s' a = Some m' \<and> item m' = item m \<and> qlen m' = qlen m))"

text \<open>\<open>"a"\<close> inserted into the empty trie with \<open>insert(item, pos)\<close> at its lower bound.\<close>

definition s_at_root :: "nat trie" where
  "s_at_root =
     (case insert_at trie_new (k_a, 1) (Some m_root, 0, False) of
        Some (Inr (s', it)) \<Rightarrow> s' | _ \<Rightarrow> trie_new)"

text \<open>Are the keys of all the items a driver inserts as \<open>P\<close> wants them?\<close>

fun keys_ok :: "(byte list \<Rightarrow> bool) \<Rightarrow> 'v action list \<Rightarrow> bool" where
  "keys_ok P [] = True"
| "keys_ok P (A e # as) = (P (fst e) \<and> keys_ok P as)"
| "keys_ok P (R k # as) = keys_ok P as"

section \<open>Properties\<close>

subsection \<open>Nibbles of a byte\<close>

lemma xor_hi: "drop_bit 4 ((a::byte) XOR b) \<noteq> 0 \<longleftrightarrow> hi a \<noteq> hi b"
proof -
  have "drop_bit 4 (a XOR b) = drop_bit 4 a XOR drop_bit 4 b"
    by (rule bit_word_eqI) (auto simp: bit_simps)
  moreover have "(drop_bit 4 a XOR drop_bit 4 b = 0) = (drop_bit 4 a = drop_bit 4 b)"
    by (metis bit.xor_left_self xor.right_neutral)
  ultimately show ?thesis by (simp add: hi_def word_unat_eq_iff)
qed

lemma xor_hi': "drop_bit 4 (a::byte) XOR drop_bit 4 b \<noteq> 0 \<longleftrightarrow> hi a \<noteq> hi b"
proof -
  have "(drop_bit 4 a XOR drop_bit 4 b = 0) = (drop_bit 4 a = drop_bit 4 b)"
    by (metis bit.xor_left_self xor.right_neutral)
  then show ?thesis by (simp add: hi_def word_unat_eq_iff)
qed

subsection \<open>A miss while descending\<close>

text \<open>
  C9.  In the branching loop of \<open>trace\<close> at byte \<open>i\<close>, when the slot the current node
  \<open>nod\<close> is asked for is empty: a branch on the high nibble (\<open>qlen = 0\<close>) calls the miss
  action at \<open>nod\<close> with \<open>2i\<close> matched nibbles; a branch on the low nibble (\<open>qlen = 1\<close>)
  calls it at \<open>nod\<close> with \<open>2i + 1\<close>, unless the high nibble of the byte differs from the
  high nibble of byte \<open>i\<close> of \<open>nod\<close>'s key: then the miss action is called at the parent
  of \<open>nod\<close> with \<open>2i\<close>.
\<close>

theorem trace_branch_miss:
  assumes "ql < 2" and "nodes s nod = Some pn"
    and "branches pn (if ql \<noteq> 0 then lo b else hi b) = None"
    and "ql \<noteq> 0 \<longrightarrow> key_at s (key pn) i = Inr kb"
  shows "trace_branch kt miss s k len slob i b nod ql fwd =
           Some (Inl (if ql = 0 then miss s k len (Some nod) (2 * i)
                      else if hi kb = hi b then miss s k len (Some nod) (2 * i + 1)
                      else miss s k len (parent pn) (2 * i)))"
proof -
  from assms(1) have "ql = 0 \<or> ql = 1" by auto
  then show ?thesis
    using assms(2-4)
    by (subst trace_branch.simps) (auto simp: xor_hi xor_hi')
qed

theorem trace_branch_miss_witness:
  "trace_branch TRIE_KEY_TRACING_STRICT search_position s_odd [0xaa, 0x25] 2 False 1 0x25 2 1 False =
     Some (Inl (search_position s_odd [0xaa, 0x25] 2 (Some m_root) 2))
   \<and> trace_branch TRIE_KEY_TRACING_STRICT search_position s_odd [0xaa, 0x15] 2 False 1 0x15 2 1 False =
     Some (Inl (search_position s_odd [0xaa, 0x15] 2 (Some 2) 3))
   \<and> trace_branch TRIE_KEY_TRACING_STRICT search_position s_odd [0xbb] 1 False 0 0xbb m_root 0 False =
     Some (Inl (search_position s_odd [0xbb] 1 (Some m_root) 0))"
proof -
  have n2: "nodes s_odd 2 \<noteq> None" by code_simp
  have n0: "nodes s_odd m_root \<noteq> None" by code_simp
  have b1: "branches (the (nodes s_odd 2)) (lo 0x25) = None" by code_simp
  have b2: "branches (the (nodes s_odd 2)) (lo 0x15) = None" by code_simp
  have b3: "branches (the (nodes s_odd m_root)) (hi 0xbb) = None" by code_simp
  have k1: "key_at s_odd (key (the (nodes s_odd 2))) 1 = Inr 0x10" by code_simp
  have p1: "parent (the (nodes s_odd 2)) = Some m_root" by code_simp
  have h1: "hi (0x10 :: byte) \<noteq> hi 0x25" by code_simp
  have h2: "hi (0x10 :: byte) = hi 0x15" by code_simp
  from n2 n0 have e: "nodes s_odd 2 = Some (the (nodes s_odd 2))"
    "nodes s_odd m_root = Some (the (nodes s_odd m_root))" by auto
  show ?thesis
    using trace_branch_miss [of 1 s_odd 2 "the (nodes s_odd 2)" "0x25" 1 "0x10"
            TRIE_KEY_TRACING_STRICT search_position "[0xaa, 0x25]" 2 False False]
          trace_branch_miss [of 1 s_odd 2 "the (nodes s_odd 2)" "0x15" 1 "0x10"
            TRIE_KEY_TRACING_STRICT search_position "[0xaa, 0x15]" 2 False False]
          trace_branch_miss [of 0 s_odd m_root "the (nodes s_odd m_root)" "0xbb" 0 "0x10"
            TRIE_KEY_TRACING_STRICT search_position "[0xbb]" 1 False False]
          e b1 b2 b3 k1 p1 h1 h2
    by simp
qed

subsection \<open>Erasing through an iterator\<close>



subsection \<open>The slobby fast path\<close>

text \<open>
  C10.  With slobby tracing the key length is not compared: in the trie that holds only
  \<open>"abcd"\<close>, \<open>find("a", 1)\<close> reaches the leaf of \<open>"abcd"\<close> while descending and returns an
  iterator at that entry, with matched length \<open>2 \<sqdot> 1\<close>; strict tracing returns the end
  iterator.
\<close>

theorem slobby_false_positive:
  "entries s_single = Some (Inr [(k_abcd, 4, 7)]) \<and>
   map_option (map_sum id fst)
     (trace TRIE_KEY_TRACING_SLOBBY search_position s_single k_a 1 True) =
       Some (Inr (Some 1, 2, True)) \<and>
   trie_find TRIE_KEY_TRACING_SLOBBY s_single k_a 1 = Some (Inr (Some 1)) \<and>
   iter_deref s_single (Some 1) = Inr (k_abcd, 4, 7) \<and>
   trie_find TRIE_KEY_TRACING_STRICT s_single k_a 1 = Some (Inr None)"
  by code_simp

subsection \<open>Key pointers left behind by \<open>erase\<close>\<close>

text \<open>
  C1.  After \<open>"abcd"\<close>, \<open>"abxx"\<close> and \<open>"abc"\<close> are inserted and \<open>"abcd"\<close> is erased, the
  entries \<open>"abc"\<close> and \<open>"abxx"\<close> are there, the interim node above them (at address 2)
  still has the key pointer of the erased item, and \<open>find("abc", 3)\<close> reads through it.
\<close>

theorem find_reads_erased_key:
  "entries s_erased = Some (Inr [(k_abc, 3, 3), (k_abxx, 4, 2)]) \<and>
   map_option key (nodes s_erased 2) = Some (Some 0) \<and>
   map_option item (nodes s_erased 2) = Some None \<and>
   m_items s_erased 0 = None \<and>
   trie_find TRIE_KEY_TRACING_STRICT s_erased k_abc 3 = Some (Inl UseAfterFree)"
  by code_simp

text \<open>
  C3.  In the same state, inserting an item with the key \<open>"abc"\<close>, which is present, reads
  through the key pointer of the erased item as well.
\<close>

theorem insert_reads_erased_key:
  "entries s_erased = Some (Inr [(k_abc, 3, 3), (k_abxx, 4, 2)]) \<and>
   map_option (map_sum id snd) (trie_insert s_erased (k_abc, 9)) = Some (Inl UseAfterFree)"
  by code_simp

subsection \<open>Packed branch indices and nibbles\<close>

subsection \<open>Branch attributes\<close>

lemma c_f: "(0xf :: 32 word) = mask 4" by (simp add: mask_eq_exp_minus_1)

lemma c_f0: "(0xf0 :: 32 word) = push_bit 4 (mask 4)" by (simp add: mask_eq_exp_minus_1)

lemma c_ff: "(0xff :: 32 word) = mask 8" by (simp add: mask_eq_exp_minus_1)

lemma c_f00: "(0xf00 :: 32 word) = push_bit 8 (mask 4)" by (simp add: mask_eq_exp_minus_1)

lemma nib_tb: "ix < 16 \<Longrightarrow> (of_nat ix :: 32 word) = of_nat (take_bit 4 ix)"
  by (simp add: take_bit_nat_eq_self)

lemma unat_nib: "ix < 16 \<Longrightarrow> unat (of_nat ix :: 32 word) = ix"
  by (simp add: unat_of_nat)

lemma nib_lt: "unat (mask 4 AND (w :: 32 word)) < 16"
proof -
  have "mask 4 AND w = take_bit 4 w" by (simp add: take_bit_eq_mask and.commute)
  then have "unat (mask 4 AND w) = take_bit 4 (unat w)" by (simp only: unsigned_take_bit_eq)
  then show ?thesis by (simp add: take_bit_eq_mod)
qed

lemma br_1st_lt [simp]: "br_1st n < 16" unfolding br_1st_def c_f by (rule nib_lt)

lemma br_last_lt [simp]: "br_last n < 16" unfolding br_last_def c_f by (rule nib_lt)

lemma br_own_lt [simp]: "br_own n < 16" unfolding br_own_def c_f by (rule nib_lt)

lemma f_set_1st:
  assumes "ix < 16"
  shows "mask 4 AND ((a AND NOT (mask 4)) OR (of_nat ix :: 32 word)) = of_nat ix"
    and "mask 4 AND drop_bit 4 ((a AND NOT (mask 4)) OR (of_nat ix :: 32 word)) = mask 4 AND drop_bit 4 a"
    and "mask 4 AND drop_bit 8 ((a AND NOT (mask 4)) OR (of_nat ix :: 32 word)) = mask 4 AND drop_bit 8 a"
  unfolding nib_tb [OF assms]
  by (rule bit_word_eqI; auto simp add: bit_simps)+

lemma f_set_last:
  assumes "ix < 16"
  shows "mask 4 AND ((a AND NOT (push_bit 4 (mask 4))) OR push_bit 4 (of_nat ix :: 32 word)) = mask 4 AND a"
    and "mask 4 AND drop_bit 4 ((a AND NOT (push_bit 4 (mask 4))) OR push_bit 4 (of_nat ix :: 32 word)) = of_nat ix"
    and "mask 4 AND drop_bit 8 ((a AND NOT (push_bit 4 (mask 4))) OR push_bit 4 (of_nat ix :: 32 word)) = mask 4 AND drop_bit 8 a"
  unfolding nib_tb [OF assms]
  by (rule bit_word_eqI; auto simp add: bit_simps)+

lemma f_set_own:
  assumes "ix < 16"
  shows "mask 4 AND ((a AND NOT (push_bit 8 (mask 4))) OR push_bit 8 (of_nat ix :: 32 word)) = mask 4 AND a"
    and "mask 4 AND drop_bit 4 ((a AND NOT (push_bit 8 (mask 4))) OR push_bit 8 (of_nat ix :: 32 word)) = mask 4 AND drop_bit 4 a"
    and "mask 4 AND drop_bit 8 ((a AND NOT (push_bit 8 (mask 4))) OR push_bit 8 (of_nat ix :: 32 word)) = of_nat ix"
  unfolding nib_tb [OF assms]
  by (rule bit_word_eqI; auto simp add: bit_simps)+

lemma f_set_both:
  assumes "i1 < 16" "i2 < 16"
  shows "mask 4 AND ((a AND NOT (mask 8)) OR (push_bit 4 (of_nat i2) OR (of_nat i1 :: 32 word))) = of_nat i1"
    and "mask 4 AND drop_bit 4 ((a AND NOT (mask 8)) OR (push_bit 4 (of_nat i2) OR (of_nat i1 :: 32 word))) = of_nat i2"
    and "mask 4 AND drop_bit 8 ((a AND NOT (mask 8)) OR (push_bit 4 (of_nat i2) OR (of_nat i1 :: 32 word))) = mask 4 AND drop_bit 8 a"
  unfolding nib_tb [OF assms(1)] nib_tb [OF assms(2)]
  by (rule bit_word_eqI; auto simp add: bit_simps)+

lemma f_init:
  assumes "i0 < 16" "i1 < 16" "i2 < 16"
  shows "mask 4 AND (push_bit 8 (of_nat i0) OR push_bit 4 (of_nat i2) OR (of_nat i1 :: 32 word)) = of_nat i1"
    and "mask 4 AND drop_bit 4 (push_bit 8 (of_nat i0) OR push_bit 4 (of_nat i2) OR (of_nat i1 :: 32 word)) = of_nat i2"
    and "mask 4 AND drop_bit 8 (push_bit 8 (of_nat i0) OR push_bit 4 (of_nat i2) OR (of_nat i1 :: 32 word)) = of_nat i0"
  unfolding nib_tb [OF assms(1)] nib_tb [OF assms(2)] nib_tb [OF assms(3)]
  by (rule bit_word_eqI; auto simp add: bit_simps)+

lemma attrs_set:
  "br_attrs (set_br_1st ix n) = (br_attrs n AND NOT (mask 4)) OR of_nat ix"
  "br_attrs (set_br_last ix n) = (br_attrs n AND NOT (push_bit 4 (mask 4))) OR push_bit 4 (of_nat ix)"
  "br_attrs (set_br_own ix n) = (br_attrs n AND NOT (push_bit 8 (mask 4))) OR push_bit 8 (of_nat ix)"
  "br_attrs (br_set i1 i2 n) = (br_attrs n AND NOT (mask 8)) OR (push_bit 4 (of_nat i2) OR of_nat i1)"
  "br_attrs (new_node it k q p i0 i1 i2) = push_bit 8 (of_nat i0) OR push_bit 4 (of_nat i2) OR of_nat i1"
  unfolding set_br_1st_def set_br_last_def set_br_own_def br_set_def new_node_def br_attrs_init_def
    c_f c_f0 c_ff c_f00
  by simp_all

lemma set_br_1st_simps [simp]:
  "ix < 16 \<Longrightarrow> br_1st (set_br_1st ix n) = ix"
  "ix < 16 \<Longrightarrow> br_last (set_br_1st ix n) = br_last n"
  "ix < 16 \<Longrightarrow> br_own (set_br_1st ix n) = br_own n"
  unfolding br_1st_def br_last_def br_own_def c_f attrs_set
  by (simp_all only: f_set_1st unat_nib)

lemma set_br_last_simps [simp]:
  "ix < 16 \<Longrightarrow> br_1st (set_br_last ix n) = br_1st n"
  "ix < 16 \<Longrightarrow> br_last (set_br_last ix n) = ix"
  "ix < 16 \<Longrightarrow> br_own (set_br_last ix n) = br_own n"
  unfolding br_1st_def br_last_def br_own_def c_f attrs_set
  by (simp_all only: f_set_last unat_nib)

lemma set_br_own_simps [simp]:
  "ix < 16 \<Longrightarrow> br_1st (set_br_own ix n) = br_1st n"
  "ix < 16 \<Longrightarrow> br_last (set_br_own ix n) = br_last n"
  "ix < 16 \<Longrightarrow> br_own (set_br_own ix n) = ix"
  unfolding br_1st_def br_last_def br_own_def c_f attrs_set
  by (simp_all only: f_set_own unat_nib)

lemma br_set_simps [simp]:
  "i1 < 16 \<Longrightarrow> i2 < 16 \<Longrightarrow> br_1st (br_set i1 i2 n) = i1"
  "i1 < 16 \<Longrightarrow> i2 < 16 \<Longrightarrow> br_last (br_set i1 i2 n) = i2"
  "i1 < 16 \<Longrightarrow> i2 < 16 \<Longrightarrow> br_own (br_set i1 i2 n) = br_own n"
  unfolding br_1st_def br_last_def br_own_def c_f attrs_set
  by (simp_all only: f_set_both unat_nib)

lemma new_node_br [simp]:
  "i0 < 16 \<Longrightarrow> i1 < 16 \<Longrightarrow> i2 < 16 \<Longrightarrow> br_1st (new_node it k q p i0 i1 i2) = i1"
  "i0 < 16 \<Longrightarrow> i1 < 16 \<Longrightarrow> i2 < 16 \<Longrightarrow> br_last (new_node it k q p i0 i1 i2) = i2"
  "i0 < 16 \<Longrightarrow> i1 < 16 \<Longrightarrow> i2 < 16 \<Longrightarrow> br_own (new_node it k q p i0 i1 i2) = i0"
  unfolding br_1st_def br_last_def br_own_def c_f attrs_set
  by (simp_all only: f_init unat_nib)

lemma new_node_fields [simp]:
  "item (new_node it k q p i0 i1 i2) = it"
  "key (new_node it k q p i0 i1 i2) = k"
  "qlen (new_node it k q p i0 i1 i2) = q"
  "parent (new_node it k q p i0 i1 i2) = p"
  "branches (new_node it k q p i0 i1 i2) = (\<lambda>_. None)"
  by (simp_all add: new_node_def)

lemma setter_fields [simp]:
  "item (set_br_1st ix n) = item n" "key (set_br_1st ix n) = key n" "qlen (set_br_1st ix n) = qlen n"
  "parent (set_br_1st ix n) = parent n" "branches (set_br_1st ix n) = branches n"
  "item (set_br_last ix n) = item n" "key (set_br_last ix n) = key n" "qlen (set_br_last ix n) = qlen n"
  "parent (set_br_last ix n) = parent n" "branches (set_br_last ix n) = branches n"
  "item (set_br_own ix n) = item n" "key (set_br_own ix n) = key n" "qlen (set_br_own ix n) = qlen n"
  "parent (set_br_own ix n) = parent n" "branches (set_br_own ix n) = branches n"
  "item (br_set i1 i2 n) = item n" "key (br_set i1 i2 n) = key n" "qlen (br_set i1 i2 n) = qlen n"
  "parent (br_set i1 i2 n) = parent n" "branches (br_set i1 i2 n) = branches n"
  by (simp_all add: set_br_1st_def set_br_last_def set_br_own_def br_set_def)

text \<open>The branch indices do not depend on the other fields.\<close>

lemma br_upd_other [simp]:
  "br_1st (n\<lparr>item := it\<rparr>) = br_1st n" "br_last (n\<lparr>item := it\<rparr>) = br_last n" "br_own (n\<lparr>item := it\<rparr>) = br_own n"
  "br_1st (n\<lparr>key := k\<rparr>) = br_1st n" "br_last (n\<lparr>key := k\<rparr>) = br_last n" "br_own (n\<lparr>key := k\<rparr>) = br_own n"
  "br_1st (n\<lparr>parent := p\<rparr>) = br_1st n" "br_last (n\<lparr>parent := p\<rparr>) = br_last n" "br_own (n\<lparr>parent := p\<rparr>) = br_own n"
  "br_1st (n\<lparr>branches := bs\<rparr>) = br_1st n" "br_last (n\<lparr>branches := bs\<rparr>) = br_last n" "br_own (n\<lparr>branches := bs\<rparr>) = br_own n"
  by (simp_all add: br_1st_def br_last_def br_own_def)

lemma is_leaf_upd_other [simp]:
  "is_leaf (n\<lparr>item := it\<rparr>) = is_leaf n" "is_leaf (n\<lparr>key := k\<rparr>) = is_leaf n"
  "is_leaf (n\<lparr>parent := p\<rparr>) = is_leaf n" "is_leaf (n\<lparr>branches := bs\<rparr>) = is_leaf n"
  by (simp_all add: is_leaf_def)

subsection \<open>Nibbles\<close>

lemma hi_div: "hi b = unat b div 16"
  unfolding hi_def unat_drop_bit_eq by (simp add: drop_bit_eq_div)

lemma lo_mod: "lo b = unat b mod 16"
proof -
  have "b AND 0x0f = take_bit 4 b" by (simp add: take_bit_eq_mask mask_eq_exp_minus_1)
  then have "lo b = take_bit 4 (unat b)" unfolding lo_def by (simp only: unsigned_take_bit_eq)
  then show ?thesis by (simp add: take_bit_eq_mod)
qed

lemma hi_lt [simp]: "hi b < 16"
proof -
  have "unat b < 256" using unsigned_less [of b, where 'a = nat] by simp
  then show ?thesis by (simp add: hi_div)
qed

lemma lo_lt [simp]: "lo b < 16"
  by (simp add: lo_mod)

lemma byte_eq_iff: "(a :: byte) = b \<longleftrightarrow> hi a = hi b \<and> lo a = lo b"
proof
  assume "hi a = hi b \<and> lo a = lo b"
  then have "unat a div 16 = unat b div 16" "unat a mod 16 = unat b mod 16"
    by (simp_all add: hi_div lo_mod)
  then have "unat a = unat b"
    by (metis div_mult_mod_eq)
  then show "a = b" by (simp add: word_unat_eq_iff)
qed simp

lemma xor_f0: "((a::byte) XOR b) AND 0xf0 = 0 \<longleftrightarrow> hi a = hi b"
proof -
  have c: "(0xf0 :: byte) = push_bit 4 (mask 4)" by (simp add: mask_eq_exp_minus_1)
  have "(a XOR b) AND 0xf0 = push_bit 4 (drop_bit 4 a XOR drop_bit 4 b)"
    unfolding c by (rule bit_word_eqI) (auto simp: bit_simps)
  moreover have "(push_bit 4 (drop_bit 4 a XOR drop_bit 4 b) = 0) = (drop_bit 4 a XOR drop_bit 4 b = 0)"
  proof
    assume z: "push_bit 4 (drop_bit 4 a XOR drop_bit 4 b) = 0"
    have "drop_bit 4 (push_bit 4 (drop_bit 4 a XOR drop_bit 4 b)) = drop_bit 4 a XOR drop_bit 4 b"
      by (rule bit_word_eqI) (auto simp: bit_simps dest: bit_imp_le_length)
    with z show "drop_bit 4 a XOR drop_bit 4 b = 0" by simp
  qed simp
  moreover have "(drop_bit 4 a XOR drop_bit 4 b = 0) = (drop_bit 4 a = drop_bit 4 b)"
    by (metis bit.xor_left_self xor.right_neutral)
  ultimately show ?thesis by (simp add: hi_def word_unat_eq_iff)
qed

lemma xor_0: "((a::byte) XOR b) = 0 \<longleftrightarrow> a = b"
  by (metis bit.xor_left_self xor.right_neutral)

subsection \<open>The structural invariant\<close>

lemma length_nibbles [simp]: "length (nibbles k) = 2 * length k"
  by (induction k) auto

lemma nibbles_lt: "x \<in> set (nibbles k) \<Longrightarrow> x < 16"
  by (induction k) auto

lemma nibbles_nth:
  "i < length k \<Longrightarrow> nibbles k ! (2 * i) = hi (k ! i) \<and> nibbles k ! Suc (2 * i) = lo (k ! i)"
proof (induction k arbitrary: i)
  case Nil then show ?case by simp
next
  case (Cons b bs)
  then show ?case by (cases i) auto
qed

lemma get_qpos_nibbles: "q < 2 * length k \<Longrightarrow> get_qpos k q = Inr (nibbles k ! q)"
proof -
  assume a: "q < 2 * length k"
  then have l: "q div 2 < length k" by auto
  show ?thesis
  proof (cases "even q")
    case True
    then obtain i where "q = 2 * i" by (auto elim: evenE)
    with l nibbles_nth [of i k] show ?thesis by (simp add: get_qpos_def byte_at_def)
  next
    case False
    then obtain i where "q = Suc (2 * i)" by (auto elim: oddE)
    with l nibbles_nth [of i k] show ?thesis by (simp add: get_qpos_def byte_at_def)
  qed
qed

lemma get_qpos_Inr: "get_qpos k q = Inr x \<Longrightarrow> q < 2 * length k \<and> x = nibbles k ! q"
proof -
  assume a: "get_qpos k q = Inr x"
  then have "q div 2 < length k" by (auto simp: get_qpos_def byte_at_def split: if_splits sum.splits)
  then have "q < 2 * length k" by auto
  with a get_qpos_nibbles [of q k] show ?thesis by simp
qed

lemma insert_node_leaf_eff:
  assumes "nodes s nod = Some n" "nodes s (nodes_next s) = None" "branches n bi = None"
  shows "insert_node_leaf s len nod bi =
     Inr ((Some (nodes_next s), 2 * len, False),
          s\<lparr>nodes := (nodes s)(nod \<mapsto> (br_extend bi n)\<lparr>branches := (branches n)(bi := Some (nodes_next s))\<rparr>,
                               nodes_next s \<mapsto> new_node None None (2 * len) (Some nod) bi 1 0),
            nodes_next := Suc (nodes_next s)\<rparr>)"
proof -
  from assms have "nod \<noteq> nodes_next s" by auto
  moreover have "branches (br_extend bi n) = branches n"
    by (simp add: br_extend_def Let_def)
  ultimately show ?thesis
    using assms
    by (simp add: insert_node_leaf_def upd_node_def Let_def fun_upd_twist)
qed

lemma insert_item_eff:
  assumes "nodes s a = Some m"
  shows "insert_item e (Some a) s =
     Inr (s\<lparr>m_items := (m_items s)(items_next s \<mapsto> e), items_next := Suc (items_next s),
            nodes := (nodes s)(a \<mapsto> m\<lparr>key := Some (items_next s), item := Some (items_next s)\<rparr>)\<rparr>)"
  using assms by (simp add: insert_item_def deref_def upd_node_def Let_def)

lemma wfpI:
  assumes "\<exists>r. nodes s m_root = Some r \<and> qlen r = 0 \<and> parent r = None"
    and "\<And>a n. nodes s a = Some n \<Longrightarrow> node_ok X s pth a n"
    and "\<And>a b n m h. nodes s a = Some n \<Longrightarrow> nodes s b = Some m \<Longrightarrow> item n = Some h \<Longrightarrow>
           item m = Some h \<Longrightarrow> a = b"
    and "\<And>h e. m_items s h = Some e \<Longrightarrow> h < items_next s"
  shows "trie_inv X s pth"
  using assms unfolding trie_inv_def by blast

lemma wfp_node: "trie_inv X s pth \<Longrightarrow> nodes s a = Some n \<Longrightarrow> node_ok X s pth a n"
  by (simp add: trie_inv_def)

lemma wfp_fresh': "trie_inv X s pth \<Longrightarrow> nodes_next s \<le> a \<Longrightarrow> nodes s a = None"
proof (cases "nodes s a")
  case (Some n)
  assume "trie_inv X s pth" "nodes_next s \<le> a"
  with Some wfp_node [of X s pth a n] show ?thesis by (simp add: node_ok_def)
qed simp

lemma wfp_fresh: "trie_inv X s pth \<Longrightarrow> nodes s (nodes_next s) = None"
  by (rule wfp_fresh') simp_all

lemma wfp_item_fresh': "trie_inv X s pth \<Longrightarrow> items_next s \<le> h \<Longrightarrow> m_items s h = None"
proof (cases "m_items s h")
  case (Some e)
  assume "trie_inv X s pth" "items_next s \<le> h"
  then have "\<forall>h e. m_items s h = Some e \<longrightarrow> h < items_next s" "items_next s \<le> h"
    by (simp_all add: trie_inv_def)
  with Some show ?thesis by fastforce
qed simp

lemma wfp_item_fresh: "trie_inv X s pth \<Longrightarrow> m_items s (items_next s) = None"
  by (rule wfp_item_fresh') simp_all

lemma node_okD:
  assumes "node_ok X s pth a n"
  shows "a < nodes_next s" and "br_ok n"
    and "\<And>i c. branches n i = Some c \<Longrightarrow>
           \<exists>cn. nodes s c = Some cn \<and> parent cn = Some a \<and> br_own cn = i \<and> qlen n < qlen cn \<and>
                take (Suc (qlen n)) (pth c) = pth a @ [i]"
    and "a \<noteq> m_root \<Longrightarrow>
           \<exists>p pn. parent n = Some p \<and> nodes s p = Some pn \<and> branches pn (br_own n) = Some a"
    and "a \<noteq> m_root \<Longrightarrow> a \<notin> X \<Longrightarrow> item n = None \<Longrightarrow> br_1st n < br_last n"
    and "\<And>h. item n = Some h \<Longrightarrow> key n = Some h \<and> m_items s h \<noteq> None"
    and "\<And>h. key n = Some h \<Longrightarrow> h < items_next s"
    and "length (pth a) = qlen n" and "\<And>x. x \<in> set (pth a) \<Longrightarrow> x < 16"
    and "\<And>h e. key n = Some h \<Longrightarrow> m_items s h = Some e \<Longrightarrow>
           qlen n \<le> 2 * length (fst e) \<and> take (qlen n) (nibbles (fst e)) = pth a"
  using assms unfolding node_ok_def by blast+

lemma node_okI:
  assumes "a < nodes_next s" and "br_ok n"
    and "\<And>i c. branches n i = Some c \<Longrightarrow>
           \<exists>cn. nodes s c = Some cn \<and> parent cn = Some a \<and> br_own cn = i \<and> qlen n < qlen cn \<and>
                take (Suc (qlen n)) (pth c) = pth a @ [i]"
    and "a \<noteq> m_root \<Longrightarrow>
           \<exists>p pn. parent n = Some p \<and> nodes s p = Some pn \<and> branches pn (br_own n) = Some a"
    and "a \<noteq> m_root \<Longrightarrow> a \<notin> X \<Longrightarrow> item n = None \<Longrightarrow> br_1st n < br_last n"
    and "\<And>h. item n = Some h \<Longrightarrow> key n = Some h \<and> m_items s h \<noteq> None"
    and "\<And>h. key n = Some h \<Longrightarrow> h < items_next s"
    and "length (pth a) = qlen n" and "\<And>x. x \<in> set (pth a) \<Longrightarrow> x < 16"
    and "\<And>h e. key n = Some h \<Longrightarrow> m_items s h = Some e \<Longrightarrow>
           qlen n \<le> 2 * length (fst e) \<and> take (qlen n) (nibbles (fst e)) = pth a"
  shows "node_ok X s pth a n"
  using assms unfolding node_ok_def by blast

lemma node_ok_frame:
  assumes ok: "node_ok X s pth a n"
    and ch: "\<And>i c cn. branches n i = Some c \<Longrightarrow> nodes s c = Some cn \<Longrightarrow>
               \<exists>cn'. nodes s' c = Some cn' \<and> parent cn' = parent cn \<and> br_own cn' = br_own cn \<and>
                      qlen cn' = qlen cn"
    and chp: "\<And>i c. branches n i = Some c \<Longrightarrow> pth' c = pth c"
    and par: "\<And>p pn. parent n = Some p \<Longrightarrow> nodes s p = Some pn \<Longrightarrow> a \<noteq> m_root \<Longrightarrow>
               \<exists>pn'. nodes s' p = Some pn' \<and> branches pn' (br_own n) = branches pn (br_own n)"
    and pa: "pth' a = pth a"
    and it: "\<And>h. item n = Some h \<Longrightarrow> m_items s h \<noteq> None \<Longrightarrow> m_items s' h \<noteq> None"
    and ky: "\<And>h e. key n = Some h \<Longrightarrow> m_items s' h = Some e \<Longrightarrow> m_items s h = Some e"
    and nx: "nodes_next s \<le> nodes_next s'" "items_next s \<le> items_next s'"
    and X: "a \<in> X \<Longrightarrow> a \<in> X'"
  shows "node_ok X' s' pth' a n"
proof (rule node_okI)
  note D = node_okD [OF ok]
  show "a < nodes_next s'" using D(1) nx by simp
  show "br_ok n" by (rule D(2))
  show "\<exists>cn. nodes s' c = Some cn \<and> parent cn = Some a \<and> br_own cn = i \<and> qlen n < qlen cn \<and>
              take (Suc (qlen n)) (pth' c) = pth' a @ [i]" if "branches n i = Some c" for i c
  proof -
    from D(3) [OF that] obtain cn where cn: "nodes s c = Some cn" "parent cn = Some a" "br_own cn = i"
      "qlen n < qlen cn" "take (Suc (qlen n)) (pth c) = pth a @ [i]"
      by blast
    from ch [OF that cn(1)] cn chp [OF that] pa show ?thesis by auto
  qed
  show "\<exists>p pn. parent n = Some p \<and> nodes s' p = Some pn \<and> branches pn (br_own n) = Some a"
    if "a \<noteq> m_root"
  proof -
    from D(4) [OF that] obtain p pn where p: "parent n = Some p" "nodes s p = Some pn"
      "branches pn (br_own n) = Some a"
      by blast
    from par [OF p(1,2) that] p show ?thesis by auto
  qed
  show "br_1st n < br_last n" if "a \<noteq> m_root" "a \<notin> X'" "item n = None"
    using D(5) that X by blast
  show "key n = Some h \<and> m_items s' h \<noteq> None" if "item n = Some h" for h
    using D(6) [OF that] it [OF that] by simp
  show "h < items_next s'" if "key n = Some h" for h using D(7) [OF that] nx by simp
  show "length (pth' a) = qlen n" using D(8) pa by simp
  show "x < 16" if "x \<in> set (pth' a)" for x using D(9) that pa by simp
  show "qlen n \<le> 2 * length (fst e) \<and> take (qlen n) (nibbles (fst e)) = pth' a"
    if "key n = Some h" "m_items s' h = Some e" for h e
    using D(10) [OF that(1) ky [OF that]] pa by simp
qed

lemma br_okI_nonleaf:
  "\<not> is_leaf n \<Longrightarrow> (\<And>i c. branches n i = Some c \<Longrightarrow> i < 16) \<Longrightarrow>
   branches n (br_1st n) \<noteq> None \<Longrightarrow> branches n (br_last n) \<noteq> None \<Longrightarrow>
   (\<And>i. branches n i \<noteq> None \<Longrightarrow> br_1st n \<le> i \<and> i \<le> br_last n) \<Longrightarrow> br_ok n"
  unfolding br_ok_def by simp

lemma br_okI_leaf: "is_leaf n \<Longrightarrow> (\<And>i. branches n i = None) \<Longrightarrow> br_ok n"
  unfolding br_ok_def by simp

lemma br_ok_leafD: "br_ok n \<Longrightarrow> is_leaf n \<Longrightarrow> branches n i = None"
  unfolding br_ok_def by simp

lemma br_ok_nonleafD:
  assumes "br_ok n" "\<not> is_leaf n"
  shows "branches n (br_1st n) \<noteq> None" "branches n (br_last n) \<noteq> None"
    "\<And>i. branches n i \<noteq> None \<Longrightarrow> br_1st n \<le> i \<and> i \<le> br_last n"
  using assms unfolding br_ok_def by simp_all

lemma br_ok_lt: "br_ok n \<Longrightarrow> branches n i = Some c \<Longrightarrow> i < 16"
  unfolding br_ok_def by blast

lemma br_ok_extend:
  assumes "br_ok n" "bi < 16" "branches n bi = None"
  shows "br_ok ((br_extend bi n)\<lparr>branches := (branches n)(bi := Some c)\<rparr>)"
    and "\<not> is_leaf n \<Longrightarrow> br_1st (br_extend bi n) = min bi (br_1st n) \<and> br_last (br_extend bi n) = max bi (br_last n)"
    and "is_leaf n \<Longrightarrow> br_1st (br_extend bi n) = bi \<and> br_last (br_extend bi n) = bi"
    and "br_own (br_extend bi n) = br_own n"
    and "item (br_extend bi n) = item n" "key (br_extend bi n) = key n" "qlen (br_extend bi n) = qlen n"
      "parent (br_extend bi n) = parent n" "branches (br_extend bi n) = branches n"
proof -
  show l: "is_leaf n \<Longrightarrow> br_1st (br_extend bi n) = bi \<and> br_last (br_extend bi n) = bi"
    using assms by (simp add: br_extend_def)
  show nl: "\<not> is_leaf n \<Longrightarrow> br_1st (br_extend bi n) = min bi (br_1st n) \<and> br_last (br_extend bi n) = max bi (br_last n)"
    using assms by (auto simp: br_extend_def Let_def is_leaf_def)
  show "br_own (br_extend bi n) = br_own n"
    using assms by (auto simp: br_extend_def Let_def)
  show "item (br_extend bi n) = item n" "key (br_extend bi n) = key n" "qlen (br_extend bi n) = qlen n"
      "parent (br_extend bi n) = parent n" "branches (br_extend bi n) = branches n"
    by (auto simp: br_extend_def Let_def)
  show "br_ok ((br_extend bi n)\<lparr>branches := (branches n)(bi := Some c)\<rparr>)"
  proof (cases "is_leaf n")
    case True
    let ?n = "(br_extend bi n)\<lparr>branches := (branches n)(bi := Some c)\<rparr>"
    from True l have f: "br_1st ?n = bi" "br_last ?n = bi" by simp_all
    from True assms(1) have o: "\<And>i. branches n i = None" by (simp add: br_ok_leafD)
    have nl': "\<not> is_leaf ?n" using f by (simp add: is_leaf_def)
    have 1: "branches ?n (br_1st ?n) \<noteq> None" using f by simp
    have 2: "branches ?n (br_last ?n) \<noteq> None" using f by simp
    have 3: "br_1st ?n \<le> i \<and> i \<le> br_last ?n" if "branches ?n i \<noteq> None" for i
      using that f o by (cases "i = bi") simp_all
    have 4: "i < 16" if "branches ?n i = Some c'" for i c'
      using that o assms(2) by (cases "i = bi") simp_all
    show ?thesis by (rule br_okI_nonleaf [OF nl' 4 1 2 3])
  next
    case False
    let ?n = "(br_extend bi n)\<lparr>branches := (branches n)(bi := Some c)\<rparr>"
    from False nl have f: "br_1st ?n = min bi (br_1st n)" "br_last ?n = max bi (br_last n)"
      by simp_all
    from False assms(1) have o: "branches n (br_1st n) \<noteq> None" "branches n (br_last n) \<noteq> None"
      "\<And>i. branches n i \<noteq> None \<Longrightarrow> br_1st n \<le> i \<and> i \<le> br_last n"
      "\<And>i c. branches n i = Some c \<Longrightarrow> i < 16"
      by (simp_all add: br_ok_def)
    have nl': "\<not> is_leaf ?n" using f by (simp add: is_leaf_def)
    have 1: "branches ?n (br_1st ?n) \<noteq> None" using f o(1) by (simp add: min_def)
    have 2: "branches ?n (br_last ?n) \<noteq> None" using f o(2) by (simp add: max_def)
    have 3: "br_1st ?n \<le> i \<and> i \<le> br_last ?n" if "branches ?n i \<noteq> None" for i
    proof (cases "i = bi")
      case True then show ?thesis using f by simp
    next
      case False
      with that have "branches n i \<noteq> None" by simp
      from o(3) [OF this] f show ?thesis by (simp add: min_le_iff_disj le_max_iff_disj)
    qed
    have 4: "i < 16" if "branches ?n i = Some c'" for i c'
      using that o(4) [of i c'] assms(2) by (cases "i = bi") simp_all
    show ?thesis by (rule br_okI_nonleaf [OF nl' 4 1 2 3])
  qed
qed

subsection \<open>Changing a few nodes\<close>

lemma wfpD:
  assumes "trie_inv X s pth"
  shows "\<exists>r. nodes s m_root = Some r \<and> qlen r = 0 \<and> parent r = None"
    and "\<And>a n. nodes s a = Some n \<Longrightarrow> node_ok X s pth a n"
    and "\<And>a b n m h. nodes s a = Some n \<Longrightarrow> nodes s b = Some m \<Longrightarrow> item n = Some h \<Longrightarrow>
           item m = Some h \<Longrightarrow> a = b"
    and "\<And>h e. m_items s h = Some e \<Longrightarrow> h < items_next s"
  using assms unfolding trie_inv_def by blast+

lemma take_Suc_nibbles:
  "q < length xs \<Longrightarrow> take q xs = p \<Longrightarrow> take (Suc q) xs = p @ [xs ! q]"
  by (auto simp: take_Suc_conv_app_nth)

lemma child_distinct:
  assumes "node_ok X s pth a n" "branches n i = Some c"
  shows "c \<noteq> a"
proof
  assume "c = a"
  with node_okD(3) [OF assms] obtain cn where "nodes s a = Some cn" "parent cn = Some a" "qlen n < qlen cn"
    "take (Suc (qlen n)) (pth a) = pth a @ [i]" by blast
  then have "length (take (Suc (qlen n)) (pth a)) = Suc (length (pth a))" by simp
  then show False by simp
qed

lemma insert_leaf_wfp:
  assumes wf: "trie_inv X s pth"
    and n: "nodes s nod = Some n"
    and free: "branches n bi = None"
    and k: "qlen n < 2 * length k" "take (qlen n) (nibbles k) = pth nod" "bi = nibbles k ! qlen n"
    and s': "nodes s' = (nodes s)(nod \<mapsto> (br_extend bi n)\<lparr>branches := (branches n)(bi := Some (nodes_next s))\<rparr>,
               nodes_next s \<mapsto> (new_node None None (2 * length k) (Some nod) bi 1 0)\<lparr>key := Some (items_next s), item := Some (items_next s)\<rparr>)"
      "nodes_next s' = Suc (nodes_next s)"
      "m_items s' = (m_items s)(items_next s \<mapsto> (k, v))"
      "items_next s' = Suc (items_next s)"
  shows "trie_inv X s' (pth(nodes_next s := nibbles k))"
proof (rule wfpI)
  let ?L = "nodes_next s" and ?h = "items_next s"
  let ?n' = "(br_extend bi n)\<lparr>branches := (branches n)(bi := Some ?L)\<rparr>"
  let ?l' = "(new_node None None (2 * length k) (Some nod) bi 1 0)\<lparr>key := Some ?h, item := Some ?h\<rparr>"
  let ?pth' = "pth(?L := nibbles k)"
  note W = wfpD [OF wf]
  note N = node_okD [OF W(2) [OF n]]
  have fr: "nodes s ?L = None" by (rule wfp_fresh [OF wf])
  have ifr: "m_items s ?h = None" by (rule wfp_item_fresh [OF wf])
  have nL: "nod \<noteq> ?L" using n fr by auto
  have bi: "bi < 16" using k nibbles_lt [of bi k] by (simp add: nth_mem)
  note E = br_ok_extend [OF N(2) bi free]
  have unch: "nodes s' a = nodes s a" if "a \<noteq> nod" "a \<noteq> ?L" for a using that s'(1) by simp
  have at_nod: "nodes s' nod = Some ?n'" using s'(1) nL by simp
  have at_L: "nodes s' ?L = Some ?l'" using s'(1) by simp
  have alloc: "a \<noteq> ?L" if "nodes s a = Some m" for a m using that fr by auto
  have pth_other: "?pth' a = pth a" if "nodes s a = Some m" for a m using alloc [OF that] by simp
  have items_old: "m_items s' x = m_items s x" if "x < ?h" for x using that s'(3) by simp
  show "\<exists>r. nodes s' m_root = Some r \<and> qlen r = 0 \<and> parent r = None"
  proof (cases "m_root = nod")
    case True
    with W(1) n at_nod E show ?thesis by auto
  next
    case False
    from W(1) obtain r where r: "nodes s m_root = Some r" "qlen r = 0" "parent r = None" by blast
    with unch [OF False alloc [OF r(1)]] show ?thesis by simp
  qed
  show "node_ok X s' ?pth' a m" if am: "nodes s' a = Some m" for a m
  proof -
    consider (L) "a = ?L" | (nod) "a = nod" | (other) "a \<noteq> ?L" "a \<noteq> nod" by blast
    then show ?thesis
    proof cases
      case L
      with am at_L have m: "m = ?l'" by simp
      show ?thesis unfolding m L
      proof (rule node_okI)
        show "?L < nodes_next s'" using s'(2) by simp
        show "br_ok ?l'" by (rule br_okI_leaf) (simp_all add: bi is_leaf_def)
        show "?L \<noteq> m_root \<Longrightarrow> \<exists>p pn. parent ?l' = Some p \<and> nodes s' p = Some pn \<and> branches pn (br_own ?l') = Some ?L"
          using at_nod bi by simp
        show "\<And>h. item ?l' = Some h \<Longrightarrow> key ?l' = Some h \<and> m_items s' h \<noteq> None"
          using s'(3) by simp
        show "\<And>h. key ?l' = Some h \<Longrightarrow> h < items_next s'" using s'(4) by simp
        show "length (?pth' ?L) = qlen ?l'" by simp
        show "\<And>x. x \<in> set (?pth' ?L) \<Longrightarrow> x < 16" by (simp add: nibbles_lt)
        show "\<And>h e. key ?l' = Some h \<Longrightarrow> m_items s' h = Some e \<Longrightarrow>
           qlen ?l' \<le> 2 * length (fst e) \<and> take (qlen ?l') (nibbles (fst e)) = ?pth' ?L"
          using s'(3) by auto
      qed simp_all
    next
      case nod
      with am at_nod have m: "m = ?n'" by simp
      show ?thesis unfolding m nod
      proof (rule node_okI)
        show "nod < nodes_next s'" using N(1) s'(2) by simp
        show "br_ok ?n'" by (rule E(1))
        show "\<exists>cn. nodes s' c = Some cn \<and> parent cn = Some nod \<and> br_own cn = i \<and> qlen ?n' < qlen cn \<and>
                take (Suc (qlen ?n')) (?pth' c) = ?pth' nod @ [i]" if "branches ?n' i = Some c" for i c
        proof (cases "i = bi")
          case True
          with that have c: "c = ?L" by simp
          have "take (Suc (qlen n)) (nibbles k) = pth nod @ [bi]"
            using k by (simp add: take_Suc_nibbles)
          then show ?thesis using c at_L True bi E k nL by simp
        next
          case False
          with that have b: "branches n i = Some c" by simp
          from N(3) [OF b] obtain cn where cn: "nodes s c = Some cn" "parent cn = Some nod" "br_own cn = i"
            "qlen n < qlen cn" "take (Suc (qlen n)) (pth c) = pth nod @ [i]" by blast
          have "c \<noteq> nod" using child_distinct [OF W(2) [OF n] b] .
          with unch [OF this alloc [OF cn(1)]] cn pth_other [OF cn(1)] pth_other [OF n] E
          show ?thesis by simp
        qed
        show "\<exists>p pn. parent ?n' = Some p \<and> nodes s' p = Some pn \<and> branches pn (br_own ?n') = Some nod"
          if "nod \<noteq> m_root"
        proof -
          from N(4) [OF that] obtain p pn where p: "parent n = Some p" "nodes s p = Some pn"
            "branches pn (br_own n) = Some nod" by blast
          have "nod \<noteq> p" using child_distinct [OF W(2) [OF p(2)] p(3)] .
          with unch [of p] alloc [OF p(2)] p E show ?thesis by simp
        qed
        show "br_1st ?n' < br_last ?n'" if "nod \<noteq> m_root" "nod \<notin> X" "item ?n' = None"
        proof -
          from that E have "br_1st n < br_last n" using N(5) by simp
          moreover from this have "\<not> is_leaf n" by (simp add: is_leaf_def)
          ultimately show ?thesis using E(2) by simp
        qed
        show "key ?n' = Some h \<and> m_items s' h \<noteq> None" if "item ?n' = Some h" for h
        proof -
          from that E have "item n = Some h" by simp
          from N(6) [OF this] N(7) [of h] items_old [of h] E show ?thesis by simp
        qed
        show "h < items_next s'" if "key ?n' = Some h" for h
          using that E N(7) [of h] s'(4) by simp
        show "length (?pth' nod) = qlen ?n'" using N(8) nL E by simp
        show "x < 16" if "x \<in> set (?pth' nod)" for x using that N(9) nL by simp
        show "qlen ?n' \<le> 2 * length (fst e) \<and> take (qlen ?n') (nibbles (fst e)) = ?pth' nod"
          if "key ?n' = Some h" "m_items s' h = Some e" for h e
        proof -
          from that E have kh: "key n = Some h" by simp
          from N(7) [OF kh] that(2) items_old have "m_items s h = Some e" by simp
          from N(10) [OF kh this] E nL show ?thesis by simp
        qed
      qed
    next
      case other
      with am unch [of a] have am0: "nodes s a = Some m" by simp
      note M = node_okD [OF W(2) [OF am0]]
      show ?thesis
      proof (rule node_ok_frame [OF W(2) [OF am0]])
        show "\<exists>cn'. nodes s' c = Some cn' \<and> parent cn' = parent cn \<and> br_own cn' = br_own cn \<and> qlen cn' = qlen cn"
          if "branches m i = Some c" "nodes s c = Some cn" for i c cn
        proof (cases "c = nod")
          case True
          with that n at_nod E show ?thesis by simp
        next
          case False
          with unch [OF this alloc [OF that(2)]] that show ?thesis by simp
        qed
        show "?pth' c = pth c" if "branches m i = Some c" for i c
        proof -
          from M(3) [OF that] obtain cn where "nodes s c = Some cn" by blast
          then show ?thesis by (rule pth_other)
        qed
        show "\<exists>pn'. nodes s' p = Some pn' \<and> branches pn' (br_own m) = branches pn (br_own m)"
          if "parent m = Some p" "nodes s p = Some pn" "a \<noteq> m_root" for p pn
        proof (cases "p = nod")
          case True
          from M(4) [OF that(3)] that(1,2) have "branches pn (br_own m) = Some a" by auto
          with True n that(2) free have "br_own m \<noteq> bi" by auto
          with True n that(2) at_nod show ?thesis by simp
        next
          case False
          with unch [OF this alloc [OF that(2)]] that show ?thesis by simp
        qed
        show "?pth' a = pth a" using other alloc [OF am0] by simp
        show "m_items s' h \<noteq> None" if "item m = Some h" "m_items s h \<noteq> None" for h
          using that s'(3) by simp
        show "m_items s h = Some e" if "key m = Some h" "m_items s' h = Some e" for h e
          using M(7) [OF that(1)] that(2) items_old by simp
        show "nodes_next s \<le> nodes_next s'" "items_next s \<le> items_next s'" using s' by simp_all
      qed simp
    qed
  qed
  show "a = b" if "nodes s' a = Some m1" "nodes s' b = Some m2" "item m1 = Some h" "item m2 = Some h"
    for a b m1 m2 h
  proof -
    have old: "\<exists>m'. nodes s x = Some m' \<and> item m' = Some h'" "h' < ?h"
      if "nodes s' x = Some m" "item m = Some h'" "x \<noteq> ?L" for x m h'
    proof -
      show e: "\<exists>m'. nodes s x = Some m' \<and> item m' = Some h'"
      proof (cases "x = nod")
        case True with that at_nod n E show ?thesis by auto
      next
        case False with that unch [of x] show ?thesis by auto
      qed
      then obtain m' where m': "nodes s x = Some m'" "item m' = Some h'" by blast
      from node_okD(6) [OF W(2) [OF m'(1)] m'(2)] node_okD(7) [OF W(2) [OF m'(1)]]
      show "h' < ?h" by simp
    qed
    show ?thesis
    proof (cases "a = ?L")
      case aL: True
      show ?thesis
      proof (cases "b = ?L")
        case True with aL show ?thesis by simp
      next
        case False
        from old(2) [OF that(2,4) False] aL that(1,3) at_L show ?thesis by auto
      qed
    next
      case aL: False
      show ?thesis
      proof (cases "b = ?L")
        case True
        from old(2) [OF that(1,3) aL] True that(2,4) at_L show ?thesis by auto
      next
        case False
        from old(1) [OF that(1,3) aL] old(1) [OF that(2,4) False] W(3) show ?thesis by blast
      qed
    qed
  qed
  show "h < items_next s'" if "m_items s' h = Some e" for h e
    using that s'(3,4) W(4) [of h e] by (cases "h = ?h") simp_all
qed

lemma wfp_step:
  assumes wf: "trie_inv X s pth"
    and root: "\<exists>r. nodes s' m_root = Some r \<and> qlen r = 0 \<and> parent r = None"
    and unch: "\<And>a. a \<notin> C \<Longrightarrow> nodes s' a = nodes s a \<and> pth' a = pth a"
    and chg: "\<And>a m. a \<in> C \<Longrightarrow> nodes s' a = Some m \<Longrightarrow> node_ok X' s' pth' a m"
    and seen_child: "\<And>c cn p. c \<in> C \<Longrightarrow> nodes s c = Some cn \<Longrightarrow> parent cn = Some p \<Longrightarrow> p \<notin> C \<Longrightarrow>
        \<exists>cn'. nodes s' c = Some cn' \<and> parent cn' = parent cn \<and> br_own cn' = br_own cn \<and>
              qlen cn' = qlen cn \<and> pth' c = pth c"
    and seen_parent: "\<And>p pn i c. p \<in> C \<Longrightarrow> nodes s p = Some pn \<Longrightarrow> branches pn i = Some c \<Longrightarrow>
        c \<notin> C \<Longrightarrow> \<exists>pn'. nodes s' p = Some pn' \<and> branches pn' i = Some c"
    and items_old: "\<And>h e. h < items_next s \<Longrightarrow> m_items s' h = Some e \<Longrightarrow> m_items s h = Some e"
    and items_kept: "\<And>a m h. a \<notin> C \<Longrightarrow> nodes s a = Some m \<Longrightarrow> item m = Some h \<Longrightarrow>
        m_items s' h \<noteq> None"
    and items_lt: "\<And>h e. m_items s' h = Some e \<Longrightarrow> h < items_next s'"
    and nx: "nodes_next s \<le> nodes_next s'" "items_next s \<le> items_next s'"
    and inj: "\<And>a m h b m'. a \<in> C \<Longrightarrow> nodes s' a = Some m \<Longrightarrow> item m = Some h \<Longrightarrow>
        nodes s' b = Some m' \<Longrightarrow> item m' = Some h \<Longrightarrow> a = b"
    and X: "\<And>a. a \<notin> C \<Longrightarrow> a \<in> X \<Longrightarrow> a \<in> X'"
  shows "trie_inv X' s' pth'"
proof (rule wfpI)
  note W = wfpD [OF wf]
  show "\<exists>r. nodes s' m_root = Some r \<and> qlen r = 0 \<and> parent r = None" by (rule root)
  show "node_ok X' s' pth' a m" if am: "nodes s' a = Some m" for a m
  proof (cases "a \<in> C")
    case True
    then show ?thesis using am by (rule chg)
  next
    case False
    with unch [OF False] am have am0: "nodes s a = Some m" by simp
    note M = node_okD [OF W(2) [OF am0]]
    show ?thesis
    proof (rule node_ok_frame [OF W(2) [OF am0]])
      show "\<exists>cn'. nodes s' c = Some cn' \<and> parent cn' = parent cn \<and> br_own cn' = br_own cn \<and> qlen cn' = qlen cn"
        if "branches m i = Some c" "nodes s c = Some cn" for i c cn
      proof (cases "c \<in> C")
        case True
        from M(3) [OF that(1)] that(2) have "parent cn = Some a" by auto
        from seen_child [OF True that(2) this False] show ?thesis by blast
      next
        case False
        with unch [OF False] that show ?thesis by simp
      qed
      show "pth' c = pth c" if "branches m i = Some c" for i c
      proof (cases "c \<in> C")
        case True
        from M(3) [OF that(1)] obtain cn where "nodes s c = Some cn" "parent cn = Some a" by auto
        from seen_child [OF True this False] show ?thesis by blast
      next
        case False
        with unch [OF False] show ?thesis by simp
      qed
      show "\<exists>pn'. nodes s' p = Some pn' \<and> branches pn' (br_own m) = branches pn (br_own m)"
        if "parent m = Some p" "nodes s p = Some pn" "a \<noteq> m_root" for p pn
      proof (cases "p \<in> C")
        case True
        from M(4) [OF that(3)] that(1,2) have b: "branches pn (br_own m) = Some a" by auto
        from seen_parent [OF True that(2) b False] b show ?thesis by auto
      next
        case False
        with unch [OF False] that show ?thesis by simp
      qed
      show "pth' a = pth a" using unch [OF False] by simp
      show "m_items s' h \<noteq> None" if "item m = Some h" "m_items s h \<noteq> None" for h
        using items_kept [OF False am0 that(1)] .
      show "m_items s h = Some e" if "key m = Some h" "m_items s' h = Some e" for h e
        using items_old [OF M(7) [OF that(1)] that(2)] .
      show "nodes_next s \<le> nodes_next s'" "items_next s \<le> items_next s'" by (rule nx)+
      show "a \<in> X \<Longrightarrow> a \<in> X'" using X [OF False] .
    qed
  qed
  show "a = b" if "nodes s' a = Some m1" "nodes s' b = Some m2" "item m1 = Some h" "item m2 = Some h"
    for a b m1 m2 h
  proof (cases "a \<in> C")
    case True
    from inj [OF True that(1,3,2,4)] show ?thesis .
  next
    case aC: False
    show ?thesis
    proof (cases "b \<in> C")
      case True
      from inj [OF True that(2,4,1,3)] show ?thesis by simp
    next
      case False
      with aC unch that have "nodes s a = Some m1" "nodes s b = Some m2" by simp_all
      from W(3) [OF this that(3,4)] show ?thesis .
    qed
  qed
  show "h < items_next s'" if "m_items s' h = Some e" for h e using items_lt [OF that] .
qed

lemma wfp_shrink:
  assumes "trie_inv X s pth"
    and "\<And>a m. a \<in> X \<Longrightarrow> a \<notin> Y \<Longrightarrow> nodes s a = Some m \<Longrightarrow> a \<noteq> m_root \<Longrightarrow> item m = None \<Longrightarrow>
           br_1st m < br_last m"
  shows "trie_inv Y s pth"
proof (rule wfpI)
  note W = wfpD [OF assms(1)]
  show "\<exists>r. nodes s m_root = Some r \<and> qlen r = 0 \<and> parent r = None" by (rule W(1))
  show "node_ok Y s pth a m" if am: "nodes s a = Some m" for a m
  proof -
    note M = node_okD [OF W(2) [OF am]]
    show ?thesis
    proof (rule node_okI)
      show "br_1st m < br_last m" if "a \<noteq> m_root" "a \<notin> Y" "item m = None"
        using M(5) [OF that(1) _ that(3)] assms(2) [OF _ that(2) am that(1,3)] by blast
    qed (use M in blast)+
  qed
  show "\<And>a b n m h. nodes s a = Some n \<Longrightarrow> nodes s b = Some m \<Longrightarrow> item n = Some h \<Longrightarrow>
           item m = Some h \<Longrightarrow> a = b" by (rule W(3))
  show "\<And>h e. m_items s h = Some e \<Longrightarrow> h < items_next s" by (rule W(4))
qed

subsection \<open>Installing an item and splitting an edge\<close>

lemma wfp_alloc_lt: "trie_inv X s pth \<Longrightarrow> nodes s a = Some m \<Longrightarrow> a < nodes_next s"
  using node_okD(1) wfpD(2) by blast

lemma wfp_item_lt:
  assumes "trie_inv X s pth" "nodes s a = Some m" "item m = Some h"
  shows "h < items_next s" "m_items s h \<noteq> None" "key m = Some h"
  using node_okD(6) [OF wfpD(2) [OF assms(1,2)] assms(3)] node_okD(7) [OF wfpD(2) [OF assms(1,2)], of h]
  by simp_all

lemma set_item_wfp:
  assumes wf: "trie_inv X s pth"
    and a: "nodes s a = Some m"
    and fit: "qlen m \<le> 2 * length k" "take (qlen m) (nibbles k) = pth a"
    and s': "nodes s' = (nodes s)(a \<mapsto> m\<lparr>key := Some (items_next s), item := Some (items_next s)\<rparr>)"
      "nodes_next s' = nodes_next s"
      "m_items s' = (m_items s)(items_next s \<mapsto> (k, v))"
      "items_next s' = Suc (items_next s)"
  shows "trie_inv (X - {a}) s' pth"
proof (rule wfp_step [OF wf, where C = "{a}"])
  let ?h = "items_next s"
  let ?m' = "m\<lparr>key := Some ?h, item := Some ?h\<rparr>"
  note W = wfpD [OF wf]
  note M = node_okD [OF W(2) [OF a]]
  have ifr: "m_items s ?h = None" by (rule wfp_item_fresh [OF wf])
  have at_a: "nodes s' a = Some ?m'" using s'(1) by simp
  have unch: "nodes s' b = nodes s b" if "b \<noteq> a" for b using that s'(1) by simp
  show "\<exists>r. nodes s' m_root = Some r \<and> qlen r = 0 \<and> parent r = None"
    using W(1) a at_a unch [of m_root] by (cases "m_root = a") auto
  show "nodes s' b = nodes s b \<and> pth b = pth b" if "b \<notin> {a}" for b using that unch by simp
  show "node_ok (X - {a}) s' pth b mb" if "b \<in> {a}" "nodes s' b = Some mb" for b mb
  proof -
    from that at_a have b: "b = a" "mb = ?m'" by simp_all
    show ?thesis unfolding b
    proof (rule node_okI)
      show "a < nodes_next s'" using M(1) s'(2) by simp
      show "br_ok ?m'" using M(2) by (simp add: br_ok_def)
      show "\<exists>cn. nodes s' c = Some cn \<and> parent cn = Some a \<and> br_own cn = i \<and> qlen ?m' < qlen cn \<and>
              take (Suc (qlen ?m')) (pth c) = pth a @ [i]" if "branches ?m' i = Some c" for i c
      proof -
        from that have b: "branches m i = Some c" by simp
        from child_distinct [OF W(2) [OF a] b] M(3) [OF b] unch [of c] show ?thesis by simp
      qed
      show "\<exists>p pn. parent ?m' = Some p \<and> nodes s' p = Some pn \<and> branches pn (br_own ?m') = Some a"
        if "a \<noteq> m_root"
      proof -
        from M(4) [OF that] obtain p pn where p: "parent m = Some p" "nodes s p = Some pn"
          "branches pn (br_own m) = Some a" by blast
        from child_distinct [OF W(2) [OF p(2)] p(3)] p unch [of p] show ?thesis by simp
      qed
      show "key ?m' = Some h \<and> m_items s' h \<noteq> None" if "item ?m' = Some h" for h
        using that s'(3) by auto
      show "h < items_next s'" if "key ?m' = Some h" for h using that s'(4) by auto
      show "length (pth a) = qlen ?m'" using M(8) by simp
      show "x < 16" if "x \<in> set (pth a)" for x using M(9) that by simp
      show "qlen ?m' \<le> 2 * length (fst e) \<and> take (qlen ?m') (nibbles (fst e)) = pth a"
        if "key ?m' = Some h" "m_items s' h = Some e" for h e
        using that s'(3) fit by auto
    qed simp_all
  qed
  show "\<exists>cn'. nodes s' c = Some cn' \<and> parent cn' = parent cn \<and> br_own cn' = br_own cn \<and>
              qlen cn' = qlen cn \<and> pth c = pth c"
    if "c \<in> {a}" "nodes s c = Some cn" for c cn
    using that a at_a by simp
  show "\<exists>pn'. nodes s' p = Some pn' \<and> branches pn' i = Some c"
    if "p \<in> {a}" "nodes s p = Some pn" "branches pn i = Some c" for p pn i c
    using that a at_a by simp
  show "m_items s h = Some e" if "h < items_next s" "m_items s' h = Some e" for h e
    using that s'(3) by simp
  show "m_items s' h \<noteq> None" if "nodes s b = Some mb" "item mb = Some h" for b mb h
    using wfp_item_lt(2) [OF wf that] s'(3) by simp
  show "h < items_next s'" if "m_items s' h = Some e" for h e
    using that s'(3,4) W(4) [of h e] by (cases "h = ?h") simp_all
  show "nodes_next s \<le> nodes_next s'" "items_next s \<le> items_next s'" using s' by simp_all
  show "b = c" if "b \<in> {a}" "nodes s' b = Some mb" "item mb = Some h" "nodes s' c = Some mc"
    "item mc = Some h" for b mb h c mc
  proof (rule ccontr)
    assume ne: "b \<noteq> c"
    from that(1,2,3) at_a have h: "h = ?h" "b = a" by auto
    with ne that(4) unch [of c] have "nodes s c = Some mc" by simp
    from wfp_item_lt(1) [OF wf this that(5)] h show False by simp
  qed
  show "b \<in> X - {a}" if "b \<notin> {a}" "b \<in> X" for b using that by simp
qed

lemma split_wfp:
  assumes wf: "trie_inv X s pth"
    and n: "nodes s nod = Some n"
    and br: "branches n bi = Some br" "nodes s br = Some bn"
    and q: "qlen n < q" "q < qlen bn"
    and ci: "ci = pth br ! q"
    and s': "nodes s' = (nodes s)(nodes_next s \<mapsto>
                 (new_node None (key bn) q (Some nod) bi ci ci)\<lparr>branches := (\<lambda>_. None)(ci := Some br)\<rparr>,
               nod \<mapsto> n\<lparr>branches := (branches n)(bi := Some (nodes_next s))\<rparr>,
               br \<mapsto> (set_br_own ci bn)\<lparr>parent := Some (nodes_next s)\<rparr>)"
      "nodes_next s' = Suc (nodes_next s)"
      "m_items s' = m_items s"
      "items_next s' = items_next s"
  shows "trie_inv (insert (nodes_next s) X) s' (pth(nodes_next s := take q (pth br)))"
proof (rule wfp_step [OF wf, where C = "{nodes_next s, nod, br}"])
  let ?I = "nodes_next s"
  let ?i' = "(new_node None (key bn) q (Some nod) bi ci ci)\<lparr>branches := (\<lambda>_. None)(ci := Some br)\<rparr>"
  let ?n' = "n\<lparr>branches := (branches n)(bi := Some ?I)\<rparr>"
  let ?b' = "(set_br_own ci bn)\<lparr>parent := Some ?I\<rparr>"
  let ?pth' = "pth(?I := take q (pth br))"
  let ?X' = "insert ?I X"
  note W = wfpD [OF wf]
  note N = node_okD [OF W(2) [OF n]]
  note B = node_okD [OF W(2) [OF br(2)]]
  have fr: "nodes s ?I = None" by (rule wfp_fresh [OF wf])
  have nI: "nod \<noteq> ?I" "br \<noteq> ?I" using n br fr by auto
  have nb: "br \<noteq> nod" using child_distinct [OF W(2) [OF n] br(1)] .
  from N(3) [OF br(1)] br(2) have bl: "parent bn = Some nod" "br_own bn = bi" "qlen n < qlen bn"
    "take (Suc (qlen n)) (pth br) = pth nod @ [bi]" by auto
  have bi: "bi < 16" using br_ok_lt [OF N(2) br(1)] .
  have ci': "ci < 16" using ci B(8,9) q by (simp add: nth_mem)
  have at_I: "nodes s' ?I = Some ?i'" using s'(1) nI nb by simp
  have at_nod: "nodes s' nod = Some ?n'" using s'(1) nI nb by simp
  have at_br: "nodes s' br = Some ?b'" using s'(1) nI nb by simp
  have unch: "nodes s' a = nodes s a" if "a \<noteq> ?I" "a \<noteq> nod" "a \<noteq> br" for a
    using that s'(1) by simp
  have alloc: "a \<noteq> ?I" if "nodes s a = Some m" for a m using that fr by auto
  show "\<exists>r. nodes s' m_root = Some r \<and> qlen r = 0 \<and> parent r = None"
  proof -
    from W(1) obtain r where r: "nodes s m_root = Some r" "qlen r = 0" "parent r = None" by blast
    have "m_root \<noteq> br" using r bl br(2) by auto
    with r alloc [OF r(1)] unch [of m_root] at_nod n show ?thesis by (cases "m_root = nod") auto
  qed
  show "nodes s' a = nodes s a \<and> ?pth' a = pth a" if "a \<notin> {?I, nod, br}" for a
    using that unch by simp
  show "node_ok ?X' s' ?pth' a m" if aC: "a \<in> {?I, nod, br}" and "nodes s' a = Some m" for a m
  proof -
    consider (cI) "a = ?I" | (cnod) "a = nod" | (cbr) "a = br" using aC by blast
    then show ?thesis
    proof cases
      case cI
      with that at_I have m: "m = ?i'" by simp
      show ?thesis unfolding m cI
      proof (rule node_okI)
        show "?I < nodes_next s'" using s'(2) by simp
        show "br_ok ?i'"
          by (rule br_okI_nonleaf) (simp_all add: is_leaf_def bi ci' split: if_splits)
        show "\<exists>cn. nodes s' c = Some cn \<and> parent cn = Some ?I \<and> br_own cn = i \<and> qlen ?i' < qlen cn \<and>
              take (Suc (qlen ?i')) (?pth' c) = ?pth' ?I @ [i]" if "branches ?i' i = Some c" for i c
        proof -
          from that have ic: "i = ci" "c = br" by (simp_all split: if_splits)
          have "take (Suc q) (pth br) = take q (pth br) @ [ci]"
            using ci q B(8) by (simp add: take_Suc_conv_app_nth)
          then show ?thesis unfolding ic using at_br nI ci' q by simp
        qed
        show "\<exists>p pn. parent ?i' = Some p \<and> nodes s' p = Some pn \<and> branches pn (br_own ?i') = Some ?I"
          using at_nod bi ci' by simp
        show "h < items_next s'" if "key ?i' = Some h" for h using that B(7) [of h] s'(4) by simp
        show "length (?pth' ?I) = qlen ?i'" using q B(8) by simp
        show "x < 16" if "x \<in> set (?pth' ?I)" for x using that B(9) [of x] by (auto dest: in_set_takeD)
        show "qlen ?i' \<le> 2 * length (fst e) \<and> take (qlen ?i') (nibbles (fst e)) = ?pth' ?I"
          if "key ?i' = Some h" "m_items s' h = Some e" for h e
        proof -
          from that s'(3) have "key bn = Some h" "m_items s h = Some e" by simp_all
          from B(10) [OF this] have "qlen bn \<le> 2 * length (fst e)" "take (qlen bn) (nibbles (fst e)) = pth br"
            by simp_all
          then have "take q (take (qlen bn) (nibbles (fst e))) = take q (pth br)" by simp
          with q \<open>qlen bn \<le> 2 * length (fst e)\<close> show ?thesis by (simp add: min_def)
        qed
      qed simp_all
    next
      case cnod
      with that at_nod have m: "m = ?n'" by simp
      show ?thesis unfolding m cnod
      proof (rule node_okI)
        show "nod < nodes_next s'" using N(1) s'(2) by simp
        show "br_ok ?n'"
        proof -
          have nl: "\<not> is_leaf n" using N(2) br(1) br_ok_leafD [of n bi] by auto
          note O = br_ok_nonleafD [OF N(2) nl]
          show ?thesis
          proof (rule br_okI_nonleaf)
            show "\<not> is_leaf ?n'" using nl by simp
            show "i < 16" if "branches ?n' i = Some c" for i c
              using that bi br_ok_lt [OF N(2), of i c] by (cases "i = bi") simp_all
            show "branches ?n' (br_1st ?n') \<noteq> None" using O(1) by simp
            show "branches ?n' (br_last ?n') \<noteq> None" using O(2) by simp
            show "br_1st ?n' \<le> i \<and> i \<le> br_last ?n'" if "branches ?n' i \<noteq> None" for i
              using that O(3) [of i] br(1) by (cases "i = bi") simp_all
          qed
        qed
        show "\<exists>cn. nodes s' c = Some cn \<and> parent cn = Some nod \<and> br_own cn = i \<and> qlen ?n' < qlen cn \<and>
              take (Suc (qlen ?n')) (?pth' c) = ?pth' nod @ [i]" if "branches ?n' i = Some c" for i c
        proof (cases "i = bi")
          case True
          with that have c: "c = ?I" by simp
          have "take (Suc (qlen n)) (take q (pth br)) = pth nod @ [bi]"
            using bl(4) q by (simp add: min_def)
          then show ?thesis unfolding c True using at_I nI bi ci' q by simp
        next
          case False
          with that have b: "branches n i = Some c" by simp
          from N(3) [OF b] obtain cn where cn: "nodes s c = Some cn" "parent cn = Some nod" "br_own cn = i"
            "qlen n < qlen cn" "take (Suc (qlen n)) (pth c) = pth nod @ [i]" by blast
          have "c \<noteq> nod" using child_distinct [OF W(2) [OF n] b] .
          moreover have "c \<noteq> br" using cn br(2) bl False by auto
          ultimately show ?thesis using unch [of c] alloc [OF cn(1)] cn nI by simp
        qed
        show "\<exists>p pn. parent ?n' = Some p \<and> nodes s' p = Some pn \<and> branches pn (br_own ?n') = Some nod"
          if "nod \<noteq> m_root"
        proof -
          from N(4) [OF that] obtain p pn where p: "parent n = Some p" "nodes s p = Some pn"
            "branches pn (br_own n) = Some nod" by blast
          have "p \<noteq> nod" using child_distinct [OF W(2) [OF p(2)] p(3)] by simp
          moreover have "p \<noteq> br"
          proof
            assume "p = br"
            with p br(2) node_okD(3) [OF W(2) [OF p(2)] p(3)] n have "qlen bn < qlen n" by auto
            with bl show False by simp
          qed
          ultimately show ?thesis using unch [of p] alloc [OF p(2)] p by simp
        qed
        show "br_1st ?n' < br_last ?n'" if "nod \<noteq> m_root" "nod \<notin> ?X'" "item ?n' = None"
          using that N(5) by simp
        show "key ?n' = Some h \<and> m_items s' h \<noteq> None" if "item ?n' = Some h" for h
          using that N(6) [of h] s'(3) by simp
        show "h < items_next s'" if "key ?n' = Some h" for h using that N(7) [of h] s'(4) by simp
        show "length (?pth' nod) = qlen ?n'" using N(8) nI by simp
        show "x < 16" if "x \<in> set (?pth' nod)" for x using that N(9) nI by simp
        show "qlen ?n' \<le> 2 * length (fst e) \<and> take (qlen ?n') (nibbles (fst e)) = ?pth' nod"
          if "key ?n' = Some h" "m_items s' h = Some e" for h e
          using that N(10) [of h e] s'(3) nI by simp
      qed
    next
      case cbr
      with that at_br have m: "m = ?b'" by simp
      show ?thesis unfolding m cbr
      proof (rule node_okI)
        show "br < nodes_next s'" using B(1) s'(2) by simp
        show "br_ok ?b'" using B(2) ci' by (simp add: br_ok_def is_leaf_def)
        show "\<exists>cn. nodes s' c = Some cn \<and> parent cn = Some br \<and> br_own cn = i \<and> qlen ?b' < qlen cn \<and>
              take (Suc (qlen ?b')) (?pth' c) = ?pth' br @ [i]" if "branches ?b' i = Some c" for i c
        proof -
          from that have b: "branches bn i = Some c" by simp
          from B(3) [OF b] obtain cn where cn: "nodes s c = Some cn" "parent cn = Some br" "br_own cn = i"
            "qlen bn < qlen cn" "take (Suc (qlen bn)) (pth c) = pth br @ [i]" by blast
          have "c \<noteq> br" using child_distinct [OF W(2) [OF br(2)] b] .
          moreover have "c \<noteq> nod" using cn n bl by auto
          ultimately show ?thesis using unch [of c] alloc [OF cn(1)] cn nI by simp
        qed
        show "\<exists>p pn. parent ?b' = Some p \<and> nodes s' p = Some pn \<and> branches pn (br_own ?b') = Some br"
          using at_I ci' by simp
        show "br_1st ?b' < br_last ?b'" if "br \<noteq> m_root" "br \<notin> ?X'" "item ?b' = None"
          using that B(5) ci' by simp
        show "key ?b' = Some h \<and> m_items s' h \<noteq> None" if "item ?b' = Some h" for h
          using that B(6) [of h] s'(3) by simp
        show "h < items_next s'" if "key ?b' = Some h" for h using that B(7) [of h] s'(4) by simp
        show "length (?pth' br) = qlen ?b'" using B(8) nI by simp
        show "x < 16" if "x \<in> set (?pth' br)" for x using that B(9) nI by simp
        show "qlen ?b' \<le> 2 * length (fst e) \<and> take (qlen ?b') (nibbles (fst e)) = ?pth' br"
          if "key ?b' = Some h" "m_items s' h = Some e" for h e
          using that B(10) [of h e] s'(3) nI by simp
      qed
    qed
  qed
  show "\<exists>cn'. nodes s' c = Some cn' \<and> parent cn' = parent cn \<and> br_own cn' = br_own cn \<and>
              qlen cn' = qlen cn \<and> ?pth' c = pth c"
    if "c \<in> {?I, nod, br}" "nodes s c = Some cn" "parent cn = Some p" "p \<notin> {?I, nod, br}" for c cn p
  proof -
    from that(2) fr have "c \<noteq> ?I" by auto
    moreover have "c \<noteq> br" using that br(2) bl by auto
    ultimately have "c = nod" using that(1) by simp
    with that n at_nod nI show ?thesis by simp
  qed
  show "\<exists>pn'. nodes s' p = Some pn' \<and> branches pn' i = Some c"
    if "p \<in> {?I, nod, br}" "nodes s p = Some pn" "branches pn i = Some c" "c \<notin> {?I, nod, br}" for p pn i c
  proof -
    from that(2) fr have "p \<noteq> ?I" by auto
    with that(1) consider "p = nod" | "p = br" by blast
    then show ?thesis
    proof cases
      case 1
      with that n br(1) have "i \<noteq> bi" by auto
      with 1 that n at_nod show ?thesis by simp
    next
      case 2
      with that br(2) at_br show ?thesis by simp
    qed
  qed
  show "m_items s h = Some e" if "m_items s' h = Some e" for h e using that s'(3) by simp
  show "m_items s' h \<noteq> None" if "nodes s a = Some m" "item m = Some h" for a m h
    using wfp_item_lt(2) [OF wf that] s'(3) by simp
  show "h < items_next s'" if "m_items s' h = Some e" for h e using that s' W(4) [of h e] by simp
  show "nodes_next s \<le> nodes_next s'" "items_next s \<le> items_next s'" using s' by simp_all
  show "a = b" if "a \<in> {?I, nod, br}" "nodes s' a = Some m" "item m = Some h" "nodes s' b = Some m'"
    "item m' = Some h" for a m h b m'
  proof -
    have old: "\<exists>m0. nodes s x = Some m0 \<and> item m0 = Some h'" if "nodes s' x = Some mx" "item mx = Some h'" for x mx h'
    proof -
      consider "x = ?I" | "x = nod" | "x = br" | "x \<noteq> ?I" "x \<noteq> nod" "x \<noteq> br" by blast
      then show ?thesis
      proof cases
        case 1 with that at_I show ?thesis by auto
      next
        case 2 with that at_nod n show ?thesis by auto
      next
        case 3 with that at_br br(2) show ?thesis by auto
      next
        case 4 with that unch [of x] show ?thesis by simp
      qed
    qed
    from old [OF that(2,3)] old [OF that(4,5)] W(3) show ?thesis by blast
  qed
  show "a \<in> ?X'" if "a \<in> X" for a using that by simp
qed

subsection \<open>What \<open>trace\<close> returns\<close>

lemma wfp_root: 
  assumes "trie_inv X s pth" "nodes s a = Some n"
  shows "a = m_root \<Longrightarrow> qlen n = 0 \<and> parent n = None"
    and "0 < qlen n \<Longrightarrow> a \<noteq> m_root" and "parent n \<noteq> None \<Longrightarrow> a \<noteq> m_root"
  using wfpD(1) [OF assms(1)] assms(2) by auto

lemma parent_edge:
  assumes wf: "trie_inv X s pth" and a: "nodes s a = Some n" and nr: "a \<noteq> m_root"
  shows "\<exists>x xn. parent n = Some x \<and> nodes s x = Some xn \<and> branches xn (br_own n) = Some a \<and>
           qlen xn < qlen n \<and> pth x = take (qlen xn) (pth a) \<and> pth a ! (qlen xn) = br_own n"
proof -
  note W = wfpD [OF wf]
  from node_okD(4) [OF W(2) [OF a] nr] obtain x xn where x: "parent n = Some x" "nodes s x = Some xn"
    "branches xn (br_own n) = Some a" by blast
  from node_okD(3) [OF W(2) [OF x(2)] x(3)] a have e: "qlen xn < qlen n"
    "take (Suc (qlen xn)) (pth a) = pth x @ [br_own n]" by auto
  have lx: "length (pth x) = qlen xn" using node_okD(8) [OF W(2) [OF x(2)]] .
  have la: "length (pth a) = qlen n" using node_okD(8) [OF W(2) [OF a]] .
  from e(2) have "take (qlen xn) (take (Suc (qlen xn)) (pth a)) = take (qlen xn) (pth x @ [br_own n])"
    by simp
  then have 1: "pth x = take (qlen xn) (pth a)" using lx by (simp add: min_def)
  from e(2) have "take (Suc (qlen xn)) (pth a) ! (qlen xn) = (pth x @ [br_own n]) ! (qlen xn)" by simp
  then have 2: "pth a ! (qlen xn) = br_own n" using lx by (simp add: nth_append)
  from x e 1 2 show ?thesis by blast
qed

lemma child_edge:
  assumes wf: "trie_inv X s pth" and a: "nodes s a = Some n" and c: "branches n i = Some c"
  shows "\<exists>cn. nodes s c = Some cn \<and> parent cn = Some a \<and> br_own cn = i \<and> qlen n < qlen cn \<and>
           pth a = take (qlen n) (pth c) \<and> pth c ! (qlen n) = i \<and> i < 16"
proof -
  note W = wfpD [OF wf]
  from node_okD(3) [OF W(2) [OF a] c] obtain cn where cn: "nodes s c = Some cn" "parent cn = Some a"
    "br_own cn = i" "qlen n < qlen cn" "take (Suc (qlen n)) (pth c) = pth a @ [i]" by blast
  have la: "length (pth a) = qlen n" using node_okD(8) [OF W(2) [OF a]] .
  from cn(5) have "take (qlen n) (take (Suc (qlen n)) (pth c)) = take (qlen n) (pth a @ [i])"
    by simp
  then have 1: "pth a = take (qlen n) (pth c)" using la by (simp add: min_def)
  from cn(5) have "take (Suc (qlen n)) (pth c) ! (qlen n) = (pth a @ [i]) ! (qlen n)" by simp
  then have 2: "pth c ! (qlen n) = i" using la by (simp add: nth_append)
  from cn 1 2 br_ok_lt [OF node_okD(2) [OF W(2) [OF a]] c] show ?thesis by blast
qed

lemma key_at_pth:
  assumes wf: "trie_inv X s pth" and a: "nodes s a = Some n" and r: "key_at s (key n) i = Inr kb"
    and i: "2 * i < qlen n"
  shows "hi kb = pth a ! (2 * i)" and "2 * i + 1 < qlen n \<Longrightarrow> lo kb = pth a ! (2 * i + 1)"
proof -
  from r obtain h e where h: "key n = Some h" "m_items s h = Some e" "i < length (fst e)" "kb = fst e ! i"
    by (auto simp: key_at_def key_bytes_def byte_at_def split: option.splits if_splits)
  from node_okD(10) [OF wfpD(2) [OF wf a] h(1,2)] have e: "qlen n \<le> 2 * length (fst e)"
    "take (qlen n) (nibbles (fst e)) = pth a" by simp_all
  from e(2) have "pth a ! (2 * i) = nibbles (fst e) ! (2 * i)" using i by (metis nth_take)
  with nibbles_nth [OF h(3)] h(4) show "hi kb = pth a ! (2 * i)" by simp
  assume "2 * i + 1 < qlen n"
  with e(2) have "pth a ! (2 * i + 1) = nibbles (fst e) ! (2 * i + 1)" by (metis nth_take)
  with nibbles_nth [OF h(3)] h(4) show "lo kb = pth a ! (2 * i + 1)" by simp
qed

lemma take_take_le: "m \<le> n \<Longrightarrow> take m (take n xs) = take m xs"
  by (simp add: min_def)

lemma take_eq_mono: "take n xs = take n ys \<Longrightarrow> m \<le> n \<Longrightarrow> take m xs = take m ys"
  by (metis take_take_le)

lemma take_eq_nth: "take n xs = take n ys \<Longrightarrow> m < n \<Longrightarrow> xs ! m = ys ! m"
  by (metis nth_take)

lemma take_Suc_eq:
  "take n xs = take n ys \<Longrightarrow> n < length xs \<Longrightarrow> n < length ys \<Longrightarrow> xs ! n = ys ! n \<Longrightarrow>
   take (Suc n) xs = take (Suc n) ys"
  by (simp add: take_Suc_conv_app_nth)

text \<open>A miss inside the edge from \<open>x\<close> to its child \<open>a\<close>.\<close>

lemma good_pos_edge:
  assumes wf: "trie_inv X s pth" and a: "nodes s a = Some n" and x: "parent n = Some x" "nodes s x = Some xn"
    and q: "qlen xn < q" "q < qlen n" "q \<le> 2 * length k"
    and tk: "take q (nibbles k) = take q (pth a)"
    and ne: "q < 2 * length k \<Longrightarrow> nibbles k ! q \<noteq> pth a ! q"
  shows "good_pos s pth k x q"
proof -
  have nr: "a \<noteq> m_root" using wfp_root(3) [OF wf a] x by simp
  from parent_edge [OF wf a nr] x have e: "branches xn (br_own n) = Some a" "qlen xn < qlen n"
    "pth x = take (qlen xn) (pth a)" "pth a ! (qlen xn) = br_own n" by auto
  have 1: "take (qlen xn) (nibbles k) = pth x" using take_eq_mono [OF tk, of "qlen xn"] q e(3) by simp
  have 2: "nibbles k ! qlen xn = br_own n" using take_eq_nth [OF tk q(1)] e(4) by simp
  show ?thesis unfolding good_pos_def using x(2) q 1 2 e(1) a tk ne by auto
qed

subsection \<open>Steps of the branching loop\<close>

lemma tb_exit:
  "2 \<le> ql \<Longrightarrow> trace_branch kt miss s k len slob i b nod ql fwd = Some (Inr (nod, ql, fwd))"
  by (subst trace_branch.simps) simp

lemma tb_miss0:
  "nodes s nod = Some n \<Longrightarrow> branches n (hi b) = None \<Longrightarrow>
   trace_branch kt miss s k len slob i b nod 0 fwd = Some (Inl (miss s k len (Some nod) (2 * i)))"
  by (subst trace_branch.simps) simp

lemma tb_miss1:
  "nodes s nod = Some n \<Longrightarrow> branches n (lo b) = None \<Longrightarrow>
   trace_branch kt miss s k len slob i b nod (Suc 0) fwd =
     (case key_at s (key n) i of Inl e \<Rightarrow> Some (Inl (Inl e))
      | Inr kb \<Rightarrow> if hi kb \<noteq> hi b then Some (Inl (miss s k len (parent n) (2 * i)))
                  else Some (Inl (miss s k len (Some nod) (2 * i + 1))))"
  by (subst trace_branch.simps) (simp add: xor_hi xor_hi' split: sum.splits)

lemma tb_step:
  "ql < 2 \<Longrightarrow> nodes s nod = Some n \<Longrightarrow> branches n (if ql \<noteq> 0 then lo b else hi b) = Some c \<Longrightarrow>
   nodes s c = Some cn \<Longrightarrow> \<not> (kt = TRIE_KEY_TRACING_SLOBBY \<and> slob \<and> is_leaf cn) \<Longrightarrow>
   trace_branch kt miss s k len slob i b nod ql fwd =
     trace_branch kt miss s k len slob i b c (size_sub (qlen cn) (2 * i)) (ql > 0)"
  by (subst trace_branch.simps) auto

lemma tb_dangling:
  "ql < 2 \<Longrightarrow> nodes s nod = Some n \<Longrightarrow> branches n (if ql \<noteq> 0 then lo b else hi b) = Some c \<Longrightarrow>
   nodes s c = None \<Longrightarrow>
   trace_branch kt miss s k len slob i b nod ql fwd = Some (Inl (Inl UseAfterFree))"
  by (subst trace_branch.simps) auto

lemma tb_slobby:
  "ql < 2 \<Longrightarrow> nodes s nod = Some n \<Longrightarrow> branches n (if ql \<noteq> 0 then lo b else hi b) = Some c \<Longrightarrow>
   nodes s c = Some cn \<Longrightarrow> kt = TRIE_KEY_TRACING_SLOBBY \<and> slob \<and> is_leaf cn \<Longrightarrow>
   trace_branch kt miss s k len slob i b nod ql fwd = Some (Inl (Inr ((Some c, 2 * len, True), s)))"
  by (subst trace_branch.simps) auto

lemma good_pos_here:
  assumes wf: "trie_inv X s pth" and a: "nodes s a = Some n"
    and q: "qlen n < 2 * length k" and tk: "take (qlen n) (nibbles k) = take (qlen n) (pth a)"
    and free: "branches n (nibbles k ! qlen n) = None"
  shows "good_pos s pth k a (qlen n)"
proof -
  have "length (pth a) = qlen n" using node_okD(8) [OF wfpD(2) [OF wf a]] .
  with tk have "take (qlen n) (nibbles k) = pth a" by simp
  then show ?thesis unfolding good_pos_def using a q free by auto
qed

lemma trace_branch_spec1:
  assumes wf: "trie_inv X s pth" and i: "i < length k" and b: "b = k ! i"
    and ns: "\<not> (kt = TRIE_KEY_TRACING_SLOBBY \<and> slob)"
    and n: "nodes s nod = Some n" "qlen n = 2 * i + ql" "take (2 * i) (nibbles k) = take (2 * i) (pth nod)"
    and ql: "1 \<le> ql"
    and ei: "edge_inv s pth k i nod n fwd"
    and run: "trace_branch kt miss s k (length k) slob i b nod ql fwd = Some res"
  shows "branch_res miss s pth k i res"
proof (cases "2 \<le> ql")
  case True
  with run have "res = Inr (nod, ql, fwd)" by (simp add: tb_exit)
  with True n ei show ?thesis by (simp add: branch_res_def branch_post_def)
next
  case False
  with ql have ql1: "ql = Suc 0" by simp
  note W = wfpD [OF wf]
  have nb: "nibbles k ! (2 * i) = hi b" "nibbles k ! (2 * i + 1) = lo b"
    using nibbles_nth [OF i] b by simp_all
  have la: "length (pth nod) = 2 * i + 1" using node_okD(8) [OF W(2) [OF n(1)]] n(2) ql1 by simp
  have nr: "nod \<noteq> m_root" using wfp_root(2) [OF wf n(1)] n(2) ql1 by simp
  from parent_edge [OF wf n(1) nr] obtain x xn where x: "parent n = Some x" "nodes s x = Some xn"
    "qlen xn < qlen n" "pth x = take (qlen xn) (pth nod)" by blast
  from ei x n(2) ql1 have fwd: "\<not> fwd" by (auto simp: edge_inv_def)
  with ei x have xq: "qlen xn < 2 * i \<or> (qlen xn = 2 * i \<and> nibbles k ! (2 * i) = pth nod ! (2 * i))"
    by (auto simp: edge_inv_def)
  show ?thesis
  proof (cases "branches n (lo b)")
    case None
    note tb = tb_miss1 [OF n(1) None, of kt miss k "length k" slob i fwd]
    show ?thesis
    proof (cases "key_at s (key n) i")
      case (Inl e)
      with tb run ql1 show ?thesis by (auto simp: branch_res_def)
    next
      case (Inr kb)
      have hk: "hi kb = pth nod ! (2 * i)" using key_at_pth(1) [OF wf n(1) Inr] n(2) ql1 by simp
      show ?thesis
      proof (cases "hi kb = hi b")
        case True
        with tb run ql1 Inr have r: "res = Inl (miss s k (length k) (Some nod) (2 * i + 1))" by simp
        have "take (Suc (2 * i)) (nibbles k) = take (Suc (2 * i)) (pth nod)"
          using take_Suc_eq [OF n(3)] i la nb hk True by simp
        then have "take (qlen n) (nibbles k) = take (qlen n) (pth nod)" using n(2) ql1 by simp
        moreover have "branches n (nibbles k ! qlen n) = None" using None nb n(2) ql1 by simp
        moreover have "qlen n < 2 * length k" using n(2) ql1 i by simp
        ultimately have "good_pos s pth k nod (qlen n)" using good_pos_here [OF wf n(1)] by simp
        with r n(2) ql1 show ?thesis by (auto simp: branch_res_def)
      next
        case False
        with tb run ql1 Inr x have r: "res = Inl (miss s k (length k) (Some x) (2 * i))" by simp
        from False hk nb xq have xq': "qlen xn < 2 * i" by auto
        have "good_pos s pth k x (2 * i)"
        proof (rule good_pos_edge [OF wf n(1) x(1,2) xq'])
          show "2 * i < qlen n" using n(2) ql1 by simp
          show "2 * i \<le> 2 * length k" using i by simp
          show "take (2 * i) (nibbles k) = take (2 * i) (pth nod)" by (rule n(3))
          show "nibbles k ! (2 * i) \<noteq> pth nod ! (2 * i)" using False hk nb by simp
        qed
        with r show ?thesis by (auto simp: branch_res_def)
      qed
    qed
  next
    case (Some c)
    from child_edge [OF wf n(1) Some] obtain cn where cn: "nodes s c = Some cn" "parent cn = Some nod"
      "qlen n < qlen cn" "pth nod = take (qlen n) (pth c)" "pth c ! (qlen n) = lo b" by blast
    have ss: "size_sub (qlen cn) (2 * i) = qlen cn - 2 * i" "2 \<le> qlen cn - 2 * i"
      using cn(3) n(2) ql1 by (simp_all add: size_sub_def)
    have "trace_branch kt miss s k (length k) slob i b nod ql fwd =
        trace_branch kt miss s k (length k) slob i b c (qlen cn - 2 * i) True"
      using tb_step [of ql s nod n b c cn kt slob miss k "length k" i fwd] ql1 n(1) Some cn(1) ns ss
      by auto
    with run ss have r: "res = Inr (c, qlen cn - 2 * i, True)" by (simp add: tb_exit)
    have t: "take (2 * i) (nibbles k) = take (2 * i) (pth c)"
      using n(3) cn(4) n(2) ql1 by (simp add: min_def)
    have pc: "pth nod ! (2 * i) = pth c ! (2 * i)" using cn(4) n(2) ql1 by simp
    have "edge_inv s pth k i c cn True"
      unfolding edge_inv_def using cn n(1,2) ql1 nb x xq pc by auto
    with r ss cn t n(2) ql1 show ?thesis by (auto simp: branch_res_def branch_post_def)
  qed
qed

lemma trace_branch_spec0:
  assumes wf: "trie_inv X s pth" and i: "i < length k" and b: "b = k ! i"
    and ns: "\<not> (kt = TRIE_KEY_TRACING_SLOBBY \<and> slob)"
    and n: "nodes s nod = Some n" "qlen n = 2 * i" "take (2 * i) (nibbles k) = take (2 * i) (pth nod)"
    and run: "trace_branch kt miss s k (length k) slob i b nod 0 fwd = Some res"
  shows "branch_res miss s pth k i res"
proof -
  have nb: "nibbles k ! (2 * i) = hi b" "nibbles k ! (2 * i + 1) = lo b"
    using nibbles_nth [OF i] b by simp_all
  show ?thesis
  proof (cases "branches n (hi b)")
    case None
    with run n(1) have r: "res = Inl (miss s k (length k) (Some nod) (2 * i))" by (simp add: tb_miss0)
    have "good_pos s pth k nod (qlen n)"
      using good_pos_here [OF wf n(1)] n(2,3) i None nb by simp
    with r n(2) show ?thesis by (auto simp: branch_res_def)
  next
    case (Some c)
    from child_edge [OF wf n(1) Some] obtain cn where cn: "nodes s c = Some cn" "parent cn = Some nod"
      "qlen n < qlen cn" "pth nod = take (qlen n) (pth c)" "pth c ! (qlen n) = hi b" by blast
    have ss: "size_sub (qlen cn) (2 * i) = qlen cn - 2 * i" "1 \<le> qlen cn - 2 * i"
      using cn(3) n(2) by (simp_all add: size_sub_def)
    have st: "trace_branch kt miss s k (length k) slob i b nod 0 fwd =
        trace_branch kt miss s k (length k) slob i b c (qlen cn - 2 * i) False"
      using tb_step [of 0 s nod n b c cn kt slob miss k "length k" i fwd] n(1) Some cn(1) ns ss
      by auto
    have t: "take (2 * i) (nibbles k) = take (2 * i) (pth c)"
      using n(3) cn(4) n(2) by (simp add: min_def)
    have e: "edge_inv s pth k i c cn False"
      unfolding edge_inv_def using cn n(1,2) nb by auto
    show ?thesis
    proof (rule trace_branch_spec1 [OF wf i b ns cn(1) _ t ss(2) e])
      show "qlen cn = 2 * i + (qlen cn - 2 * i)" using cn(3) n(2) by simp
      show "trace_branch kt miss s k (length k) slob i b c (qlen cn - 2 * i) False = Some res"
        using run st by simp
    qed
  qed
qed

lemma trace_bytes_end:
  "\<not> i < len \<Longrightarrow> nodes s nod = Some n \<Longrightarrow>
   trace_bytes kt miss s k len slob i nod ql =
     (if ql = 0 then Some (Inr ((Some nod, 2 * len, item n \<noteq> None), s))
      else Some (miss s k len (parent n) (2 * len)))"
  by (subst trace_bytes.simps) simp

lemma trace_bytes_step:
  "i < len \<Longrightarrow> byte_at k i = Inr b \<Longrightarrow>
   trace_bytes kt miss s k len slob i nod ql =
     (case trace_branch kt miss s k len slob i b nod ql False of
           None \<Rightarrow> None
         | Some (Inl r) \<Rightarrow> Some r
         | Some (Inr (nod1, ql1, forward_branch)) \<Rightarrow>
        (case nodes s nod1 of None \<Rightarrow> Some (Inl UseAfterFree)
         | Some n \<Rightarrow>
        (case key_at s (key n) i of Inl e \<Rightarrow> Some (Inl e)
         | Inr kb \<Rightarrow>
             if kb \<noteq> b then
               (if forward_branch then
                  (case deref s (parent n) of Inl e \<Rightarrow> Some (Inl e)
                   | Inr pn \<Rightarrow>
                       Some (miss s k len (parent pn)
                               (2 * i + (if hi kb = hi b then 1 else 0))))
                else Some (miss s k len (parent n)
                             (2 * i + (if hi kb = hi b then 1 else 0))))
             else trace_bytes kt miss s k len slob (Suc i) nod1 (ql1 - 2))))"
  by (subst trace_bytes.simps) (simp add: Let_def xor_0 xor_f0 split: option.splits sum.splits prod.splits)

lemma trace_bytes_spec:
  assumes wf: "trie_inv X s pth" and ns: "\<not> (kt = TRIE_KEY_TRACING_SLOBBY \<and> slob)"
  shows "nodes s nod = Some n \<Longrightarrow> qlen n = 2 * i + ql \<Longrightarrow> i \<le> length k \<Longrightarrow>
    take (2 * i) (nibbles k) = take (2 * i) (pth nod) \<Longrightarrow>
    ql = 0 \<or> (\<exists>x xn. parent n = Some x \<and> nodes s x = Some xn \<and> qlen xn < 2 * i) \<Longrightarrow>
    trace_bytes kt miss s k (length k) slob i nod ql = Some r \<Longrightarrow>
    trace_res miss s pth k r"
proof (induction d \<equiv> "length k - i" arbitrary: i nod ql n)
  case 0
  then have il: "i = length k" by simp
  note W = wfpD [OF wf]
  have la: "length (pth nod) = qlen n" using node_okD(8) [OF W(2) [OF "0.prems"(1)]] .
  show ?case
  proof (cases "ql = 0")
    case True
    with "0.prems" il have r: "r = Inr ((Some nod, 2 * length k, item n \<noteq> None), s)"
      by (simp add: trace_bytes_end)
    have "pth nod = nibbles k" using "0.prems"(2,4) il True la by simp
    with r "0.prems"(1,2) il True show ?thesis by (auto simp: trace_res_def)
  next
    case False
    with "0.prems"(5) obtain x xn where x: "parent n = Some x" "nodes s x = Some xn"
      "qlen xn < 2 * i" by blast
    from "0.prems" il False x have r: "r = miss s k (length k) (Some x) (2 * length k)"
      by (simp add: trace_bytes_end)
    have "good_pos s pth k x (2 * length k)"
    proof (rule good_pos_edge [OF wf "0.prems"(1) x(1,2)])
      show "qlen xn < 2 * length k" using x il by simp
      show "2 * length k < qlen n" using "0.prems"(2) il False by simp
      show "take (2 * length k) (nibbles k) = take (2 * length k) (pth nod)"
        using "0.prems"(4) il by simp
    qed simp_all
    with r show ?thesis by (auto simp: trace_res_def)
  qed
next
  case (Suc d)
  then have il: "i < length k" by simp
  let ?b = "k ! i"
  have ba: "byte_at k i = Inr ?b" using il by (simp add: byte_at_def)
  have nb: "nibbles k ! (2 * i) = hi ?b" "nibbles k ! (2 * i + 1) = lo ?b"
    using nibbles_nth [OF il] by simp_all
  note st = trace_bytes_step [OF il ba, where kt = kt and miss = miss and s = s and slob = slob
      and nod = nod and ql = ql]
  from Suc.prems(6) st obtain res where
    res: "trace_branch kt miss s k (length k) slob i ?b nod ql False = Some res"
    by (cases "trace_branch kt miss s k (length k) slob i ?b nod ql False") auto
  have br: "branch_res miss s pth k i res"
  proof (cases "ql = 0")
    case True
    with trace_branch_spec0 [OF wf il refl ns Suc.prems(1) _ Suc.prems(4)] res Suc.prems(2)
    show ?thesis by simp
  next
    case False
    with Suc.prems(5) have "edge_inv s pth k i nod n False" by (auto simp: edge_inv_def)
    from trace_branch_spec1 [OF wf il refl ns Suc.prems(1,2,4) _ this res] False
    show ?thesis by simp
  qed
  then consider (err) e where "res = Inl (Inl e)"
    | (miss) p q where "good_pos s pth k p q" "res = Inl (miss s k (length k) (Some p) q)"
    | (cont) nod1 ql1 fwd1 where "res = Inr (nod1, ql1, fwd1)" "branch_post s pth k i (nod1, ql1, fwd1)"
    unfolding branch_res_def by (cases res) auto
  then show ?case
  proof cases
    case err
    with st res Suc.prems(6) show ?thesis by (auto simp: trace_res_def)
  next
    case miss
    with st res Suc.prems(6) show ?thesis by (auto simp: trace_res_def)
  next
    case cont
    from cont(2) obtain n1 where n1: "2 \<le> ql1" "nodes s nod1 = Some n1" "qlen n1 = 2 * i + ql1"
      "take (2 * i) (nibbles k) = take (2 * i) (pth nod1)" "edge_inv s pth k i nod1 n1 fwd1"
      by (auto simp: branch_post_def)
    note W = wfpD [OF wf]
    have la: "length (pth nod1) = 2 * i + ql1" using node_okD(8) [OF W(2) [OF n1(2)]] n1(3) by simp
    have nr: "nod1 \<noteq> m_root" using wfp_root(2) [OF wf n1(2)] n1(1,3) by simp
    from parent_edge [OF wf n1(2) nr] obtain x xn where x: "parent n1 = Some x" "nodes s x = Some xn"
      "qlen xn < qlen n1" "pth x = take (qlen xn) (pth nod1)" by blast
    show ?thesis
    proof (cases "key_at s (key n1) i")
      case (Inl e)
      with st res cont(1) n1(2) Suc.prems(6) show ?thesis by (auto simp: trace_res_def)
    next
      case (Inr kb)
      have hk: "hi kb = pth nod1 ! (2 * i)" "lo kb = pth nod1 ! (2 * i + 1)"
        using key_at_pth [OF wf n1(2) Inr] n1(1,3) by simp_all
      show ?thesis
      proof (cases "kb = ?b")
        case True
        with st res cont(1) n1(2) Inr Suc.prems(6)
        have run': "trace_bytes kt miss s k (length k) slob (Suc i) nod1 (ql1 - 2) = Some r" by simp
        have t1: "take (Suc (2 * i)) (nibbles k) = take (Suc (2 * i)) (pth nod1)"
          using take_Suc_eq [OF n1(4)] il la n1(1) nb hk True by simp
        have t2: "take (Suc (Suc (2 * i))) (nibbles k) = take (Suc (Suc (2 * i))) (pth nod1)"
          using take_Suc_eq [OF t1] il la n1(1) nb hk True by simp
        have e: "ql1 - 2 = 0 \<or> (\<exists>x xn. parent n1 = Some x \<and> nodes s x = Some xn \<and> qlen xn < 2 * Suc i)"
          using n1(5) by (auto simp: edge_inv_def split: if_splits)
        show ?thesis
        proof (rule Suc.hyps(1) [OF _ n1(2) _ _ _ e run'])
          show "d = length k - Suc i" using Suc.hyps(2) by simp
          show "qlen n1 = 2 * Suc i + (ql1 - 2)" using n1(1,3) by simp
          show "Suc i \<le> length k" using il by simp
          show "take (2 * Suc i) (nibbles k) = take (2 * Suc i) (pth nod1)" using t2 by simp
        qed
      next
        case False
        then have hl: "hi kb \<noteq> hi ?b \<or> lo kb \<noteq> lo ?b" by (simp add: byte_eq_iff)
        show ?thesis
        proof (cases fwd1)
          case True
          with n1(5) x have xq: "qlen xn = 2 * i + 1" "lo ?b = pth nod1 ! (2 * i + 1)"
            "hi ?b = pth nod1 ! (2 * i) \<or> (\<exists>g gn. parent xn = Some g \<and> nodes s g = Some gn \<and> qlen gn < 2 * i)"
            using nb by (auto simp: edge_inv_def)
          with hl hk have hd: "hi kb \<noteq> hi ?b" by auto
          with xq hk obtain g gn where g: "parent xn = Some g" "nodes s g = Some gn" "qlen gn < 2 * i"
            by auto
          from st res cont(1) n1(2) Inr False True x hd g Suc.prems(6)
          have r: "r = miss s k (length k) (Some g) (2 * i)" by (simp add: deref_def)
          have px: "pth x = take (2 * i + 1) (pth nod1)" using x(4) xq(1) by simp
          have "good_pos s pth k g (2 * i)"
          proof (rule good_pos_edge [OF wf x(2) g(1,2) g(3)])
            show "2 * i < qlen xn" using xq by simp
            show "2 * i \<le> 2 * length k" using il by simp
            show "take (2 * i) (nibbles k) = take (2 * i) (pth x)" using n1(4) px by (simp add: min_def)
            show "nibbles k ! (2 * i) \<noteq> pth x ! (2 * i)" using hd hk nb px by simp
          qed
          with r show ?thesis by (auto simp: trace_res_def)
        next
          case fwd: False
          with n1(5) x have xq: "qlen xn < 2 * i \<or> (qlen xn = 2 * i \<and> hi ?b = pth nod1 ! (2 * i))"
            using nb by (auto simp: edge_inv_def)
          show ?thesis
          proof (cases "hi kb = hi ?b")
            case hq: True
            from st res cont(1) n1(2) Inr False fwd x hq Suc.prems(6)
            have r: "r = miss s k (length k) (Some x) (Suc (2 * i))" by simp
            from hq hl have ld: "lo kb \<noteq> lo ?b" by simp
            have "good_pos s pth k x (Suc (2 * i))"
            proof (rule good_pos_edge [OF wf n1(2) x(1,2)])
              show "qlen xn < Suc (2 * i)" using xq by linarith
              show "Suc (2 * i) < qlen n1" using n1(1,3) by simp
              show "Suc (2 * i) \<le> 2 * length k" using il by simp
              have "nibbles k ! (2 * i) = pth nod1 ! (2 * i)" using nb(1) hk(1) hq by simp
              with take_Suc_eq [OF n1(4)] il la n1(1)
              show "take (Suc (2 * i)) (nibbles k) = take (Suc (2 * i)) (pth nod1)" by simp
              have "nibbles k ! (2 * i + 1) \<noteq> pth nod1 ! (2 * i + 1)"
                unfolding nb(2) hk(2) [symmetric] using ld by simp
              then show "nibbles k ! Suc (2 * i) \<noteq> pth nod1 ! Suc (2 * i)" by simp
            qed
            with r show ?thesis by (auto simp: trace_res_def)
          next
            case hq: False
            from st res cont(1) n1(2) Inr False fwd x hq Suc.prems(6)
            have r: "r = miss s k (length k) (Some x) (2 * i)" by simp
            have hd: "nibbles k ! (2 * i) \<noteq> pth nod1 ! (2 * i)"
              unfolding nb(1) hk(1) [symmetric] using hq by simp
            have "good_pos s pth k x (2 * i)"
            proof (rule good_pos_edge [OF wf n1(2) x(1,2)])
              show "qlen xn < 2 * i" using xq hd nb(1) by auto
              show "2 * i < qlen n1" using n1(1,3) by simp
              show "2 * i \<le> 2 * length k" using il by simp
              show "take (2 * i) (nibbles k) = take (2 * i) (pth nod1)" by (rule n1(4))
              show "nibbles k ! (2 * i) \<noteq> pth nod1 ! (2 * i)" by (rule hd)
            qed
            with r show ?thesis by (auto simp: trace_res_def)
          qed
        qed
      qed
    qed
  qed
qed

lemma trace_spec:
  assumes wf: "trie_inv X s pth" and ns: "\<not> (kt = TRIE_KEY_TRACING_SLOBBY \<and> slob)"
    and run: "trace kt miss s k (length k) slob = Some r"
  shows "trace_res miss s pth k r"
proof -
  from wfpD(1) [OF wf] obtain rt where rt: "nodes s m_root = Some rt" "qlen rt = 0" by blast
  show ?thesis
    by (rule trace_bytes_spec [OF wf ns rt(1) _ _ _ _ run [unfolded trace_def]]) (simp_all add: rt)
qed

subsection \<open>The miss action \<open>insert_node\<close>\<close>

lemma key_bytes_pth:
  assumes wf: "trie_inv X s pth" and a: "nodes s a = Some n" and kb: "key_bytes s (key n) = Inr bk"
    and g: "get_qpos bk q = Inr ci" and q: "q < qlen n"
  shows "ci = pth a ! q"
proof -
  from kb obtain h e where h: "key n = Some h" "m_items s h = Some e" "bk = fst e"
    by (auto simp: key_bytes_def split: option.splits)
  from node_okD(10) [OF wfpD(2) [OF wf a] h(1,2)] h(3)
  have e: "take (qlen n) (nibbles bk) = pth a" by simp
  from get_qpos_Inr [OF g] have "ci = nibbles bk ! q" by simp
  also have "\<dots> = pth a ! q" using e q by (metis nth_take)
  finally show ?thesis .
qed

lemma split_eff:
  assumes p: "nodes s p = Some pn" and c: "nodes s c = Some cn" and ne: "p \<noteq> c"
    and fr: "nodes s (nodes_next s) = None"
    and s6_def: "s6 = upd_node c (\<lambda>m. m\<lparr>parent := Some (nodes_next s)\<rparr>)
       (upd_node p (\<lambda>m. m\<lparr>branches := (branches m)(bi := Some (nodes_next s))\<rparr>)
       (upd_node c (set_br_own ci)
       (upd_node (nodes_next s) (\<lambda>m. m\<lparr>branches := (branches m)(ci := Some c)\<rparr>)
       (upd_node p (\<lambda>m. m\<lparr>branches := (branches m)(bi := None)\<rparr>)
       (s\<lparr>nodes := (nodes s)(nodes_next s \<mapsto> new_node None (key cn) q (Some p) bi ci ci),
           nodes_next := Suc (nodes_next s)\<rparr>)))))"
  shows "nodes s6 = (nodes s)(nodes_next s \<mapsto>
                 (new_node None (key cn) q (Some p) bi ci ci)\<lparr>branches := (\<lambda>_. None)(ci := Some c)\<rparr>,
               p \<mapsto> pn\<lparr>branches := (branches pn)(bi := Some (nodes_next s))\<rparr>,
               c \<mapsto> (set_br_own ci cn)\<lparr>parent := Some (nodes_next s)\<rparr>)"
    and "nodes_next s6 = Suc (nodes_next s)" and "m_items s6 = m_items s"
    and "items_next s6 = items_next s"
proof -
  have d: "p \<noteq> nodes_next s" "c \<noteq> nodes_next s" using p c fr by auto
  show "nodes s6 = (nodes s)(nodes_next s \<mapsto>
                 (new_node None (key cn) q (Some p) bi ci ci)\<lparr>branches := (\<lambda>_. None)(ci := Some c)\<rparr>,
               p \<mapsto> pn\<lparr>branches := (branches pn)(bi := Some (nodes_next s))\<rparr>,
               c \<mapsto> (set_br_own ci cn)\<lparr>parent := Some (nodes_next s)\<rparr>)"
    unfolding s6_def using d ne p c
    by (auto simp: upd_node_def fun_eq_iff set_br_own_def)
  show "nodes_next s6 = Suc (nodes_next s)" "m_items s6 = m_items s" "items_next s6 = items_next s"
    unfolding s6_def by (simp_all add: upd_node_def)
qed

lemma insert_node_split:
  assumes p: "nodes s p = Some pn" and bi: "get_qpos k (qlen pn) = Inr bi"
    and b: "branches pn bi = Some c" and c: "nodes s c = Some cn"
    and kb: "key_bytes s (key cn) = Inr bk" and ci: "get_qpos bk q = Inr ci"
  shows "insert_node s k len (Some p) q =
     (let s6 = upd_node c (\<lambda>m. m\<lparr>parent := Some (nodes_next s)\<rparr>)
       (upd_node p (\<lambda>m. m\<lparr>branches := (branches m)(bi := Some (nodes_next s))\<rparr>)
       (upd_node c (set_br_own ci)
       (upd_node (nodes_next s) (\<lambda>m. m\<lparr>branches := (branches m)(ci := Some c)\<rparr>)
       (upd_node p (\<lambda>m. m\<lparr>branches := (branches m)(bi := None)\<rparr>)
       (s\<lparr>nodes := (nodes s)(nodes_next s \<mapsto> new_node None (key cn) q (Some p) bi ci ci),
           nodes_next := Suc (nodes_next s)\<rparr>)))))
      in if q = 2 * len then Inr ((Some (nodes_next s), q, False), s6)
         else (case get_qpos k q of Inl e \<Rightarrow> Inl e
               | Inr li \<Rightarrow> insert_node_leaf s6 len (nodes_next s) li))"
  using assms by (simp add: insert_node_def Let_def)

lemma insert_node_wfp:
  assumes wf: "trie_inv X s pth" and gp: "good_pos s pth k p q"
    and run: "insert_node s k (length k) (Some p) q = Inr (pos, s1)"
    and it: "insert_item (k, v) (pos_node pos) s1 = Inr s2"
  shows "\<exists>pth'. trie_inv X s2 pth'"
proof -
  note W = wfpD [OF wf]
  from gp obtain pn where pn: "nodes s p = Some pn" "qlen pn \<le> q" "q \<le> 2 * length k"
    "qlen pn < 2 * length k" "take (qlen pn) (nibbles k) = pth p"
    and slot: "case branches pn (nibbles k ! qlen pn) of
           None \<Rightarrow> q = qlen pn
         | Some c \<Rightarrow>
             (\<exists>cn. nodes s c = Some cn \<and> qlen pn < q \<and> q < qlen cn \<and>
                   take q (nibbles k) = take q (pth c) \<and>
                   (q < 2 * length k \<longrightarrow> nibbles k ! q \<noteq> pth c ! q))"
    unfolding good_pos_def by blast
  let ?bi = "nibbles k ! qlen pn"
  have gq: "get_qpos k (qlen pn) = Inr ?bi" using get_qpos_nibbles pn(4) by simp
  have fr: "nodes s (nodes_next s) = None" by (rule wfp_fresh [OF wf])
  show ?thesis
  proof (cases "branches pn ?bi")
    case None
    with run pn(1) gq have "insert_node_leaf s (length k) p ?bi = Inr (pos, s1)"
      by (simp add: insert_node_def)
    with insert_node_leaf_eff [OF pn(1) fr None, of "length k"]
    have e: "pos = (Some (nodes_next s), 2 * length k, False)"
      "s1 = s\<lparr>nodes := (nodes s)(p \<mapsto> (br_extend ?bi pn)\<lparr>branches := (branches pn)(?bi := Some (nodes_next s))\<rparr>,
                               nodes_next s \<mapsto> new_node None None (2 * length k) (Some p) ?bi 1 0),
            nodes_next := Suc (nodes_next s)\<rparr>" by simp_all
    have l: "nodes s1 (nodes_next s) = Some (new_node None None (2 * length k) (Some p) ?bi 1 0)"
      unfolding e(2) by simp
    from it e(1) insert_item_eff [OF l, of "(k, v)"]
    have s2: "s2 = s1\<lparr>m_items := (m_items s1)(items_next s1 \<mapsto> (k, v)), items_next := Suc (items_next s1),
            nodes := (nodes s1)(nodes_next s \<mapsto> (new_node None None (2 * length k) (Some p) ?bi 1 0)\<lparr>key := Some (items_next s1), item := Some (items_next s1)\<rparr>)\<rparr>"
      by (simp add: pos_node_def)
    have "trie_inv X s2 (pth(nodes_next s := nibbles k))"
    proof (rule insert_leaf_wfp [OF wf pn(1) None pn(4,5) refl])
      show "nodes s2 = (nodes s)(p \<mapsto> (br_extend ?bi pn)\<lparr>branches := (branches pn)(?bi := Some (nodes_next s))\<rparr>,
               nodes_next s \<mapsto> (new_node None None (2 * length k) (Some p) ?bi 1 0)\<lparr>key := Some (items_next s), item := Some (items_next s)\<rparr>)"
        unfolding s2 e(2) by simp
      show "nodes_next s2 = Suc (nodes_next s)" unfolding s2 e(2) by simp
      show "m_items s2 = (m_items s)(items_next s \<mapsto> (k, v))" unfolding s2 e(2) by simp
      show "items_next s2 = Suc (items_next s)" unfolding s2 e(2) by simp
    qed
    then show ?thesis by blast
  next
    case (Some c)
    with slot obtain cn where cn: "nodes s c = Some cn" "qlen pn < q" "q < qlen cn"
      "take q (nibbles k) = take q (pth c)" "q < 2 * length k \<Longrightarrow> nibbles k ! q \<noteq> pth c ! q"
      by auto
    have ne: "p \<noteq> c" using child_distinct [OF W(2) [OF pn(1)] Some] by simp
    from run pn(1) gq Some cn(1) obtain bk where bk: "key_bytes s (key cn) = Inr bk"
      by (cases "key_bytes s (key cn)") (auto simp: insert_node_def)
    from run pn(1) gq Some cn(1) bk obtain ci where ci: "get_qpos bk q = Inr ci"
      by (cases "get_qpos bk q") (auto simp: insert_node_def)
    have cip: "ci = pth c ! q" by (rule key_bytes_pth [OF wf cn(1) bk ci cn(3)])
    let ?I = "nodes_next s"
    define s6 where "s6 = upd_node c (\<lambda>m. m\<lparr>parent := Some ?I\<rparr>)
       (upd_node p (\<lambda>m. m\<lparr>branches := (branches m)(?bi := Some ?I)\<rparr>)
       (upd_node c (set_br_own ci)
       (upd_node ?I (\<lambda>m. m\<lparr>branches := (branches m)(ci := Some c)\<rparr>)
       (upd_node p (\<lambda>m. m\<lparr>branches := (branches m)(?bi := None)\<rparr>)
       (s\<lparr>nodes := (nodes s)(?I \<mapsto> new_node None (key cn) q (Some p) ?bi ci ci),
           nodes_next := Suc ?I\<rparr>)))))"
    note E = split_eff [OF pn(1) cn(1) ne fr s6_def]
    note R = insert_node_split [OF pn(1) gq Some cn(1) bk ci, of "length k", folded s6_def]
    let ?i' = "(new_node None (key cn) q (Some p) ?bi ci ci)\<lparr>branches := (\<lambda>_. None)(ci := Some c)\<rparr>"
    let ?pth6 = "pth(?I := take q (pth c))"
    have wf6: "trie_inv (insert ?I X) s6 ?pth6"
      by (rule split_wfp [OF wf pn(1) Some cn(1,2,3) cip E])
    have at_I: "nodes s6 ?I = Some ?i'" using E(1) pn(1) cn(1) fr ne by auto
    have ci16: "ci < 16" using get_qpos_Inr [OF ci] nibbles_lt [of ci bk] by (simp add: nth_mem)
    have bi16: "?bi < 16" using nibbles_lt [of ?bi k] pn(4) by (simp add: nth_mem)
    show ?thesis
    proof (cases "q = 2 * length k")
      case True
      with R run have e: "pos = (Some ?I, q, False)" "s1 = s6" by (simp_all add: Let_def)
      from it e insert_item_eff [OF at_I, of "(k, v)"]
      have s2: "s2 = s6\<lparr>m_items := (m_items s6)(items_next s6 \<mapsto> (k, v)), items_next := Suc (items_next s6),
            nodes := (nodes s6)(?I \<mapsto> ?i'\<lparr>key := Some (items_next s6), item := Some (items_next s6)\<rparr>)\<rparr>"
        by (simp add: pos_node_def)
      have "trie_inv (insert ?I X - {?I}) s2 ?pth6"
      proof (rule set_item_wfp [OF wf6 at_I])
        show "qlen ?i' \<le> 2 * length k" using True by simp
        show "take (qlen ?i') (nibbles k) = ?pth6 ?I" using cn(4) by simp
      qed (simp_all add: s2)
      then have "trie_inv X s2 ?pth6" by (rule wfp_shrink) auto
      then show ?thesis by blast
    next
      case False
      with cn pn have ql: "q < 2 * length k" by simp
      let ?li = "nibbles k ! q"
      have gl: "get_qpos k q = Inr ?li" using get_qpos_nibbles ql by simp
      have lc: "?li \<noteq> ci" using cn(5) [OF ql] cip by simp
      have li16: "?li < 16" using nibbles_lt [of ?li k] ql by (simp add: nth_mem)
      have fr6: "nodes s6 (nodes_next s6) = None" by (rule wfp_fresh [OF wf6])
      from R run False gl have "insert_node_leaf s6 (length k) ?I ?li = Inr (pos, s1)"
        by (simp add: Let_def)
      moreover have "branches ?i' ?li = None" using lc by simp
      ultimately have e: "pos = (Some (nodes_next s6), 2 * length k, False)"
        "s1 = s6\<lparr>nodes := (nodes s6)(?I \<mapsto> (br_extend ?li ?i')\<lparr>branches := (branches ?i')(?li := Some (nodes_next s6))\<rparr>,
                               nodes_next s6 \<mapsto> new_node None None (2 * length k) (Some ?I) ?li 1 0),
            nodes_next := Suc (nodes_next s6)\<rparr>"
        using insert_node_leaf_eff [OF at_I fr6, of ?li "length k"] by simp_all
      have l: "nodes s1 (nodes_next s6) = Some (new_node None None (2 * length k) (Some ?I) ?li 1 0)"
        unfolding e(2) by simp
      from it e(1) insert_item_eff [OF l, of "(k, v)"]
      have s2: "s2 = s1\<lparr>m_items := (m_items s1)(items_next s1 \<mapsto> (k, v)), items_next := Suc (items_next s1),
            nodes := (nodes s1)(nodes_next s6 \<mapsto> (new_node None None (2 * length k) (Some ?I) ?li 1 0)\<lparr>key := Some (items_next s1), item := Some (items_next s1)\<rparr>)\<rparr>"
        by (simp add: pos_node_def)
      let ?pth' = "?pth6(nodes_next s6 := nibbles k)"
      have wf2: "trie_inv (insert ?I X) s2 ?pth'"
      proof (rule insert_leaf_wfp [OF wf6 at_I])
        show "branches ?i' ?li = None" using lc by simp
        show "qlen ?i' < 2 * length k" using ql by simp
        show "take (qlen ?i') (nibbles k) = ?pth6 ?I" using cn(4) by simp
        show "?li = nibbles k ! qlen ?i'" by simp
        show "nodes s2 = (nodes s6)(?I \<mapsto> (br_extend ?li ?i')\<lparr>branches := (branches ?i')(?li := Some (nodes_next s6))\<rparr>,
               nodes_next s6 \<mapsto> (new_node None None (2 * length k) (Some ?I) ?li 1 0)\<lparr>key := Some (items_next s6), item := Some (items_next s6)\<rparr>)"
          unfolding s2 e(2) by simp
        show "nodes_next s2 = Suc (nodes_next s6)" unfolding s2 e(2) by simp
        show "m_items s2 = (m_items s6)(items_next s6 \<mapsto> (k, v))" unfolding s2 e(2) by simp
        show "items_next s2 = Suc (items_next s6)" unfolding s2 e(2) by simp
      qed
      have "trie_inv X s2 ?pth'"
      proof (rule wfp_shrink [OF wf2])
        fix a m assume a: "a \<in> insert ?I X" "a \<notin> X" "nodes s2 a = Some m"
        then have aI: "a = ?I" by simp
        have nI: "?I \<noteq> nodes_next s6" using E(2) by simp
        have "nodes s2 ?I = Some ((br_extend ?li ?i')\<lparr>branches := (branches ?i')(?li := Some (nodes_next s6))\<rparr>)"
          unfolding s2 e(2) using nI by simp
        with a aI have m: "m = (br_extend ?li ?i')\<lparr>branches := (branches ?i')(?li := Some (nodes_next s6))\<rparr>"
          by simp
        have nl: "\<not> is_leaf ?i'" using bi16 ci16 by (simp add: is_leaf_def)
        have "br_1st (br_extend ?li ?i') = min ?li ci \<and> br_last (br_extend ?li ?i') = max ?li ci"
          using nl bi16 ci16 li16 by (auto simp: br_extend_def Let_def)
        with lc show "br_1st m < br_last m" unfolding m by (simp add: min_def max_def)
      qed
      then show ?thesis by blast
    qed
  qed
qed

subsection \<open>Releasing an item and rescanning the branch range\<close>

declare scan_up.simps [simp del]

lemma unset_item_wfp:
  assumes wf: "trie_inv X s pth"
    and a: "nodes s a = Some n" "item n = Some h"
    and s': "nodes s' = (nodes s)(a \<mapsto> n\<lparr>item := None\<rparr>)"
      "nodes_next s' = nodes_next s"
      "m_items s' = (m_items s)(h := None)"
      "items_next s' = items_next s"
  shows "trie_inv (insert a X) s' pth"
proof (rule wfp_step [OF wf, where C = "{a}"])
  let ?n' = "n\<lparr>item := None\<rparr>"
  note W = wfpD [OF wf]
  note N = node_okD [OF W(2) [OF a(1)]]
  have at_a: "nodes s' a = Some ?n'" using s'(1) by simp
  have unch: "nodes s' b = nodes s b" if "b \<noteq> a" for b using that s'(1) by simp
  show "\<exists>r. nodes s' m_root = Some r \<and> qlen r = 0 \<and> parent r = None"
    using W(1) a at_a unch [of m_root] by (cases "m_root = a") auto
  show "nodes s' b = nodes s b \<and> pth b = pth b" if "b \<notin> {a}" for b using that unch by simp
  show "node_ok (insert a X) s' pth b mb" if "b \<in> {a}" "nodes s' b = Some mb" for b mb
  proof -
    from that at_a have b: "b = a" "mb = ?n'" by simp_all
    show ?thesis unfolding b
    proof (rule node_okI)
      show "a < nodes_next s'" using N(1) s'(2) by simp
      show "br_ok ?n'" using N(2) by (simp add: br_ok_def)
      show "\<exists>cn. nodes s' c = Some cn \<and> parent cn = Some a \<and> br_own cn = i \<and> qlen ?n' < qlen cn \<and>
              take (Suc (qlen ?n')) (pth c) = pth a @ [i]" if "branches ?n' i = Some c" for i c
      proof -
        from that have b: "branches n i = Some c" by simp
        from child_distinct [OF W(2) [OF a(1)] b] N(3) [OF b] unch [of c] show ?thesis by simp
      qed
      show "\<exists>p pn. parent ?n' = Some p \<and> nodes s' p = Some pn \<and> branches pn (br_own ?n') = Some a"
        if "a \<noteq> m_root"
      proof -
        from N(4) [OF that] obtain p pn where p: "parent n = Some p" "nodes s p = Some pn"
          "branches pn (br_own n) = Some a" by blast
        from child_distinct [OF W(2) [OF p(2)] p(3)] p unch [of p] show ?thesis by simp
      qed
      show "h' < items_next s'" if "key ?n' = Some h'" for h' using that N(7) [of h'] s'(4) by simp
      show "length (pth a) = qlen ?n'" using N(8) by simp
      show "x < 16" if "x \<in> set (pth a)" for x using N(9) that by simp
      show "qlen ?n' \<le> 2 * length (fst e) \<and> take (qlen ?n') (nibbles (fst e)) = pth a"
        if "key ?n' = Some h'" "m_items s' h' = Some e" for h' e
      proof -
        from that s'(3) have "key n = Some h'" "m_items s h' = Some e"
          by (simp_all split: if_splits)
        from N(10) [OF this] show ?thesis by simp
      qed
    qed simp_all
  qed
  show "\<exists>cn'. nodes s' c = Some cn' \<and> parent cn' = parent cn \<and> br_own cn' = br_own cn \<and>
              qlen cn' = qlen cn \<and> pth c = pth c"
    if "c \<in> {a}" "nodes s c = Some cn" for c cn
    using that a at_a by simp
  show "\<exists>pn'. nodes s' p = Some pn' \<and> branches pn' i = Some c"
    if "p \<in> {a}" "nodes s p = Some pn" "branches pn i = Some c" for p pn i c
    using that a at_a by simp
  show "m_items s h' = Some e" if "m_items s' h' = Some e" for h' e
    using that s'(3) by (simp split: if_splits)
  show "m_items s' h' \<noteq> None" if "b \<notin> {a}" "nodes s b = Some mb" "item mb = Some h'" for b mb h'
  proof -
    from W(3) [OF a(1) that(2) a(2)] that have "h' \<noteq> h" by auto
    with wfp_item_lt(2) [OF wf that(2,3)] s'(3) show ?thesis by simp
  qed
  show "h' < items_next s'" if "m_items s' h' = Some e" for h' e
    using that s'(3,4) W(4) [of h' e] by (simp split: if_splits)
  show "nodes_next s \<le> nodes_next s'" "items_next s \<le> items_next s'" using s' by simp_all
  show "b = c" if "b \<in> {a}" "nodes s' b = Some mb" "item mb = Some h'" for b mb h' c
    using that at_a by auto
  show "b \<in> insert a X" if "b \<in> X" for b using that by simp
qed

text \<open>The scans of \<open>erase\<close> for the next or the previous occupied slot.\<close>

lemma scan_up_spec:
  assumes "ix \<le> j" "j < 16" "branches pn j \<noteq> None"
  shows "\<exists>r. scan_up pn ix = Inr r \<and> ix \<le> r \<and> r \<le> j \<and> branches pn r \<noteq> None \<and>
             (\<forall>i. ix \<le> i \<and> i < r \<longrightarrow> branches pn i = None)"
  using assms
proof (induction "j - ix" arbitrary: ix)
  case 0
  then have "ix = j" by simp
  with 0 show ?case by (subst scan_up.simps) (auto simp del: scan_up.simps)
next
  case (Suc d)
  show ?case
  proof (cases "branches pn ix = None")
    case True
    with Suc.prems have "ix \<noteq> j" by auto
    with Suc have "\<exists>r. scan_up pn (Suc ix) = Inr r \<and> Suc ix \<le> r \<and> r \<le> j \<and> branches pn r \<noteq> None \<and>
             (\<forall>i. Suc ix \<le> i \<and> i < r \<longrightarrow> branches pn i = None)" by (intro Suc.hyps(1)) (auto simp del: scan_up.simps)
    then obtain r where r: "scan_up pn (Suc ix) = Inr r" "Suc ix \<le> r" "r \<le> j" "branches pn r \<noteq> None"
      "\<forall>i. Suc ix \<le> i \<and> i < r \<longrightarrow> branches pn i = None" by blast
    have "scan_up pn ix = Inr r" using True Suc.prems r(1) by (subst scan_up.simps) (auto simp del: scan_up.simps)
    moreover have "\<forall>i. ix \<le> i \<and> i < r \<longrightarrow> branches pn i = None"
      using r(5) True by (metis Suc_leI le_neq_implies_less)
    ultimately show ?thesis using r by (auto simp del: scan_up.simps)
  next
    case False
    with Suc.prems show ?thesis by (subst scan_up.simps) (auto simp del: scan_up.simps)
  qed
qed

lemma scan_down_spec:
  assumes "j \<le> ix" "branches pn j \<noteq> None"
  shows "\<exists>r. scan_down pn ix = Inr r \<and> j \<le> r \<and> r \<le> ix \<and> branches pn r \<noteq> None \<and>
             (\<forall>i. r < i \<and> i \<le> ix \<longrightarrow> branches pn i = None)"
  using assms
proof (induction ix)
  case 0
  then show ?case by auto
next
  case (Suc ix)
  show ?case
  proof (cases "branches pn (Suc ix) = None")
    case True
    with Suc.prems have "j \<le> ix" by (metis le_SucE)
    from Suc.IH [OF this Suc.prems(2)] obtain r where r: "scan_down pn ix = Inr r" "j \<le> r" "r \<le> ix"
      "branches pn r \<noteq> None" "\<forall>i. r < i \<and> i \<le> ix \<longrightarrow> branches pn i = None" by blast
    have "\<forall>i. r < i \<and> i \<le> Suc ix \<longrightarrow> branches pn i = None"
      using r(5) True by (metis le_SucE)
    with r True show ?thesis by auto
  next
    case False
    with Suc.prems show ?thesis by auto
  qed
qed

lemma destroy_leaf:
  assumes "h a = Some n" "\<And>i. branches n i = None"
  shows "destroy [a] h = Some (Inr (h(a := None)))"
proof -
  have "List.map_filter (branches n) [0..<16] = []"
    using assms(2) by (simp add: List.map_filter_def)
  then show ?thesis using assms(1)
    by (subst destroy.simps) (simp add: destroy.simps [of "[]"])
qed

text \<open>How \<open>erase\<close> adjusts the branch range of the parent that lost a leaf.\<close>

lemma remove_adjust:
  assumes ok: "br_ok pn" and c: "branches pn bi = Some a"
    and pn1: "pn1 = pn\<lparr>branches := (branches pn)(bi := None)\<rparr>"
  shows "has_only_son pn \<Longrightarrow> br_ok (br_set 1 0 pn1) \<and> is_leaf (br_set 1 0 pn1)"
    and "\<not> has_only_son pn \<Longrightarrow> br_1st pn = bi \<Longrightarrow>
          \<exists>ix. scan_up pn1 (bi + 1) = Inr ix \<and> ix < 16 \<and> br_ok (set_br_1st ix pn1) \<and> \<not> is_leaf (set_br_1st ix pn1)"
    and "\<not> has_only_son pn \<Longrightarrow> br_1st pn \<noteq> bi \<Longrightarrow> br_last pn = bi \<Longrightarrow>
          bi \<noteq> 0 \<and> (\<exists>ix. scan_down pn1 (bi - 1) = Inr ix \<and> ix < 16 \<and> br_ok (set_br_last ix pn1) \<and>
             \<not> is_leaf (set_br_last ix pn1))"
    and "\<not> has_only_son pn \<Longrightarrow> br_1st pn \<noteq> bi \<Longrightarrow> br_last pn \<noteq> bi \<Longrightarrow> br_ok pn1 \<and> \<not> is_leaf pn1"
proof -
  have nl: "\<not> is_leaf pn" using br_ok_leafD [OF ok, of bi] c by auto
  note B = br_ok_nonleafD [OF ok nl]
  have bi: "bi < 16" using br_ok_lt [OF ok c] .
  have rng: "br_1st pn \<le> bi" "bi \<le> br_last pn" using B(3) [of bi] c by simp_all
  have l16: "br_last pn < 16" by simp
  have b1 [simp]: "branches pn1 = (branches pn)(bi := None)" "br_1st pn1 = br_1st pn"
    "br_last pn1 = br_last pn" by (simp_all add: pn1)
  have lt: "i < 16" if "branches pn1 i = Some c'" for i c'
    using that br_ok_lt [OF ok, of i c'] by (simp split: if_splits)
  have in_rng: "br_1st pn \<le> i \<and> i \<le> br_last pn \<and> i \<noteq> bi" if "branches pn1 i \<noteq> None" for i
    using that B(3) [of i] by (simp split: if_splits)
  show "br_ok (br_set 1 0 pn1) \<and> is_leaf (br_set 1 0 pn1)" if "has_only_son pn"
  proof -
    from that rng have e: "br_1st pn = bi" "br_last pn = bi" by (simp_all add: has_only_son_def)
    have l: "is_leaf (br_set 1 0 pn1)" by (simp add: is_leaf_def)
    have "branches (br_set 1 0 pn1) i = None" for i
    proof (rule ccontr)
      assume "branches (br_set 1 0 pn1) i \<noteq> None"
      then have "branches pn1 i \<noteq> None" by simp
      from in_rng [OF this] e show False by auto
    qed
    with l show ?thesis by (simp add: br_okI_leaf)
  qed
  show "\<exists>ix. scan_up pn1 (bi + 1) = Inr ix \<and> ix < 16 \<and> br_ok (set_br_1st ix pn1) \<and> \<not> is_leaf (set_br_1st ix pn1)"
    if "\<not> has_only_son pn" "br_1st pn = bi"
  proof -
    from that rng have lt': "bi < br_last pn" by (simp add: has_only_son_def)
    have "branches pn1 (br_last pn) \<noteq> None" using B(2) lt' by simp
    from scan_up_spec [OF _ l16 this, of "bi + 1"] lt' obtain r where
      r: "scan_up pn1 (bi + 1) = Inr r" "bi + 1 \<le> r" "r \<le> br_last pn" "branches pn1 r \<noteq> None"
        "\<forall>i. bi + 1 \<le> i \<and> i < r \<longrightarrow> branches pn1 i = None" by auto
    have r16: "r < 16" by (rule le_less_trans [OF r(3) l16])
    let ?m = "set_br_1st r pn1"
    have nl': "\<not> is_leaf ?m" using r16 r(3) by (simp add: is_leaf_def)
    have "br_ok ?m"
    proof (rule br_okI_nonleaf [OF nl'])
      show "i < 16" if "branches ?m i = Some c'" for i c' using that lt [of i c'] by simp
      show "branches ?m (br_1st ?m) \<noteq> None" using r(4) r16 by simp
      show "branches ?m (br_last ?m) \<noteq> None" using B(2) lt' r16 by simp
      show "br_1st ?m \<le> i \<and> i \<le> br_last ?m" if "branches ?m i \<noteq> None" for i
      proof -
        from that have ne: "branches pn1 i \<noteq> None" by simp
        from in_rng [OF ne] \<open>br_1st pn = bi\<close> have "bi + 1 \<le> i" "i \<le> br_last pn" by simp_all
        moreover from r(5) ne \<open>bi + 1 \<le> i\<close> have "r \<le> i" by (meson not_le)
        ultimately show ?thesis using r16 by simp
      qed
    qed
    with r(1) nl' r16 show ?thesis by blast
  qed
  show "bi \<noteq> 0 \<and> (\<exists>ix. scan_down pn1 (bi - 1) = Inr ix \<and> ix < 16 \<and> br_ok (set_br_last ix pn1) \<and>
             \<not> is_leaf (set_br_last ix pn1))"
    if "\<not> has_only_son pn" "br_1st pn \<noteq> bi" "br_last pn = bi"
  proof -
    from that rng have lt': "br_1st pn < bi" by simp
    then have b0: "bi \<noteq> 0" by simp
    have "branches pn1 (br_1st pn) \<noteq> None" using B(1) lt' by simp
    moreover have "br_1st pn \<le> bi - 1" using lt' by simp
    ultimately obtain r where
      r: "scan_down pn1 (bi - 1) = Inr r" "br_1st pn \<le> r" "r \<le> bi - 1" "branches pn1 r \<noteq> None"
        "\<forall>i. r < i \<and> i \<le> bi - 1 \<longrightarrow> branches pn1 i = None"
      using scan_down_spec [of "br_1st pn" "bi - 1" pn1] by blast
    have r16: "r < 16" using r(3) bi by simp
    let ?m = "set_br_last r pn1"
    have nl': "\<not> is_leaf ?m" using r16 r(2) by (simp add: is_leaf_def)
    have "br_ok ?m"
    proof (rule br_okI_nonleaf [OF nl'])
      show "i < 16" if "branches ?m i = Some c'" for i c' using that lt [of i c'] by simp
      show "branches ?m (br_last ?m) \<noteq> None" using r(4) r16 by simp
      show "branches ?m (br_1st ?m) \<noteq> None" using B(1) lt' r16 by simp
      show "br_1st ?m \<le> i \<and> i \<le> br_last ?m" if "branches ?m i \<noteq> None" for i
      proof -
        from that have ne: "branches pn1 i \<noteq> None" by simp
        from in_rng [OF ne] \<open>br_last pn = bi\<close> have i: "i \<le> bi - 1" "br_1st pn \<le> i" by auto
        from r(5) ne i(1) have "i \<le> r" by (meson not_le)
        with i show ?thesis using r16 by simp
      qed
    qed
    with r(1) nl' b0 r16 show ?thesis by blast
  qed
  show "br_ok pn1 \<and> \<not> is_leaf pn1"
    if "\<not> has_only_son pn" "br_1st pn \<noteq> bi" "br_last pn \<noteq> bi"
  proof -
    have nl': "\<not> is_leaf pn1" using nl by (simp add: pn1)
    have "br_ok pn1"
    proof (rule br_okI_nonleaf [OF nl'])
      show "i < 16" if "branches pn1 i = Some c'" for i c' using that by (rule lt)
      show "branches pn1 (br_1st pn1) \<noteq> None" using B(1) that by simp
      show "branches pn1 (br_last pn1) \<noteq> None" using B(2) that by simp
      show "br_1st pn1 \<le> i \<and> i \<le> br_last pn1" if "branches pn1 i \<noteq> None" for i
        using in_rng [OF that] by simp
    qed
    with nl' show ?thesis by simp
  qed
qed

subsection \<open>Removing an empty leaf\<close>

lemma has_only_son_upd [simp]:
  "has_only_son (n\<lparr>branches := bs\<rparr>) = has_only_son n"
  "has_only_son (n\<lparr>item := it\<rparr>) = has_only_son n"
  "has_only_son (n\<lparr>key := k\<rparr>) = has_only_son n"
  "has_only_son (n\<lparr>parent := p\<rparr>) = has_only_son n"
  by (simp_all add: has_only_son_def)

lemma erase_leaf_eff:
  assumes wf: "trie_inv X s pth" and a: "nodes s a = Some n" "is_leaf n" "a \<noteq> m_root"
    and res: "erase_leaf s a = Some (Inr (s', nod'))"
  shows "\<exists>p pn pn'. parent n = Some p \<and> nodes s p = Some pn \<and> branches pn (br_own n) = Some a \<and>
     p \<noteq> a \<and> nod' = p \<and>
     nodes s' = (nodes s)(a := None, p \<mapsto> pn') \<and> nodes_next s' = nodes_next s \<and>
     m_items s' = m_items s \<and> items_next s' = items_next s \<and>
     branches pn' = (branches pn)(br_own n := None) \<and> item pn' = item pn \<and> key pn' = key pn \<and>
     qlen pn' = qlen pn \<and> parent pn' = parent pn \<and> br_own pn' = br_own pn \<and> br_ok pn' \<and>
     (\<not> has_only_son pn \<longrightarrow> \<not> is_leaf pn')"
proof -
  note W = wfpD [OF wf]
  note N = node_okD [OF W(2) [OF a(1)]]
  from N(4) [OF a(3)] obtain p pn where p: "parent n = Some p" "nodes s p = Some pn"
    "branches pn (br_own n) = Some a" by blast
  have pa: "p \<noteq> a" using child_distinct [OF W(2) [OF p(2)] p(3)] by simp
  have leafb: "branches n i = None" for i using br_ok_leafD [OF N(2) a(2)] .
  let ?bi = "br_own n"
  let ?pn1 = "pn\<lparr>branches := (branches pn)(?bi := None)\<rparr>"
  let ?h1 = "(nodes s)(p \<mapsto> ?pn1)"
  let ?s1 = "s\<lparr>nodes := ?h1(a := None)\<rparr>"
  have "?h1 a = Some n" using a(1) pa by simp
  then have d: "destroy [a] ?h1 = Some (Inr (?h1(a := None)))"
    using leafb by (rule destroy_leaf [where h = ?h1 and a = a and n = n])
  have bok: "br_ok pn" using node_okD(2) [OF W(2) [OF p(2)]] .
  note R = remove_adjust [OF bok p(3) refl]
  have fin: ?thesis
    if f: "nodes s' = (nodes s)(a := None, p \<mapsto> pn')" "nodes_next s' = nodes_next s"
      "m_items s' = m_items s" "items_next s' = items_next s" "nod' = p"
      "branches pn' = branches ?pn1" "item pn' = item pn" "key pn' = key pn" "qlen pn' = qlen pn"
      "parent pn' = parent pn" "br_own pn' = br_own pn" "br_ok pn'"
      "\<not> has_only_son pn \<Longrightarrow> \<not> is_leaf pn'" for pn'
    using p pa that by auto
  have updn: "nodes (upd_node p f ?s1) = (nodes s)(a := None, p \<mapsto> f ?pn1)" for f
    using pa by (auto simp: upd_node_def fun_eq_iff)
  have updo: "nodes_next (upd_node p f ?s1) = nodes_next s" "m_items (upd_node p f ?s1) = m_items s"
    "items_next (upd_node p f ?s1) = items_next s" for f
    by (simp_all add: upd_node_def)
  have unf: "erase_leaf s a =
      (if has_only_son pn then Some (Inr (upd_node p (br_set 1 0) ?s1, p))
       else if br_1st pn = ?bi then
         (case scan_up ?pn1 (?bi + 1) of Inl e \<Rightarrow> Some (Inl e)
          | Inr ix \<Rightarrow> Some (Inr (upd_node p (set_br_1st ix) ?s1, p)))
       else if br_last pn = ?bi then
         (if ?bi = 0 then Some (Inl OutOfRange)
          else (case scan_down ?pn1 (?bi - 1) of Inl e \<Rightarrow> Some (Inl e)
            | Inr ix \<Rightarrow> Some (Inr (upd_node p (set_br_last ix) ?s1, p))))
       else Some (Inr (?s1, p)))"
    unfolding erase_leaf_def using a p pa d by (simp add: Let_def)
  consider (one) "has_only_son pn"
    | (first) "\<not> has_only_son pn" "br_1st pn = ?bi"
    | (last) "\<not> has_only_son pn" "br_1st pn \<noteq> ?bi" "br_last pn = ?bi"
    | (mid) "\<not> has_only_son pn" "br_1st pn \<noteq> ?bi" "br_last pn \<noteq> ?bi" by blast
  then show ?thesis
  proof cases
    case one
    with res unf have r: "s' = upd_node p (br_set 1 0) ?s1" "nod' = p" by auto
    show ?thesis
      by (rule fin [of "br_set 1 0 ?pn1"]) (use R(1) [OF one] one in \<open>simp_all add: r updn updo\<close>)
  next
    case first
    from R(2) [OF first] obtain ix where ix: "scan_up ?pn1 (?bi + 1) = Inr ix" "ix < 16"
      "br_ok (set_br_1st ix ?pn1)" "\<not> is_leaf (set_br_1st ix ?pn1)" by blast
    with res unf first have r: "s' = upd_node p (set_br_1st ix) ?s1" "nod' = p" by auto
    show ?thesis
      by (rule fin [of "set_br_1st ix ?pn1"]) (use ix in \<open>simp_all add: r updn updo\<close>)
  next
    case last
    from R(3) [OF last] obtain ix where ix: "?bi \<noteq> 0" "scan_down ?pn1 (?bi - 1) = Inr ix" "ix < 16"
      "br_ok (set_br_last ix ?pn1)" "\<not> is_leaf (set_br_last ix ?pn1)" by blast
    with res unf last have r: "s' = upd_node p (set_br_last ix) ?s1" "nod' = p" by auto
    show ?thesis
      by (rule fin [of "set_br_last ix ?pn1"]) (use ix in \<open>simp_all add: r updn updo\<close>)
  next
    case mid
    with res unf have r: "s' = ?s1" "nod' = p" by auto
    have e: "(nodes s)(p \<mapsto> ?pn1, a := None) = (nodes s)(a := None, p \<mapsto> ?pn1)"
      using pa by (auto simp: fun_eq_iff)
    show ?thesis
      by (rule fin [of "?pn1"]) (use R(4) [OF mid] e in \<open>simp_all add: r\<close>)
  qed
qed

lemma remove_leaf_wfp:
  assumes wf: "trie_inv X s pth" and a: "nodes s a = Some n" "is_leaf n" "a \<noteq> m_root"
    and p: "parent n = Some p" "nodes s p = Some pn" "branches pn (br_own n) = Some a" "p \<noteq> a"
    and s': "nodes s' = (nodes s)(a := None, p \<mapsto> pn')" "nodes_next s' = nodes_next s"
      "m_items s' = m_items s" "items_next s' = items_next s"
    and pn': "branches pn' = (branches pn)(br_own n := None)" "item pn' = item pn" "key pn' = key pn"
      "qlen pn' = qlen pn" "parent pn' = parent pn" "br_own pn' = br_own pn" "br_ok pn'"
  shows "trie_inv (insert p (X - {a})) s' pth"
proof (rule wfp_step [OF wf, where C = "{a, p}"])
  note W = wfpD [OF wf]
  note N = node_okD [OF W(2) [OF a(1)]]
  note P = node_okD [OF W(2) [OF p(2)]]
  have leafb: "branches n i = None" for i using br_ok_leafD [OF N(2) a(2)] .
  have at_p: "nodes s' p = Some pn'" using s'(1) by simp
  have at_a: "nodes s' a = None" using s'(1) p(4) by simp
  have unch: "nodes s' b = nodes s b" if "b \<noteq> a" "b \<noteq> p" for b using that s'(1) by simp
  show "\<exists>r. nodes s' m_root = Some r \<and> qlen r = 0 \<and> parent r = None"
  proof (cases "m_root = p")
    case True
    with W(1) p(2) at_p pn' show ?thesis by auto
  next
    case False
    with unch [of m_root] a(3) W(1) show ?thesis by auto
  qed
  show "nodes s' b = nodes s b \<and> pth b = pth b" if "b \<notin> {a, p}" for b using that unch by simp
  show "node_ok (insert p (X - {a})) s' pth b mb" if "b \<in> {a, p}" "nodes s' b = Some mb" for b mb
  proof -
    from that at_a at_p have b: "b = p" "mb = pn'" by auto
    show ?thesis unfolding b
    proof (rule node_okI)
      show "p < nodes_next s'" using P(1) s'(2) by simp
      show "br_ok pn'" by (rule pn')
      show "\<exists>cn. nodes s' c = Some cn \<and> parent cn = Some p \<and> br_own cn = i \<and> qlen pn' < qlen cn \<and>
              take (Suc (qlen pn')) (pth c) = pth p @ [i]" if "branches pn' i = Some c" for i c
      proof -
        from that pn'(1) have i: "i \<noteq> br_own n" "branches pn i = Some c"
          by (simp_all split: if_splits)
        from P(3) [OF i(2)] obtain cn where cn: "nodes s c = Some cn" "parent cn = Some p"
          "br_own cn = i" "qlen pn < qlen cn" "take (Suc (qlen pn)) (pth c) = pth p @ [i]" by blast
        have "c \<noteq> a" using cn(1,3) a(1) i(1) by auto
        moreover have "c \<noteq> p" using child_distinct [OF W(2) [OF p(2)] i(2)] .
        ultimately have "nodes s' c = Some cn" using unch cn(1) by simp
        with cn pn' show ?thesis by simp
      qed
      show "\<exists>g gn. parent pn' = Some g \<and> nodes s' g = Some gn \<and> branches gn (br_own pn') = Some p"
        if "p \<noteq> m_root"
      proof -
        from P(4) [OF that] obtain g gn where g: "parent pn = Some g" "nodes s g = Some gn"
          "branches gn (br_own pn) = Some p" by blast
        have "g \<noteq> p" using child_distinct [OF W(2) [OF g(2)] g(3)] by simp
        moreover have "g \<noteq> a" using g(2,3) a(1) leafb by auto
        ultimately have "nodes s' g = Some gn" using unch g(2) by simp
        with g pn' show ?thesis by simp
      qed
      show "key pn' = Some h \<and> m_items s' h \<noteq> None" if "item pn' = Some h" for h
        using that P(6) [of h] pn' s' by simp
      show "h < items_next s'" if "key pn' = Some h" for h using that P(7) [of h] pn' s' by simp
      show "length (pth p) = qlen pn'" using P(8) pn' by simp
      show "x < 16" if "x \<in> set (pth p)" for x using P(9) that by simp
      show "qlen pn' \<le> 2 * length (fst e) \<and> take (qlen pn') (nibbles (fst e)) = pth p"
        if "key pn' = Some h" "m_items s' h = Some e" for h e
        using that P(10) [of h e] pn' s' by simp
    qed simp_all
  qed
  show "\<exists>cn'. nodes s' c = Some cn' \<and> parent cn' = parent cn \<and> br_own cn' = br_own cn \<and>
              qlen cn' = qlen cn \<and> pth c = pth c"
    if "c \<in> {a, p}" "nodes s c = Some cn" "parent cn = Some g" "g \<notin> {a, p}" for c cn g
    using that a p at_p pn' by auto
  show "\<exists>pm'. nodes s' q = Some pm' \<and> branches pm' i = Some c"
    if "q \<in> {a, p}" "nodes s q = Some pm" "branches pm i = Some c" "c \<notin> {a, p}" for q pm i c
  proof -
    from that a(1) leafb have q: "q = p" "pm = pn" using p(2) by auto
    with that p(3) have "i \<noteq> br_own n" by auto
    with that q at_p pn' show ?thesis by simp
  qed
  show "m_items s h = Some e" if "m_items s' h = Some e" for h e using that s' by simp
  show "m_items s' h \<noteq> None" if "nodes s b = Some mb" "item mb = Some h" for b mb h
    using wfp_item_lt(2) [OF wf that] s' by simp
  show "h < items_next s'" if "m_items s' h = Some e" for h e using that W(4) [of h e] s' by simp
  show "nodes_next s \<le> nodes_next s'" "items_next s \<le> items_next s'" using s' by simp_all
  show "b = c" if "b \<in> {a, p}" "nodes s' b = Some mb" "item mb = Some h"
    "nodes s' c = Some mc" "item mc = Some h" for b mb h c mc
  proof -
    from that at_a at_p have b: "b = p" "mb = pn'" by auto
    show ?thesis
    proof (cases "c = p")
      case True
      with b show ?thesis by simp
    next
      case False
      with that at_a have "c \<noteq> a" by auto
      with False unch that have "nodes s c = Some mc" by simp
      from W(3) [OF p(2) this _ that(5)] that(3) b pn' show ?thesis by simp
    qed
  qed
  show "b \<in> insert p (X - {a})" if "b \<notin> {a, p}" "b \<in> X" for b using that by simp
qed

lemma erase_leaf_wfp:
  assumes wf: "trie_inv X s pth" and a: "nodes s a = Some n"
    and res: "erase_leaf s a = Some (Inr (s', nod'))"
  shows "if is_leaf n \<and> a \<noteq> m_root
         then trie_inv (insert nod' (X - {a})) s' pth \<and> m_items s' = m_items s \<and>
           items_next s' = items_next s \<and> nod' \<noteq> a \<and>
           (\<exists>m. nodes s' nod' = Some m \<and>
              (nod' \<notin> X \<longrightarrow> nod' \<noteq> m_root \<longrightarrow> item m = None \<longrightarrow> \<not> is_leaf m))
         else s' = s \<and> nod' = a"
proof (cases "is_leaf n \<and> a \<noteq> m_root")
  case True
  then have l: "is_leaf n" "a \<noteq> m_root" by simp_all
  from erase_leaf_eff [OF wf a l res] obtain p pn pn' where
    p: "parent n = Some p" "nodes s p = Some pn" "branches pn (br_own n) = Some a" "p \<noteq> a"
    and nod': "nod' = p"
    and s': "nodes s' = (nodes s)(a := None, p \<mapsto> pn')" "nodes_next s' = nodes_next s"
      "m_items s' = m_items s" "items_next s' = items_next s"
    and pn': "branches pn' = (branches pn)(br_own n := None)" "item pn' = item pn" "key pn' = key pn"
      "qlen pn' = qlen pn" "parent pn' = parent pn" "br_own pn' = br_own pn" "br_ok pn'"
    and nl: "\<not> has_only_son pn \<longrightarrow> \<not> is_leaf pn'" by blast
  have 1: "trie_inv (insert nod' (X - {a})) s' pth" unfolding nod'
    by (rule remove_leaf_wfp [OF wf a l p s' pn'])
  have 2: "nodes s' nod' = Some pn'" using s'(1) nod' by simp
  have 3: "\<not> is_leaf pn'" if "nod' \<notin> X" "nod' \<noteq> m_root" "item pn' = None"
  proof -
    from node_okD(5) [OF wfpD(2) [OF wf p(2)]] that nod' pn' have "br_1st pn < br_last pn" by simp
    then have "\<not> has_only_son pn" by (simp add: has_only_son_def)
    with nl show ?thesis by simp
  qed
  from 2 3 have "\<exists>m. nodes s' nod' = Some m \<and>
      (nod' \<notin> X \<longrightarrow> nod' \<noteq> m_root \<longrightarrow> item m = None \<longrightarrow> \<not> is_leaf m)" by auto
  with 1 s'(3,4) p(4) nod' show ?thesis unfolding if_P [OF True] by (intro conjI) simp_all
next
  case False
  with res a have "s' = s \<and> nod' = a" unfolding erase_leaf_def by (auto split: if_splits)
  then show ?thesis unfolding if_not_P [OF False] .
qed

subsection \<open>Splicing out an interim node with an only son\<close>

lemma br_ok_cong:
  assumes "br_ok n" "branches n' = branches n" "br_1st n' = br_1st n" "br_last n' = br_last n"
  shows "br_ok n'"
  using assms unfolding br_ok_def is_leaf_def by simp

lemma br_ok_replace:
  assumes ok: "br_ok pn" and c: "branches pn bi = Some x"
  shows "br_ok (pn\<lparr>branches := (branches pn)(bi := Some y)\<rparr>)"
proof -
  let ?m = "pn\<lparr>branches := (branches pn)(bi := Some y)\<rparr>"
  have nl: "\<not> is_leaf pn" using br_ok_leafD [OF ok, of bi] c by auto
  note B = br_ok_nonleafD [OF ok nl]
  have nl': "\<not> is_leaf ?m" using nl by simp
  show ?thesis
  proof (rule br_okI_nonleaf [OF nl'])
    show "i < 16" if "branches ?m i = Some c'" for i c'
      using that br_ok_lt [OF ok, of i] c by (cases "i = bi") auto
    show "branches ?m (br_1st ?m) \<noteq> None" using B(1) by simp
    show "branches ?m (br_last ?m) \<noteq> None" using B(2) by simp
    show "br_1st ?m \<le> i \<and> i \<le> br_last ?m" if "branches ?m i \<noteq> None" for i
      using that B(3) [of i] c by (cases "i = bi") auto
  qed
qed

lemma only_son:
  assumes ok: "br_ok n" and o: "has_only_son n"
  shows "\<exists>c. branches n (br_1st n) = Some c" and "branches n i = Some c' \<Longrightarrow> i = br_1st n"
proof -
  have nl: "\<not> is_leaf n" using o by (simp add: has_only_son_def is_leaf_def)
  note B = br_ok_nonleafD [OF ok nl]
  show "\<exists>c. branches n (br_1st n) = Some c" using B(1) by auto
  show "i = br_1st n" if "branches n i = Some c'"
    using B(3) [of i] that o by (simp add: has_only_son_def)
qed

lemma erase_only_son_eff:
  assumes wf: "trie_inv X s pth" and a: "nodes s nod = Some n" "has_only_son n" "item n = None"
      "nod \<noteq> m_root"
    and res: "erase_only_son s nod = Some (Inr (s', nod'))"
  shows "\<exists>p pn c cn. parent n = Some p \<and> nodes s p = Some pn \<and> branches pn (br_own n) = Some nod \<and>
     branches n (br_1st n) = Some c \<and> nodes s c = Some cn \<and> p \<noteq> nod \<and> c \<noteq> nod \<and> c \<noteq> p \<and>
     nod' = p \<and>
     nodes s' = (nodes s)(nod := None,
        p \<mapsto> pn\<lparr>branches := (branches pn)(br_own n := Some c)\<rparr>,
        c \<mapsto> set_br_own (br_own n) (cn\<lparr>parent := Some p\<rparr>)) \<and>
     nodes_next s' = nodes_next s \<and> m_items s' = m_items s \<and> items_next s' = items_next s"
proof -
  note W = wfpD [OF wf]
  note N = node_okD [OF W(2) [OF a(1)]]
  from N(4) [OF a(4)] obtain p pn where p: "parent n = Some p" "nodes s p = Some pn"
    "branches pn (br_own n) = Some nod" by blast
  from only_son(1) [OF N(2) a(2)] obtain c where c: "branches n (br_1st n) = Some c" by blast
  from N(3) [OF c] obtain cn where cn: "nodes s c = Some cn" "parent cn = Some nod"
    "qlen n < qlen cn" by blast
  from node_okD(3) [OF W(2) [OF p(2)] p(3)] a(1) have q: "qlen pn < qlen n" by auto
  have pn: "p \<noteq> nod" using child_distinct [OF W(2) [OF p(2)] p(3)] by simp
  have cnod: "c \<noteq> nod" using child_distinct [OF W(2) [OF a(1)] c] .
  have cp: "c \<noteq> p" using q cn(1,3) p(2) by auto
  let ?bi = "br_own n"
  let ?n1 = "n\<lparr>branches := (branches n)(br_1st n := None)\<rparr>"
  let ?pn2 = "pn\<lparr>branches := (branches pn)(?bi := Some c)\<rparr>"
  let ?h2 = "(nodes s)(nod \<mapsto> ?n1, p \<mapsto> ?pn2)"
  have n1: "branches ?n1 i = None" for i
    using only_son(2) [OF N(2) a(2), of i] by (cases "branches n i") auto
  have "?h2 nod = Some ?n1" using pn by simp
  then have d: "destroy [nod] ?h2 = Some (Inr (?h2(nod := None)))"
    using n1 by (rule destroy_leaf [where h = ?h2 and a = nod and n = ?n1])
  have "erase_only_son s nod =
      Some (Inr (upd_node c (set_br_own ?bi)
                  (upd_node c (\<lambda>m. m\<lparr>parent := Some p\<rparr>) (s\<lparr>nodes := ?h2(nod := None)\<rparr>)), p))"
    unfolding erase_only_son_def using a p c cn(1) pn cnod cp d
    by (simp add: Let_def upd_node_def)
  with res have r: "s' = upd_node c (set_br_own ?bi)
      (upd_node c (\<lambda>m. m\<lparr>parent := Some p\<rparr>) (s\<lparr>nodes := ?h2(nod := None)\<rparr>))" "nod' = p"
    by auto
  have "nodes s' = (nodes s)(nod := None, p \<mapsto> ?pn2, c \<mapsto> set_br_own ?bi (cn\<lparr>parent := Some p\<rparr>))"
    unfolding r using pn cnod cp cn(1) by (auto simp: upd_node_def fun_eq_iff)
  moreover have "nodes_next s' = nodes_next s" "m_items s' = m_items s" "items_next s' = items_next s"
    unfolding r by (simp_all add: upd_node_def)
  ultimately show ?thesis using p c cn(1) pn cnod cp r(2) by blast
qed

lemma splice_wfp:
  assumes wf: "trie_inv X s pth" and a: "nodes s nod = Some n" "has_only_son n" "item n = None"
      "nod \<noteq> m_root"
    and p: "parent n = Some p" "nodes s p = Some pn" "branches pn (br_own n) = Some nod"
    and c: "branches n (br_1st n) = Some c" "nodes s c = Some cn"
    and s': "nodes s' = (nodes s)(nod := None,
        p \<mapsto> pn\<lparr>branches := (branches pn)(br_own n := Some c)\<rparr>,
        c \<mapsto> set_br_own (br_own n) (cn\<lparr>parent := Some p\<rparr>))"
      "nodes_next s' = nodes_next s" "m_items s' = m_items s" "items_next s' = items_next s"
  shows "trie_inv (X - {nod}) s' pth"
proof (rule wfp_step [OF wf, where C = "{nod, p, c}"])
  let ?bi = "br_own n"
  let ?pn2 = "pn\<lparr>branches := (branches pn)(?bi := Some c)\<rparr>"
  let ?cn2 = "set_br_own ?bi (cn\<lparr>parent := Some p\<rparr>)"
  note W = wfpD [OF wf]
  note N = node_okD [OF W(2) [OF a(1)]]
  note P = node_okD [OF W(2) [OF p(2)]]
  note C = node_okD [OF W(2) [OF c(2)]]
  from child_edge [OF wf p(2,3)] a(1) have e1: "qlen pn < qlen n" "pth p = take (qlen pn) (pth nod)"
    "pth nod ! qlen pn = ?bi" "?bi < 16" by auto
  from child_edge [OF wf a(1) c(1)] c(2) have e2: "parent cn = Some nod" "qlen n < qlen cn"
    "pth nod = take (qlen n) (pth c)" by auto
  have pn: "p \<noteq> nod" using child_distinct [OF W(2) [OF p(2)] p(3)] by simp
  have cnod: "c \<noteq> nod" using child_distinct [OF W(2) [OF a(1)] c(1)] .
  have cneqp: "c \<noteq> p" using e1(1) e2(2) c(2) p(2) by auto
  have at_nod: "nodes s' nod = None" using s'(1) pn cnod by simp
  have at_p: "nodes s' p = Some ?pn2" using s'(1) cneqp by simp
  have at_c: "nodes s' c = Some ?cn2" using s'(1) by simp
  have unch: "nodes s' b = nodes s b" if "b \<noteq> nod" "b \<noteq> p" "b \<noteq> c" for b using that s'(1) by simp
  have only: "i = br_1st n \<and> d = c" if "branches n i = Some d" for i d
    using only_son(2) [OF N(2) a(2) that] that c(1) by simp
  have croot: "c \<noteq> m_root" using wfp_root(3) [OF wf c(2)] e2(1) by simp
  have same_item: "\<exists>m. nodes s b = Some m \<and> item m = item m'" if "nodes s' b = Some m'" for b m'
  proof -
    consider "b = nod" | "b = p" | "b = c" | "b \<noteq> nod" "b \<noteq> p" "b \<noteq> c" by blast
    then show ?thesis
    proof cases
      case 1 with that at_nod show ?thesis by simp
    next
      case 2 with that at_p p(2) show ?thesis by auto
    next
      case 3 with that at_c c(2) show ?thesis by auto
    next
      case 4 with that unch show ?thesis by simp
    qed
  qed
  show "\<exists>r. nodes s' m_root = Some r \<and> qlen r = 0 \<and> parent r = None"
  proof (cases "m_root = p")
    case True
    with W(1) p(2) at_p show ?thesis by auto
  next
    case False
    with unch [of m_root] a(4) croot W(1) show ?thesis by auto
  qed
  show "nodes s' b = nodes s b \<and> pth b = pth b" if "b \<notin> {nod, p, c}" for b using that unch by simp
  show "node_ok (X - {nod}) s' pth b mb" if "b \<in> {nod, p, c}" "nodes s' b = Some mb" for b mb
  proof -
    from that at_nod at_p at_c consider (cp) "b = p" "mb = ?pn2" | (cc) "b = c" "mb = ?cn2" by auto
    then show ?thesis
    proof cases
      case cp
      show ?thesis unfolding cp
      proof (rule node_okI)
        show "p < nodes_next s'" using P(1) s'(2) by simp
        show "br_ok ?pn2" by (rule br_ok_replace [OF P(2) p(3)])
        show "\<exists>dn. nodes s' d = Some dn \<and> parent dn = Some p \<and> br_own dn = i \<and> qlen ?pn2 < qlen dn \<and>
                take (Suc (qlen ?pn2)) (pth d) = pth p @ [i]" if "branches ?pn2 i = Some d" for i d
        proof (cases "i = ?bi")
          case True
          with that have d: "d = c" by simp
          from P(3) [OF p(3)] a(1) have "take (Suc (qlen pn)) (pth nod) = pth p @ [?bi]" by auto
          moreover have "take (Suc (qlen pn)) (pth nod) = take (Suc (qlen pn)) (pth c)"
            using e1(1) by (subst e2(3)) (simp add: min_def)
          ultimately have "take (Suc (qlen pn)) (pth c) = pth p @ [?bi]" by simp
          with at_c e1(1,4) e2(2) True d show ?thesis by simp
        next
          case False
          with that have b: "branches pn i = Some d" by simp
          from P(3) [OF b] obtain dn where dn: "nodes s d = Some dn" "parent dn = Some p"
            "br_own dn = i" "qlen pn < qlen dn" "take (Suc (qlen pn)) (pth d) = pth p @ [i]" by blast
          have "d \<noteq> nod" using dn(1,3) a(1) False by auto
          moreover have "d \<noteq> p" using child_distinct [OF W(2) [OF p(2)] b] .
          moreover have "d \<noteq> c" using dn(1,2) c(2) e2(1) pn by auto
          ultimately have "nodes s' d = Some dn" using unch dn(1) by simp
          with dn show ?thesis by simp
        qed
        show "\<exists>g gn. parent ?pn2 = Some g \<and> nodes s' g = Some gn \<and> branches gn (br_own ?pn2) = Some p"
          if "p \<noteq> m_root"
        proof -
          from parent_edge [OF wf p(2) that] obtain g gn where g: "parent pn = Some g"
            "nodes s g = Some gn" "branches gn (br_own pn) = Some p" "qlen gn < qlen pn" by blast
          have "g \<noteq> p" using child_distinct [OF W(2) [OF g(2)] g(3)] by simp
          moreover have "g \<noteq> nod" using g(2,3) a(1) only [of "br_own pn" p] cneqp by auto
          moreover have "g \<noteq> c" using g(2,4) c(2) e1(1) e2(2) by auto
          ultimately have "nodes s' g = Some gn" using unch g(2) by simp
          with g show ?thesis by simp
        qed
        show "br_1st ?pn2 < br_last ?pn2" if "p \<noteq> m_root" "p \<notin> X - {nod}" "item ?pn2 = None"
          using P(5) that pn by simp
        show "key ?pn2 = Some h \<and> m_items s' h \<noteq> None" if "item ?pn2 = Some h" for h
          using that P(6) [of h] s' by simp
        show "h < items_next s'" if "key ?pn2 = Some h" for h using that P(7) [of h] s' by simp
        show "length (pth p) = qlen ?pn2" using P(8) by simp
        show "x < 16" if "x \<in> set (pth p)" for x using P(9) that by simp
        show "qlen ?pn2 \<le> 2 * length (fst e) \<and> take (qlen ?pn2) (nibbles (fst e)) = pth p"
          if "key ?pn2 = Some h" "m_items s' h = Some e" for h e
          using that P(10) [of h e] s' by simp
      qed
    next
      case cc
      show ?thesis unfolding cc
      proof (rule node_okI)
        show "c < nodes_next s'" using C(1) s'(2) by simp
        show "br_ok ?cn2" by (rule br_ok_cong [OF C(2)]) (use e1(4) in simp_all)
        show "\<exists>dn. nodes s' d = Some dn \<and> parent dn = Some c \<and> br_own dn = i \<and> qlen ?cn2 < qlen dn \<and>
                take (Suc (qlen ?cn2)) (pth d) = pth c @ [i]" if "branches ?cn2 i = Some d" for i d
        proof -
          from that have b: "branches cn i = Some d" by simp
          from C(3) [OF b] obtain dn where dn: "nodes s d = Some dn" "parent dn = Some c"
            "br_own dn = i" "qlen cn < qlen dn" "take (Suc (qlen cn)) (pth d) = pth c @ [i]" by blast
          have "d \<noteq> nod" using dn(1,2) a(1) p(1) cneqp by auto
          moreover have "d \<noteq> p" using dn(1,4) p(2) e1(1) e2(2) by auto
          moreover have "d \<noteq> c" using child_distinct [OF W(2) [OF c(2)] b] .
          ultimately have "nodes s' d = Some dn" using unch dn(1) by simp
          with dn show ?thesis by simp
        qed
        show "\<exists>g gn. parent ?cn2 = Some g \<and> nodes s' g = Some gn \<and> branches gn (br_own ?cn2) = Some c"
          using at_p e1(4) by simp
        show "br_1st ?cn2 < br_last ?cn2" if "c \<noteq> m_root" "c \<notin> X - {nod}" "item ?cn2 = None"
          using C(5) that cnod e1(4) by simp
        show "key ?cn2 = Some h \<and> m_items s' h \<noteq> None" if "item ?cn2 = Some h" for h
          using that C(6) [of h] s' by simp
        show "h < items_next s'" if "key ?cn2 = Some h" for h using that C(7) [of h] s' by simp
        show "length (pth c) = qlen ?cn2" using C(8) by simp
        show "x < 16" if "x \<in> set (pth c)" for x using C(9) that by simp
        show "qlen ?cn2 \<le> 2 * length (fst e) \<and> take (qlen ?cn2) (nibbles (fst e)) = pth c"
          if "key ?cn2 = Some h" "m_items s' h = Some e" for h e
          using that C(10) [of h e] s' by simp
      qed
    qed
  qed
  show "\<exists>cn'. nodes s' d = Some cn' \<and> parent cn' = parent dn \<and> br_own cn' = br_own dn \<and>
              qlen cn' = qlen dn \<and> pth d = pth d"
    if "d \<in> {nod, p, c}" "nodes s d = Some dn" "parent dn = Some g" "g \<notin> {nod, p, c}" for d dn g
    using that a(1) p(1,2) c(2) e2(1) at_p by auto
  show "\<exists>pm'. nodes s' q = Some pm' \<and> branches pm' i = Some d"
    if "q \<in> {nod, p, c}" "nodes s q = Some pm" "branches pm i = Some d" "d \<notin> {nod, p, c}" for q pm i d
  proof -
    from that(1) consider "q = nod" | "q = p" | "q = c" by blast
    then show ?thesis
    proof cases
      case 1 with that a(1) only [of i d] show ?thesis by auto
    next
      case 2
      with that p(2,3) have "i \<noteq> ?bi" by auto
      with 2 that p(2) at_p show ?thesis by auto
    next
      case 3 with that c(2) at_c show ?thesis by auto
    qed
  qed
  show "m_items s h = Some e" if "m_items s' h = Some e" for h e using that s' by simp
  show "m_items s' h \<noteq> None" if "nodes s b = Some mb" "item mb = Some h" for b mb h
    using wfp_item_lt(2) [OF wf that] s' by simp
  show "h < items_next s'" if "m_items s' h = Some e" for h e using that W(4) [of h e] s' by simp
  show "nodes_next s \<le> nodes_next s'" "items_next s \<le> items_next s'" using s' by simp_all
  show "b = d" if "nodes s' b = Some mb" "item mb = Some h"
    "nodes s' d = Some md" "item md = Some h" for b mb h d md
  proof -
    from same_item [OF that(1)] that(2) obtain m1 where m1: "nodes s b = Some m1" "item m1 = Some h"
      by auto
    from same_item [OF that(3)] that(4) obtain m2 where m2: "nodes s d = Some m2" "item m2 = Some h"
      by auto
    from W(3) [OF m1(1) m2(1) m1(2) m2(2)] show ?thesis .
  qed
  show "b \<in> X - {nod}" if "b \<notin> {nod, p, c}" "b \<in> X" for b using that by simp
qed

lemma erase_only_son_wfp:
  assumes wf: "trie_inv X s pth" and a: "nodes s nod = Some n"
    and res: "erase_only_son s nod = Some (Inr (s', nod'))"
  shows "if has_only_son n \<and> item n = None \<and> nod \<noteq> m_root
         then trie_inv (X - {nod}) s' pth \<and> m_items s' = m_items s \<and> items_next s' = items_next s \<and>
           (\<exists>m. nodes s' nod' = Some m)
         else s' = s \<and> nod' = nod"
proof (cases "has_only_son n \<and> item n = None \<and> nod \<noteq> m_root")
  case True
  then have l: "has_only_son n" "item n = None" "nod \<noteq> m_root" by simp_all
  from erase_only_son_eff [OF wf a l res] obtain p pn c cn where
    p: "parent n = Some p" "nodes s p = Some pn" "branches pn (br_own n) = Some nod"
    and c: "branches n (br_1st n) = Some c" "nodes s c = Some cn"
    and d: "p \<noteq> nod" "c \<noteq> nod" "c \<noteq> p"
    and nod': "nod' = p"
    and s': "nodes s' = (nodes s)(nod := None,
        p \<mapsto> pn\<lparr>branches := (branches pn)(br_own n := Some c)\<rparr>,
        c \<mapsto> set_br_own (br_own n) (cn\<lparr>parent := Some p\<rparr>))"
      "nodes_next s' = nodes_next s" "m_items s' = m_items s" "items_next s' = items_next s"
    by blast
  have 1: "trie_inv (X - {nod}) s' pth" by (rule splice_wfp [OF wf a l p c s'])
  have 2: "\<exists>m. nodes s' nod' = Some m" using s'(1) nod' d by simp
  from 1 2 s'(3,4) show ?thesis unfolding if_P [OF True] by (intro conjI)
next
  case False
  with res a have "s' = s \<and> nod' = nod" unfolding erase_only_son_def by (auto split: if_splits)
  then show ?thesis unfolding if_not_P [OF False] .
qed

subsection \<open>Re-borrowing keys, and \<open>erase\<close> as a whole\<close>

lemma take_prefix_fit:
  assumes "length xs \<le> n" "take (length xs) ys = xs"
  shows "length (take m xs) \<le> n \<and> take (length (take m xs)) ys = take m xs"
proof -
  have "take (min m (length xs)) ys = take m (take (length xs) ys)" by (simp only: take_take)
  also have "\<dots> = take m xs" by (simp only: assms(2))
  finally show ?thesis using assms(1) by (simp add: min.commute)
qed

lemma key_fits_take: "key_fits s kp xs \<Longrightarrow> key_fits s kp (take m xs)"
  unfolding key_fits_def using take_prefix_fit by blast

lemma key_fits_cong:
  "key_fits s kp xs \<Longrightarrow> m_items s' = m_items s \<Longrightarrow> items_next s' = items_next s \<Longrightarrow>
   key_fits s' kp xs"
  unfolding key_fits_def by simp

lemma key_fits_node:
  assumes wf: "trie_inv X s pth" and a: "nodes s a = Some n"
  shows "key_fits s (key n) (pth a)"
proof -
  note N = node_okD [OF wfpD(2) [OF wf a]]
  show ?thesis unfolding key_fits_def using N(7) N(10) N(8) by auto
qed

lemma rekey_step_wfp:
  assumes wf: "trie_inv X s pth" and a: "nodes s a = Some n" "item n = None"
    and fit: "key_fits s kp (pth a)"
    and s': "nodes s' = (nodes s)(a \<mapsto> n\<lparr>key := kp\<rparr>)" "nodes_next s' = nodes_next s"
      "m_items s' = m_items s" "items_next s' = items_next s"
  shows "trie_inv X s' pth"
proof (rule wfp_step [OF wf, where C = "{a}"])
  let ?n' = "n\<lparr>key := kp\<rparr>"
  note W = wfpD [OF wf]
  note N = node_okD [OF W(2) [OF a(1)]]
  have at_a: "nodes s' a = Some ?n'" using s'(1) by simp
  have unch: "nodes s' b = nodes s b" if "b \<noteq> a" for b using that s'(1) by simp
  show "\<exists>r. nodes s' m_root = Some r \<and> qlen r = 0 \<and> parent r = None"
    using W(1) a at_a unch [of m_root] by (cases "m_root = a") auto
  show "nodes s' b = nodes s b \<and> pth b = pth b" if "b \<notin> {a}" for b using that unch by simp
  show "node_ok X s' pth b mb" if "b \<in> {a}" "nodes s' b = Some mb" for b mb
  proof -
    from that at_a have b: "b = a" "mb = ?n'" by simp_all
    show ?thesis unfolding b
    proof (rule node_okI)
      show "a < nodes_next s'" using N(1) s'(2) by simp
      show "br_ok ?n'" using N(2) by (rule br_ok_cong) simp_all
      show "\<exists>cn. nodes s' c = Some cn \<and> parent cn = Some a \<and> br_own cn = i \<and> qlen ?n' < qlen cn \<and>
              take (Suc (qlen ?n')) (pth c) = pth a @ [i]" if "branches ?n' i = Some c" for i c
      proof -
        from that have b: "branches n i = Some c" by simp
        from child_distinct [OF W(2) [OF a(1)] b] N(3) [OF b] unch [of c] show ?thesis by simp
      qed
      show "\<exists>p pn. parent ?n' = Some p \<and> nodes s' p = Some pn \<and> branches pn (br_own ?n') = Some a"
        if "a \<noteq> m_root"
      proof -
        from N(4) [OF that] obtain p pn where p: "parent n = Some p" "nodes s p = Some pn"
          "branches pn (br_own n) = Some a" by blast
        from child_distinct [OF W(2) [OF p(2)] p(3)] p unch [of p] show ?thesis by simp
      qed
      show "br_1st ?n' < br_last ?n'" if "a \<noteq> m_root" "a \<notin> X" "item ?n' = None"
        using N(5) that by simp
      show "key ?n' = Some h \<and> m_items s' h \<noteq> None" if "item ?n' = Some h" for h
        using that a(2) by simp
      show "h < items_next s'" if "key ?n' = Some h" for h
        using that fit s'(4) unfolding key_fits_def by simp
      show "length (pth a) = qlen ?n'" using N(8) by simp
      show "x < 16" if "x \<in> set (pth a)" for x using N(9) that by simp
      show "qlen ?n' \<le> 2 * length (fst e) \<and> take (qlen ?n') (nibbles (fst e)) = pth a"
        if "key ?n' = Some h" "m_items s' h = Some e" for h e
        using that fit s'(3) N(8) unfolding key_fits_def by (cases e) auto
    qed
  qed
  show "\<exists>cn'. nodes s' c = Some cn' \<and> parent cn' = parent cn \<and> br_own cn' = br_own cn \<and>
              qlen cn' = qlen cn \<and> pth c = pth c"
    if "c \<in> {a}" "nodes s c = Some cn" for c cn
    using that a at_a by simp
  show "\<exists>pn'. nodes s' p = Some pn' \<and> branches pn' i = Some c"
    if "p \<in> {a}" "nodes s p = Some pn" "branches pn i = Some c" for p pn i c
    using that a at_a by simp
  show "m_items s h' = Some e" if "m_items s' h' = Some e" for h' e using that s'(3) by simp
  show "m_items s' h' \<noteq> None" if "nodes s b = Some mb" "item mb = Some h'" for b mb h'
    using wfp_item_lt(2) [OF wf that] s'(3) by simp
  show "h' < items_next s'" if "m_items s' h' = Some e" for h' e
    using that s'(3,4) W(4) [of h' e] by simp
  show "nodes_next s \<le> nodes_next s'" "items_next s \<le> items_next s'" using s' by simp_all
  show "b = c" if "b \<in> {a}" "nodes s' b = Some mb" "item mb = Some h'" for b mb h' c
    using that at_a a(2) by auto
qed

lemma erase_rekey_wfp:
  assumes "trie_inv X s pth" "nodes s nod = Some n" "key_fits s kp (pth nod)"
    "erase_rekey s kp nod = Some (Inr s')"
  shows "trie_inv X s' pth \<and> m_items s' = m_items s \<and> items_next s' = items_next s"
  using assms
proof (induction "qlen n" arbitrary: s nod n rule: less_induct)
  case less
  note wf = less.prems(1) and a = less.prems(2) and fit = less.prems(3) and res = less.prems(4)
  show ?case
  proof (cases "item n = None \<and> nod \<noteq> m_root")
    case False
    with res a have "s' = s" by (subst (asm) erase_rekey.simps) (auto split: if_splits)
    with wf show ?thesis by simp
  next
    case True
    then have t: "item n = None" "nod \<noteq> m_root" by simp_all
    from parent_edge [OF wf a t(2)] obtain p pn where p: "parent n = Some p" "nodes s p = Some pn"
      "branches pn (br_own n) = Some nod" "qlen pn < qlen n" "pth p = take (qlen pn) (pth nod)"
      by blast
    have pa: "p \<noteq> nod" using p(2,4) a by auto
    let ?s1 = "upd_node nod (\<lambda>m. m\<lparr>key := kp\<rparr>) s"
    have s1: "nodes ?s1 = (nodes s)(nod \<mapsto> n\<lparr>key := kp\<rparr>)" "nodes_next ?s1 = nodes_next s"
      "m_items ?s1 = m_items s" "items_next ?s1 = items_next s"
      using a by (simp_all add: upd_node_def)
    have wf1: "trie_inv X ?s1 pth" by (rule rekey_step_wfp [OF wf a t(1) fit s1])
    have p1: "nodes ?s1 p = Some pn" using s1(1) pa p(2) by simp
    have fit1: "key_fits ?s1 kp (pth p)"
      unfolding p(5) by (rule key_fits_cong [OF key_fits_take [OF fit] s1(3,4)])
    from res a True p(1) have "erase_rekey ?s1 kp p = Some (Inr s')"
      by (subst (asm) erase_rekey.simps) simp
    from less.hyps [OF p(4) wf1 p1 fit1 this] s1(3,4) show ?thesis by simp
  qed
qed

lemma erase_key_wfp:
  assumes wf: "trie_inv X s pth" and a: "nodes s nod = Some n"
    and res: "erase_key s nod = Some (Inr s')"
  shows "trie_inv X s' pth \<and> m_items s' = m_items s \<and> items_next s' = items_next s"
proof (cases "\<not> is_leaf n \<and> item n = None \<and> nod \<noteq> m_root")
  case False
  with res a have "s' = s" unfolding erase_key_def by (auto split: if_splits)
  with wf show ?thesis by simp
next
  case True
  note N = node_okD [OF wfpD(2) [OF wf a]]
  from br_ok_nonleafD(1) [OF N(2)] True obtain c where c: "branches n (br_1st n) = Some c" by auto
  from child_edge [OF wf a c] obtain cn where cn: "nodes s c = Some cn"
    "pth nod = take (qlen n) (pth c)" by blast
  have "key_fits s (key cn) (pth nod)"
    unfolding cn(2) by (rule key_fits_take [OF key_fits_node [OF wf cn(1)]])
  moreover from res a True c cn(1) have "erase_rekey s (key cn) nod = Some (Inr s')"
    unfolding erase_key_def by (simp add: deref_def)
  ultimately show ?thesis using erase_rekey_wfp [OF wf a] by blast
qed

lemma erase_wfp:
  assumes wf: "trie_inv {} s pth" and res: "erase s iter = Some (Inr (s', it'))"
  shows "trie_inv {} s' pth"
proof -
  from res obtain nod where iter: "iter = Some nod"
    unfolding erase_def by (cases iter) auto
  from res iter obtain n where n: "nodes s nod = Some n"
    unfolding erase_def by (cases "nodes s nod") (auto split: option.splits sum.splits)
  from res iter n obtain h where h: "item n = Some h"
    unfolding erase_def by (cases "item n") (auto split: option.splits sum.splits)
  from res iter n h obtain e where e: "m_items s h = Some e"
    unfolding erase_def by (cases "m_items s h") (auto split: option.splits sum.splits)
  let ?s1 = "upd_node nod (\<lambda>m. m\<lparr>item := None\<rparr>) (s\<lparr>m_items := (m_items s)(h := None)\<rparr>)"
  let ?n1 = "n\<lparr>item := None\<rparr>"
  from res iter n h e obtain s2 nod2 s3 nod3 where
    r: "erase_leaf ?s1 nod = Some (Inr (s2, nod2))" "erase_only_son s2 nod2 = Some (Inr (s3, nod3))"
      "erase_key s3 nod3 = Some (Inr s')"
    unfolding erase_def by (simp split: option.splits sum.splits prod.splits)
  have s1: "nodes ?s1 = (nodes s)(nod \<mapsto> ?n1)" "nodes_next ?s1 = nodes_next s"
    "m_items ?s1 = (m_items s)(h := None)" "items_next ?s1 = items_next s"
    using n by (simp_all add: upd_node_def)
  have wf1: "trie_inv {nod} ?s1 pth" using unset_item_wfp [OF wf n h s1] by simp
  have n1: "nodes ?s1 nod = Some ?n1" using s1(1) by simp
  have "\<exists>m2. trie_inv {nod2} s2 pth \<and> nodes s2 nod2 = Some m2 \<and>
          (nod2 \<noteq> m_root \<longrightarrow> item m2 = None \<longrightarrow> \<not> is_leaf m2)"
  proof (cases "is_leaf ?n1 \<and> nod \<noteq> m_root")
    case True
    from erase_leaf_wfp [OF wf1 n1 r(1)] have "trie_inv (insert nod2 ({nod} - {nod})) s2 pth"
      "nod2 \<noteq> nod" "\<exists>m. nodes s2 nod2 = Some m \<and>
         (nod2 \<notin> {nod} \<longrightarrow> nod2 \<noteq> m_root \<longrightarrow> item m = None \<longrightarrow> \<not> is_leaf m)"
      unfolding if_P [OF True] by blast+
    then show ?thesis by auto
  next
    case False
    from erase_leaf_wfp [OF wf1 n1 r(1)] have "s2 = ?s1" "nod2 = nod"
      unfolding if_not_P [OF False] by blast+
    with wf1 n1 False show ?thesis by auto
  qed
  then obtain m2 where wf2: "trie_inv {nod2} s2 pth" and m2: "nodes s2 nod2 = Some m2"
    and nl: "nod2 \<noteq> m_root \<Longrightarrow> item m2 = None \<Longrightarrow> \<not> is_leaf m2" by auto
  have "\<exists>m3. trie_inv {} s3 pth \<and> nodes s3 nod3 = Some m3"
  proof (cases "has_only_son m2 \<and> item m2 = None \<and> nod2 \<noteq> m_root")
    case True
    from erase_only_son_wfp [OF wf2 m2 r(2)] have "trie_inv ({nod2} - {nod2}) s3 pth"
      "\<exists>m. nodes s3 nod3 = Some m" unfolding if_P [OF True] by blast+
    then show ?thesis by simp
  next
    case False
    from erase_only_son_wfp [OF wf2 m2 r(2)] have eq: "s3 = s2" "nod3 = nod2"
      unfolding if_not_P [OF False] by blast+
    have "trie_inv {} s2 pth"
    proof (rule wfp_shrink [OF wf2])
      show "br_1st m < br_last m"
        if "a \<in> {nod2}" "nodes s2 a = Some m" "a \<noteq> m_root" "item m = None" for a m
      proof -
        from that m2 have m: "a = nod2" "m = m2" by simp_all
        from nl that m have "\<not> is_leaf m2" by simp
        moreover from False that m have "\<not> has_only_son m2" by simp
        ultimately show ?thesis unfolding m by (simp add: is_leaf_def has_only_son_def)
      qed
    qed
    with eq m2 show ?thesis by simp
  qed
  then obtain m3 where wf3: "trie_inv {} s3 pth" and m3: "nodes s3 nod3 = Some m3" by auto
  from erase_key_wfp [OF wf3 m3 r(3)] show ?thesis by simp
qed

subsection \<open>Insertion as a whole\<close>

lemma insert_node_leaf_flag:
  "insert_node_leaf s len nod bi = Inr (pos, s1) \<Longrightarrow> \<not> pos_match pos"
  unfolding insert_node_leaf_def
  by (auto simp: Let_def pos_match_def split: option.splits sum.splits)

lemma insert_node_flag:
  assumes "insert_node s k len nod q = Inr (pos, s1)"
  shows "\<not> pos_match pos"
  using assms unfolding insert_node_def
  by (auto simp: Let_def pos_match_def dest: insert_node_leaf_flag
      split: option.splits sum.splits if_splits)

lemma set_item_here:
  assumes wf: "trie_inv {} s pth" and a: "nodes s a = Some m"
    and fit: "qlen m \<le> 2 * length k" "take (qlen m) (nibbles k) = pth a"
    and it: "insert_item (k, v) (Some a) s = Inr s'"
  shows "trie_inv {} s' pth"
proof -
  from it have s': "s' = s\<lparr>m_items := (m_items s)(items_next s \<mapsto> (k, v)),
      items_next := Suc (items_next s),
      nodes := (nodes s)(a \<mapsto> m\<lparr>key := Some (items_next s), item := Some (items_next s)\<rparr>)\<rparr>"
    unfolding insert_item_eff [OF a] by simp
  have "trie_inv ({} - {a}) s' pth"
    by (rule set_item_wfp [OF wf a fit]) (simp_all add: s')
  then show ?thesis by simp
qed

lemma trie_insert_wfp:
  assumes wf: "trie_inv {} s pth" and run: "trie_insert s (k, v) = Some (Inr (s', it'))"
  shows "\<exists>pth'. trie_inv {} s' pth'"
proof -
  from run obtain pos s1 where
    tr: "trace TRIE_KEY_TRACING_STRICT insert_node s k (length k) False = Some (Inr (pos, s1))"
    and it: "(if \<not> pos_match pos then insert_item (k, v) (pos_node pos) s1 else Inr s1) = Inr s'"
    unfolding trie_insert_def by (auto split: option.splits sum.splits)
  from trace_spec [OF wf _ tr] have "trace_res insert_node s pth k (Inr (pos, s1))" by simp
  then consider (miss) p q where "good_pos s pth k p q"
      "insert_node s k (length k) (Some p) q = Inr (pos, s1)"
    | (match) a n where "nodes s a = Some n" "qlen n = 2 * length k" "pth a = nibbles k"
      "pos = (Some a, 2 * length k, item n \<noteq> None)" "s1 = s"
    unfolding trace_res_def by auto
  then show ?thesis
  proof cases
    case miss
    from insert_node_flag [OF miss(2)] it have "insert_item (k, v) (pos_node pos) s1 = Inr s'"
      by simp
    from insert_node_wfp [OF wf miss this] show ?thesis .
  next
    case match
    show ?thesis
    proof (cases "item n = None")
      case True
      with it match have "insert_item (k, v) (Some a) s = Inr s'"
        by (simp add: pos_match_def pos_node_def)
      from set_item_here [OF wf match(1) _ _ this] match(2,3) show ?thesis
        by (auto simp: length_nibbles)
    next
      case False
      with it match have "s' = s" by (simp add: pos_match_def)
      with wf show ?thesis by blast
    qed
  qed
qed

lemma insert_at_wfp:
  assumes wf: "trie_inv {} s pth" and lb: "lower_bound kt s k (length k) = Some (Inr pos)"
    and run: "insert_at s (k, v) pos = Some (Inr (s', it'))"
  shows "\<exists>pth'. trie_inv {} s' pth'"
proof -
  from lb obtain s1 where tr: "trace kt search_position s k (length k) False = Some (Inr (pos, s1))"
    unfolding lower_bound_def by (auto split: option.splits sum.splits)
  from trace_spec [OF wf _ tr] have "trace_res search_position s pth k (Inr (pos, s1))" by simp
  then consider (miss) p q where "good_pos s pth k p q" "pos = (Some p, q, False)"
    | (match) a n where "nodes s a = Some n" "qlen n = 2 * length k" "pth a = nibbles k"
      "pos = (Some a, 2 * length k, item n \<noteq> None)"
    unfolding trace_res_def search_position_def by auto
  then show ?thesis
  proof cases
    case miss
    from miss(1) obtain pn where pn: "nodes s p = Some pn" "qlen pn \<le> 2 * length k"
      "take (qlen pn) (nibbles k) = pth p" unfolding good_pos_def by auto
    show ?thesis
    proof (cases "q = qlen pn")
      case True
      with run miss(2) pn(1) have "insert_item (k, v) (Some p) s = Inr s'"
        unfolding insert_at_def
        by (auto simp: pos_match_def pos_node_def pos_qlen_def deref_def
            split: option.splits sum.splits)
      from set_item_here [OF wf pn this] show ?thesis by blast
    next
      case False
      with run miss(2) pn(1) obtain pos1 s1 where
        "insert_node s k (length k) (Some p) q = Inr (pos1, s1)"
        "insert_item (k, v) (pos_node pos1) s1 = Inr s'"
        unfolding insert_at_def
        by (auto simp: pos_match_def pos_node_def pos_qlen_def deref_def
            split: option.splits sum.splits)
      from insert_node_wfp [OF wf miss(1) this] show ?thesis .
    qed
  next
    case match
    from run match have "insert_item (k, v) (Some a) s = Inr s'"
      unfolding insert_at_def
      by (auto simp: pos_match_def pos_node_def pos_qlen_def deref_def
          split: option.splits sum.splits if_splits)
    from set_item_here [OF wf match(1) _ _ this] match(2,3) show ?thesis
      by (auto simp: length_nibbles)
  qed
qed

lemma trie_new_wfp: "trie_inv {} trie_new (\<lambda>_. [])"
proof (rule wfpI)
  show "\<exists>r. nodes trie_new m_root = Some r \<and> qlen r = 0 \<and> parent r = None"
    by (simp add: trie_new_def)
  show "node_ok {} trie_new (\<lambda>_. []) a n" if "nodes trie_new a = Some n" for a n
  proof -
    from that have a: "a = m_root" "n = new_node None None 0 None 0 1 0"
      by (auto simp: trie_new_def split: if_splits)
    show ?thesis unfolding a
    proof (rule node_okI)
      show "br_ok (new_node None None 0 None 0 1 0)"
        by (rule br_okI_leaf) (simp_all add: is_leaf_def)
    qed (simp_all add: trie_new_def)
  qed
  show "a = b" if "nodes trie_new a = Some n" "nodes trie_new b = Some m" for a b n m
    using that by (auto simp: trie_new_def split: if_splits)
  show "h < items_next trie_new" if "m_items trie_new h = Some e" for h e
    using that by (simp add: trie_new_def)
qed

subsection \<open>Reachable tries\<close>

lemma reach_all_wfp: "reach_all s \<Longrightarrow> \<exists>pth. trie_inv {} s pth"
proof (induction rule: reach_all.induct)
  case ra_new
  show ?case using trie_new_wfp by blast
next
  case (ra_insert s e s' it)
  then obtain pth where "trie_inv {} s pth" by blast
  from trie_insert_wfp [OF this, of "fst e" "snd e"] ra_insert(2) show ?case by simp
next
  case (ra_insert_at s kt e pos s' it)
  then obtain pth where "trie_inv {} s pth" by blast
  from insert_at_wfp [OF this ra_insert_at(2), of "snd e"] ra_insert_at(3) show ?case by simp
next
  case (ra_erase s it s' it')
  then obtain pth where "trie_inv {} s pth" by blast
  from erase_wfp [OF this ra_erase(2)] show ?case by blast
qed

lemma run_reach_all:
  "reach_all s \<Longrightarrow> run s as = Some (Inr s') \<Longrightarrow> reach_all s'"
proof (induction as arbitrary: s)
  case Nil
  then show ?case by simp
next
  case (Cons x as)
  show ?case
  proof (cases x)
    case (A e)
    with Cons.prems(2) obtain s1 it where 1: "trie_insert s e = Some (Inr (s1, it))"
      "run s1 as = Some (Inr s')" by (auto split: option.splits sum.splits)
    from Cons.IH [OF ra_insert [OF Cons.prems(1) 1(1)] 1(2)] show ?thesis .
  next
    case (R k)
    show ?thesis
    proof (cases "trie_find TRIE_KEY_TRACING_STRICT s k (length k) = Some (Inr None)")
      case True
      with Cons.prems(2) R have "run s as = Some (Inr s')" by simp
      from Cons.IH [OF Cons.prems(1) this] show ?thesis .
    next
      case False
      with Cons.prems(2) R obtain a s1 it where 1: "erase s (Some a) = Some (Inr (s1, it))"
        "run s1 as = Some (Inr s')" by (auto split: option.splits sum.splits)
      from Cons.IH [OF ra_erase [OF Cons.prems(1) 1(1)] 1(2)] show ?thesis .
    qed
  qed
qed

lemma ok_run_reach_all: "ok_run (run trie_new as) \<Longrightarrow> reach_all (the_trie (run trie_new as))"
proof -
  assume "ok_run (run trie_new as)"
  then obtain s' where r: "run trie_new as = Some (Inr s')"
    unfolding ok_run_def by (auto split: option.splits sum.splits)
  from run_reach_all [OF ra_new r] show ?thesis by (simp add: r the_trie_def)
qed

lemma occupied_two:
  assumes "i < j" "j < 16" "branches n i \<noteq> None" "branches n j \<noteq> None"
  shows "2 \<le> length (occupied n)"
proof -
  have d: "distinct (occupied n)" by (simp add: occupied_def)
  have "{i, j} \<subseteq> set (occupied n)" using assms by (auto simp: occupied_def)
  then have "card {i, j} \<le> card (set (occupied n))" by (intro card_mono) simp_all
  with assms(1) d show ?thesis by (simp add: distinct_card)
qed

text \<open>
  C4.  In every trie built from the empty one by \<open>insert\<close>, \<open>insert(item, pos)\<close> at the
  position \<open>lower_bound\<close> gave for the key of the item, and \<open>erase\<close>, a node other than
  the root that holds no item has at least two occupied slots in \<open>branches\<close>: never
  none and never exactly one.
\<close>

theorem interim_two_children:
  assumes "reach_all s" "nodes s a = Some n" "a \<noteq> m_root" "item n = None"
  shows "2 \<le> length (occupied n)"
proof -
  from reach_all_wfp [OF assms(1)] obtain pth where wf: "trie_inv {} s pth" by blast
  note N = node_okD [OF wfpD(2) [OF wf assms(2)]]
  from N(5) assms have lt: "br_1st n < br_last n" by simp
  then have nl: "\<not> is_leaf n" by (simp add: is_leaf_def)
  note B = br_ok_nonleafD [OF N(2) nl]
  have "br_last n < 16" by simp
  from occupied_two [OF lt this B(1,2)] show ?thesis .
qed

theorem interim_two_children_witness:
  "reach_all s_odd \<and> (case nodes s_odd 2 of None \<Rightarrow> False
      | Some n \<Rightarrow> item n = None \<and> 2 \<le> length (occupied n))"
proof -
  have r: "reach_all s_odd" unfolding s_odd_def by (rule ok_run_reach_all) code_simp
  have "case nodes s_odd 2 of None \<Rightarrow> False | Some n \<Rightarrow> item n = None" by code_simp
  then obtain n where n: "nodes s_odd 2 = Some n" "item n = None" by (auto split: option.splits)
  have "(2::nat) \<noteq> m_root" by (simp add: m_root_def)
  from interim_two_children [OF r n(1) this n(2)] r n show ?thesis by simp
qed

subsection \<open>The root\<close>

lemma reach_all_alloc: "reach_all s \<Longrightarrow> nodes s a = Some n \<Longrightarrow> a < nodes_next s"
  using reach_all_wfp wfp_alloc_lt by blast

lemma no_items_belowD:
  assumes "reach_all s" "no_items_below s (nodes_next s)" "nodes s a = Some n"
  shows "item n = None"
proof -
  from reach_all_alloc [OF assms(1,3)] have "a \<in> set [0..<nodes_next s]" by simp
  with assms(2,3) show ?thesis unfolding no_items_below_def list_all_iff by fastforce
qed

text \<open>Without items there is nothing below the root: a deepest node would be an interim leaf.\<close>

lemma no_items_only_root:
  assumes wf: "trie_inv {} s pth" and ni: "\<And>a n. nodes s a = Some n \<Longrightarrow> item n = None"
  shows "a \<noteq> m_root \<Longrightarrow> nodes s a = None"
proof (rule ccontr)
  assume ar: "a \<noteq> m_root" and "nodes s a \<noteq> None"
  then obtain n where an: "nodes s a = Some n" by auto
  define A where "A = {b. b \<noteq> m_root \<and> nodes s b \<noteq> None}"
  define f where "f b = qlen (the (nodes s b))" for b
  have "A \<subseteq> {..< nodes_next s}" unfolding A_def using wfp_alloc_lt [OF wf] by auto
  then have fin: "finite A" by (rule finite_subset) simp
  have ne: "A \<noteq> {}" using ar an unfolding A_def by auto
  from fin ne have "Max (f ` A) \<in> f ` A" by (intro Max_in) simp_all
  then obtain b where b: "b \<in> A" "f b = Max (f ` A)" by auto
  from b(1) obtain m where m: "b \<noteq> m_root" "nodes s b = Some m" unfolding A_def by auto
  note M = node_okD [OF wfpD(2) [OF wf m(2)]]
  from M(5) [OF m(1) _ ni [OF m(2)]] have lt: "br_1st m < br_last m" by simp
  then have "\<not> is_leaf m" by (simp add: is_leaf_def)
  from br_ok_nonleafD(1) [OF M(2) this] obtain c where c: "branches m (br_1st m) = Some c" by auto
  from M(3) [OF c] obtain cn where cn: "nodes s c = Some cn" "parent cn = Some b"
    "qlen m < qlen cn" by blast
  have "c \<noteq> m_root" using wfp_root(3) [OF wf cn(1)] cn(2) by simp
  with cn(1) have "c \<in> A" unfolding A_def by simp
  with fin have "f c \<le> Max (f ` A)" by simp
  with b(2) cn(1,3) m(2) show False by (simp add: f_def)
qed

lemma root_kept_aux:
  assumes wf: "trie_inv {} s pth"
  shows "\<exists>r. nodes s m_root = Some r \<and> qlen r = 0 \<and> parent r = None \<and>
           ((\<forall>a n. nodes s a = Some n \<longrightarrow> item n = None) \<longrightarrow>
              (\<forall>a. a \<noteq> m_root \<longrightarrow> nodes s a = None) \<and> (\<forall>i. branches r i = None) \<and>
              br_last r < br_1st r)"
proof -
  from wfpD(1) [OF wf] obtain r where r: "nodes s m_root = Some r" "qlen r = 0" "parent r = None"
    by blast
  note N = node_okD [OF wfpD(2) [OF wf r(1)]]
  have "(\<forall>a. a \<noteq> m_root \<longrightarrow> nodes s a = None) \<and> (\<forall>i. branches r i = None) \<and> br_last r < br_1st r"
    if ni: "\<forall>a n. nodes s a = Some n \<longrightarrow> item n = None"
  proof -
    have 1: "nodes s a = None" if "a \<noteq> m_root" for a
      using no_items_only_root [OF wf _ that] ni by blast
    have 2: "branches r i = None" for i
    proof (rule ccontr)
      assume "branches r i \<noteq> None"
      then obtain c where c: "branches r i = Some c" by auto
      from child_distinct [OF wfpD(2) [OF wf r(1)] c] N(3) [OF c] 1 [of c] show False by auto
    qed
    have "is_leaf r" using br_ok_nonleafD(1) [OF N(2)] 2 by auto
    with 1 2 show ?thesis by (simp add: is_leaf_def)
  qed
  with r show ?thesis by blast
qed

subsection \<open>Slobby against strict tracing\<close>

lemma wfp_leafs_ok: "trie_inv X s pth \<Longrightarrow> leafs_ok s"
  unfolding leafs_ok_def using br_ok_leafD node_okD(2) wfpD(2) by blast

lemma search_position_flag:
  "search_position s k len nod q = Inr (pos, s1) \<Longrightarrow> \<not> pos_match pos"
  by (auto simp: search_position_def pos_match_def)

lemma strict_branch:
  assumes "trace_branch kt miss s k len slob i b nod ql fb = Some y"
  shows "leafs_ok s \<longrightarrow> kt = TRIE_KEY_TRACING_STRICT \<longrightarrow> miss = search_position \<longrightarrow>
         branch_sim s k len i b nod ql fb y"
proof (rule trace_branch.raw_induct [where P = "\<lambda>kt miss s k len slob i b nod ql fb y.
    leafs_ok s \<longrightarrow> kt = TRIE_KEY_TRACING_STRICT \<longrightarrow> miss = search_position \<longrightarrow>
    branch_sim s k len i b nod ql fb y", OF _ assms], goal_cases)
  case (1 f kt miss s k len slob i b nod ql fb y)
  note IH = 1(1) and body = 1(2)
  show ?case
  proof (intro impI)
    assume lo: "leafs_ok s" and kt: "kt = TRIE_KEY_TRACING_STRICT" and miss: "miss = search_position"
    let ?sl = "\<lambda>nod ql fb. trace_branch TRIE_KEY_TRACING_SLOBBY search_position s k len True i b nod ql fb"
    show "branch_sim s k len i b nod ql fb y"
    proof (cases "ql < 2")
      case False
      with body have y: "y = Inr (nod, ql, fb)" by simp
      have "?sl nod ql fb = Some y" unfolding y using False by (subst trace_branch.simps) simp
      then show ?thesis unfolding branch_sim_def y by (simp split: option.splits)
    next
      case q: True
      show ?thesis
      proof (cases "nodes s nod")
        case None
        with body q have "y = Inl (Inl UseAfterFree)" by simp
        then show ?thesis unfolding branch_sim_def by simp
      next
        case (Some pn)
        let ?ix = "if ql \<noteq> 0 then lo b else hi b"
        show ?thesis
        proof (cases "branches pn ?ix")
          case None
          with body q Some miss have "\<exists>r. y = Inl r \<and> (case r of Inl e \<Rightarrow> True | Inr (pos, s1) \<Rightarrow> \<not> pos_match pos)"
            by (auto simp: search_position_def pos_match_def split: sum.splits if_splits)
          then show ?thesis unfolding branch_sim_def by auto
        next
          case c: (Some c)
          show ?thesis
          proof (cases "nodes s c")
            case None
            with body q Some c have "y = Inl (Inl UseAfterFree)" by simp
            then show ?thesis unfolding branch_sim_def by simp
          next
            case cn: (Some cn)
            let ?q = "size_sub (qlen cn) (2 * i)"
            from body q Some c cn kt have run: "f kt miss s k len slob i b c ?q (0 < ql) = Some y"
              by simp
            from IH [OF run] lo kt miss have sim: "branch_sim s k len i b c ?q (0 < ql) y" by simp
            have nl: "\<not> is_leaf pn" using lo Some c unfolding leafs_ok_def by force
            have sl: "?sl nod ql fb =
                (if is_leaf cn then Some (Inl (Inr ((Some c, 2 * len, True), s)))
                 else ?sl c ?q (0 < ql))"
              using q Some c cn by (subst trace_branch.simps) simp
            show ?thesis
            proof (cases y)
              case (Inl r)
              with sim show ?thesis unfolding branch_sim_def by simp
            next
              case (Inr t)
              obtain nod1 ql1 fb1 where t: "t = (nod1, ql1, fb1)" by (cases t) auto
              note y = Inr [unfolded t]
              from sim have 1: "is_leaf cn \<longrightarrow> nod1 = c"
                and 2: "?sl c ?q (0 < ql) = Some y \<or>
                   (case nodes s nod1 of None \<Rightarrow> False
                    | Some cn \<Rightarrow> is_leaf cn \<and>
                        ?sl c ?q (0 < ql) = Some (Inl (Inr ((Some nod1, 2 * len, True), s))))"
                unfolding branch_sim_def y using cn by simp_all
              have "?sl nod ql fb = Some y \<or>
                   (case nodes s nod1 of None \<Rightarrow> False
                    | Some cn \<Rightarrow> is_leaf cn \<and>
                        ?sl nod ql fb = Some (Inl (Inr ((Some nod1, 2 * len, True), s))))"
              proof (cases "is_leaf cn")
                case True
                with 1 have "nod1 = c" by simp
                with True cn sl show ?thesis by simp
              next
                case False
                with sl have "?sl nod ql fb = ?sl c ?q (0 < ql)" by simp
                with 2 show ?thesis by (auto split: option.splits)
              qed
              then show ?thesis unfolding branch_sim_def y using Some nl by simp
            qed
          qed
        qed
      qed
    qed
  qed
qed

lemma strict_step:
  assumes lo: "leafs_ok s" and i: "i < len"
    and run: "trace_bytes TRIE_KEY_TRACING_STRICT search_position s k len slob i nod ql =
              Some (Inr (pos, s1))"
    and m: "pos_match pos"
  shows "\<exists>b nod1 ql1 fb1 n1. byte_at k i = Inr b \<and>
           trace_branch TRIE_KEY_TRACING_STRICT search_position s k len slob i b nod ql False =
             Some (Inr (nod1, ql1, fb1)) \<and>
           nodes s nod1 = Some n1 \<and> key_at s (key n1) i = Inr b \<and>
           trace_bytes TRIE_KEY_TRACING_STRICT search_position s k len slob (Suc i) nod1 (ql1 - 2) =
             Some (Inr (pos, s1))"
proof (cases "byte_at k i")
  case (Inl e)
  with run i show ?thesis by (subst (asm) trace_bytes.simps) simp
next
  case (Inr b)
  note st = run [unfolded trace_bytes_step [OF i Inr]]
  let ?tb = "trace_branch TRIE_KEY_TRACING_STRICT search_position s k len slob i b nod ql False"
  from st obtain y where y: "?tb = Some y" by (cases ?tb) auto
  from strict_branch [OF y] lo have sim: "branch_sim s k len i b nod ql False y" by simp
  show ?thesis
  proof (cases y)
    case (Inl r)
    with st y have "r = Inr (pos, s1)" by simp
    with sim Inl m show ?thesis unfolding branch_sim_def by simp
  next
    case (Inr t)
    obtain nod1 ql1 fb1 where t: "t = (nod1, ql1, fb1)" by (cases t) auto
    note y' = y [unfolded Inr t]
    from st y' obtain n1 where n1: "nodes s nod1 = Some n1" by (cases "nodes s nod1") auto
    from st y' n1 obtain kb where kb: "key_at s (key n1) i = Inr kb"
      by (cases "key_at s (key n1) i") auto
    have eq: "kb = b"
    proof (rule ccontr)
      assume "kb \<noteq> b"
      with st y' n1 kb m show False
        by (auto simp: search_position_def pos_match_def split: if_splits sum.splits)
    qed
    with st y' n1 kb have "trace_bytes TRIE_KEY_TRACING_STRICT search_position s k len slob (Suc i)
        nod1 (ql1 - 2) = Some (Inr (pos, s1))" by simp
    with \<open>byte_at k i = Inr b\<close> y' n1 kb eq show ?thesis by blast
  qed
qed

lemma strict_end:
  assumes i: "\<not> i < len"
    and run: "trace_bytes kt search_position s k len slob i nod ql = Some (Inr (pos, s1))"
    and m: "pos_match pos"
  shows "pos_node pos = Some nod \<and>
         trace_bytes kt' search_position s k len slob' i nod ql = Some (Inr (pos, s1))"
proof (cases "nodes s nod")
  case None
  with run i show ?thesis by (subst (asm) trace_bytes.simps) simp
next
  case (Some n)
  from run m have "ql = 0" "pos = (Some nod, 2 * len, item n \<noteq> None)" "s1 = s"
    unfolding trace_bytes_end [OF i Some]
    by (auto simp: search_position_def pos_match_def split: if_splits)
  then show ?thesis unfolding trace_bytes_end [OF i Some] by (simp add: pos_node_def)
qed

lemma leaf_stay_bytes:
  assumes lo: "leafs_ok s" and c: "nodes s c = Some cn" "is_leaf cn"
  shows "trace_bytes TRIE_KEY_TRACING_STRICT search_position s k len slob i c ql =
           Some (Inr (pos, s1)) \<Longrightarrow> pos_match pos \<Longrightarrow> pos_node pos = Some c"
proof (induction d \<equiv> "len - i" arbitrary: i ql)
  case 0
  then have "\<not> i < len" by simp
  from strict_end [OF this 0(2,3)] show ?case by simp
next
  case (Suc d)
  then have i: "i < len" by simp
  from strict_step [OF lo i Suc.prems] obtain b nod1 ql1 fb1 where
    tb: "trace_branch TRIE_KEY_TRACING_STRICT search_position s k len slob i b c ql False =
           Some (Inr (nod1, ql1, fb1))"
    and nx: "trace_bytes TRIE_KEY_TRACING_STRICT search_position s k len slob (Suc i) nod1 (ql1 - 2) =
           Some (Inr (pos, s1))" by blast
  from strict_branch [OF tb] lo c have "nod1 = c" unfolding branch_sim_def by simp
  with nx Suc.hyps(1) [of "Suc i" "ql1 - 2"] Suc.hyps(2) Suc.prems(2) show ?case by simp
qed

lemma sim_bytes:
  assumes lo: "leafs_ok s"
  shows "trace_bytes TRIE_KEY_TRACING_STRICT search_position s k len slob i nod ql =
           Some (Inr (pos, s1)) \<Longrightarrow> pos_match pos \<Longrightarrow>
         \<exists>pos' s1'. trace_bytes TRIE_KEY_TRACING_SLOBBY search_position s k len True i nod ql =
           Some (Inr (pos', s1')) \<and> pos_match pos' \<and> pos_node pos' = pos_node pos"
proof (induction d \<equiv> "len - i" arbitrary: i nod ql)
  case 0
  then have "\<not> i < len" by simp
  from strict_end [OF this 0(2,3)] 0(3) show ?case by blast
next
  case (Suc d)
  then have i: "i < len" by simp
  from strict_step [OF lo i Suc.prems] obtain b nod1 ql1 fb1 n1 where
    b: "byte_at k i = Inr b"
    and tb: "trace_branch TRIE_KEY_TRACING_STRICT search_position s k len slob i b nod ql False =
           Some (Inr (nod1, ql1, fb1))"
    and n1: "nodes s nod1 = Some n1" "key_at s (key n1) i = Inr b"
    and nx: "trace_bytes TRIE_KEY_TRACING_STRICT search_position s k len slob (Suc i) nod1 (ql1 - 2) =
           Some (Inr (pos, s1))" by blast
  let ?sl = "trace_branch TRIE_KEY_TRACING_SLOBBY search_position s k len True i b nod ql False"
  from strict_branch [OF tb] lo n1(1) consider
    (same) "?sl = Some (Inr (nod1, ql1, fb1))"
    | (stop) "is_leaf n1" "?sl = Some (Inl (Inr ((Some nod1, 2 * len, True), s)))"
    unfolding branch_sim_def by auto
  then show ?case
  proof cases
    case same
    have "trace_bytes TRIE_KEY_TRACING_SLOBBY search_position s k len True i nod ql =
        trace_bytes TRIE_KEY_TRACING_SLOBBY search_position s k len True (Suc i) nod1 (ql1 - 2)"
      unfolding trace_bytes_step [OF i b] using same n1 by simp
    with Suc.hyps(1) [of "Suc i" nod1 "ql1 - 2"] Suc.hyps(2) nx Suc.prems(2) show ?thesis by simp
  next
    case stop
    have "trace_bytes TRIE_KEY_TRACING_SLOBBY search_position s k len True i nod ql =
        Some (Inr ((Some nod1, 2 * len, True), s))"
      unfolding trace_bytes_step [OF i b] using stop by simp
    moreover from leaf_stay_bytes [OF lo n1(1) stop(1) nx Suc.prems(2)]
    have "pos_node pos = Some nod1" .
    ultimately show ?thesis by (simp add: pos_match_def pos_node_def)
  qed
qed

lemma slobby_agrees_aux:
  assumes lo: "leafs_ok s"
    and f: "trie_find TRIE_KEY_TRACING_STRICT s k len = Some (Inr (Some a))"
  shows "trie_find TRIE_KEY_TRACING_SLOBBY s k len = Some (Inr (Some a))"
proof -
  from f obtain pos s1 where
    tr: "trace TRIE_KEY_TRACING_STRICT search_position s k len True = Some (Inr (pos, s1))"
    and m: "pos_match pos" and it: "iterator s (pos_node pos) = Some (Inr (Some a))"
    unfolding trie_find_def by (auto split: option.splits sum.splits if_splits)
  from sim_bytes [OF lo tr [unfolded trace_def] m] obtain pos' s1' where
    "trace TRIE_KEY_TRACING_SLOBBY search_position s k len True = Some (Inr (pos', s1'))"
    "pos_match pos'" "pos_node pos' = pos_node pos" unfolding trace_def by blast
  with it show ?thesis unfolding trie_find_def by simp
qed

subsection \<open>The state after a split\<close>

lemma split_then_install:
  assumes wf: "trie_inv X s pth" and gp: "good_pos s pth k p q"
    and pn: "nodes s p = Some pn" and nq: "q \<noteq> qlen pn"
    and run: "insert_node s k (length k) (Some p) q = Inr (pos, s1)"
    and it: "insert_item (k, v) (pos_node pos) s1 = Inr s2"
  shows "split_done s (k, v) p q s2 (pos_node pos)"
proof -
  note W = wfpD [OF wf]
  from gp pn have g: "qlen pn \<le> q" "q \<le> 2 * length k" "qlen pn < 2 * length k"
    and slot: "case branches pn (nibbles k ! qlen pn) of
           None \<Rightarrow> q = qlen pn
         | Some c \<Rightarrow>
             (\<exists>cn. nodes s c = Some cn \<and> qlen pn < q \<and> q < qlen cn \<and>
                   take q (nibbles k) = take q (pth c) \<and>
                   (q < 2 * length k \<longrightarrow> nibbles k ! q \<noteq> pth c ! q))"
    unfolding good_pos_def by auto
  let ?bi = "nibbles k ! qlen pn"
  have gq: "get_qpos k (qlen pn) = Inr ?bi" using get_qpos_nibbles g(3) by simp
  have fr: "nodes s (nodes_next s) = None" by (rule wfp_fresh [OF wf])
  from slot nq obtain c where c: "branches pn ?bi = Some c" by (cases "branches pn ?bi") auto
  with slot obtain cn where cn: "nodes s c = Some cn" "qlen pn < q" "q < qlen cn"
    "take q (nibbles k) = take q (pth c)" "q < 2 * length k \<Longrightarrow> nibbles k ! q \<noteq> pth c ! q"
    by auto
  have ne: "p \<noteq> c" using child_distinct [OF W(2) [OF pn] c] by simp
  from run pn gq c cn(1) obtain bk where bk: "key_bytes s (key cn) = Inr bk"
    by (cases "key_bytes s (key cn)") (auto simp: insert_node_def)
  from run pn gq c cn(1) bk obtain ci where ci: "get_qpos bk q = Inr ci"
    by (cases "get_qpos bk q") (auto simp: insert_node_def)
  have cip: "ci = pth c ! q" by (rule key_bytes_pth [OF wf cn(1) bk ci cn(3)])
  let ?I = "nodes_next s"
  define s6 where "s6 = upd_node c (\<lambda>m. m\<lparr>parent := Some ?I\<rparr>)
     (upd_node p (\<lambda>m. m\<lparr>branches := (branches m)(?bi := Some ?I)\<rparr>)
     (upd_node c (set_br_own ci)
     (upd_node ?I (\<lambda>m. m\<lparr>branches := (branches m)(ci := Some c)\<rparr>)
     (upd_node p (\<lambda>m. m\<lparr>branches := (branches m)(?bi := None)\<rparr>)
     (s\<lparr>nodes := (nodes s)(?I \<mapsto> new_node None (key cn) q (Some p) ?bi ci ci),
         nodes_next := Suc ?I\<rparr>)))))"
  note E = split_eff [OF pn cn(1) ne fr s6_def]
  note R = insert_node_split [OF pn gq c cn(1) bk ci, of "length k", folded s6_def]
  let ?i' = "(new_node None (key cn) q (Some p) ?bi ci ci)\<lparr>branches := (\<lambda>_. None)(ci := Some c)\<rparr>"
  let ?c' = "(set_br_own ci cn)\<lparr>parent := Some ?I\<rparr>"
  let ?p' = "pn\<lparr>branches := (branches pn)(?bi := Some ?I)\<rparr>"
  have d: "p \<noteq> ?I" "c \<noteq> ?I" using pn cn(1) fr by auto
  have at_I: "nodes s6 ?I = Some ?i'" using E(1) d ne by auto
  have ci16: "ci < 16" using get_qpos_Inr [OF ci] nibbles_lt [of ci bk] by (simp add: nth_mem)
  have bi16: "?bi < 16" using nibbles_lt [of ?bi k] g(3) by (simp add: nth_mem)
  have cfields: "node_is (Some ?c') (item cn) (key cn) (qlen cn) (Some ?I)
      (ci, br_1st cn, br_last cn) (branches cn)"
    using ci16 by (simp add: node_is_def)
  show ?thesis
  proof (cases "q = 2 * length k")
    case True
    with R run have e: "pos = (Some ?I, q, False)" "s1 = s6" by (simp_all add: Let_def)
    from it e insert_item_eff [OF at_I, of "(k, v)"]
    have s2: "s2 = s6\<lparr>m_items := (m_items s6)(items_next s6 \<mapsto> (k, v)), items_next := Suc (items_next s6),
          nodes := (nodes s6)(?I \<mapsto> ?i'\<lparr>key := Some (items_next s6), item := Some (items_next s6)\<rparr>)\<rparr>"
      by (simp add: pos_node_def)
    have n2: "nodes s2 p = Some ?p'" "nodes s2 c = Some ?c'"
      "nodes s2 ?I = Some (?i'\<lparr>key := Some (items_next s), item := Some (items_next s)\<rparr>)"
      "\<And>a. a \<notin> {p, c, ?I} \<Longrightarrow> nodes s2 a = nodes s a"
      unfolding s2 using E d ne by simp_all
    have o2: "m_items s2 = (m_items s)(items_next s \<mapsto> (k, v))" "items_next s2 = Suc (items_next s)"
      "nodes_next s2 = Suc ?I" unfolding s2 using E by simp_all
    have ifields: "node_is (nodes s2 ?I) (Some (items_next s)) (Some (items_next s)) q (Some p)
        (?bi, ci, ci) ((\<lambda>_. None)(ci \<mapsto> c))"
      unfolding n2(3) using ci16 bi16 by (simp add: node_is_def)
    show ?thesis unfolding split_done_def
      apply (rule exI [of _ pn], rule exI [of _ ?bi], rule exI [of _ c], rule exI [of _ cn],
          rule exI [of _ bk], rule exI [of _ ci])
      using pn gq c cn(1,2,3) bk ci o2 n2 cfields ifields True e(1)
      by (simp add: pos_node_def)
  next
    case False
    with cn g have ql: "q < 2 * length k" by simp
    let ?li = "nibbles k ! q"
    let ?L = "Suc ?I"
    have gl: "get_qpos k q = Inr ?li" using get_qpos_nibbles ql by simp
    have lc: "?li \<noteq> ci" using cn(5) [OF ql] cip by simp
    have li16: "?li < 16" using nibbles_lt [of ?li k] ql by (simp add: nth_mem)
    have "nodes s ?L = None" by (rule wfp_fresh' [OF wf]) simp
    then have fr6: "nodes s6 (nodes_next s6) = None" using E pn cn(1) by auto
    from R run False gl have "insert_node_leaf s6 (length k) ?I ?li = Inr (pos, s1)"
      by (simp add: Let_def)
    moreover have "branches ?i' ?li = None" using lc by simp
    ultimately have e: "pos = (Some ?L, 2 * length k, False)"
      "s1 = s6\<lparr>nodes := (nodes s6)(?I \<mapsto> (br_extend ?li ?i')\<lparr>branches := (branches ?i')(?li := Some ?L)\<rparr>,
                             ?L \<mapsto> new_node None None (2 * length k) (Some ?I) ?li 1 0),
          nodes_next := Suc ?L\<rparr>"
      using insert_node_leaf_eff [OF at_I fr6, of ?li "length k"] E(2) by simp_all
    have l: "nodes s1 ?L = Some (new_node None None (2 * length k) (Some ?I) ?li 1 0)"
      unfolding e(2) by simp
    from it e(1) insert_item_eff [OF l, of "(k, v)"]
    have s2: "s2 = s1\<lparr>m_items := (m_items s1)(items_next s1 \<mapsto> (k, v)), items_next := Suc (items_next s1),
          nodes := (nodes s1)(?L \<mapsto> (new_node None None (2 * length k) (Some ?I) ?li 1 0)\<lparr>key := Some (items_next s1), item := Some (items_next s1)\<rparr>)\<rparr>"
      by (simp add: pos_node_def)
    have d': "p \<noteq> ?L" "c \<noteq> ?L" using pn cn(1) \<open>nodes s ?L = None\<close> by auto
    have n2: "nodes s2 p = Some ?p'" "nodes s2 c = Some ?c'"
      "nodes s2 ?I = Some ((br_extend ?li ?i')\<lparr>branches := (branches ?i')(?li := Some ?L)\<rparr>)"
      "nodes s2 ?L = Some ((new_node None None (2 * length k) (Some ?I) ?li 1 0)\<lparr>key := Some (items_next s), item := Some (items_next s)\<rparr>)"
      "\<And>a. a \<notin> {p, c, ?I, ?L} \<Longrightarrow> nodes s2 a = nodes s a"
      unfolding s2 e(2) using E d d' ne by simp_all
    have o2: "m_items s2 = (m_items s)(items_next s \<mapsto> (k, v))" "items_next s2 = Suc (items_next s)"
      "nodes_next s2 = Suc ?L" unfolding s2 e(2) using E by simp_all
    have nl: "\<not> is_leaf ?i'" using bi16 ci16 by (simp add: is_leaf_def)
    have ex: "br_1st (br_extend ?li ?i') = min ci ?li" "br_last (br_extend ?li ?i') = max ci ?li"
      "br_own (br_extend ?li ?i') = ?bi" "item (br_extend ?li ?i') = None"
      "key (br_extend ?li ?i') = key cn" "qlen (br_extend ?li ?i') = q"
      "parent (br_extend ?li ?i') = Some p"
      using nl bi16 ci16 li16 by (auto simp: br_extend_def Let_def)
    have ifields: "node_is (nodes s2 ?I) None (key cn) q (Some p)
        (?bi, min ci ?li, max ci ?li) ((\<lambda>_. None)(ci \<mapsto> c, ?li \<mapsto> ?L))"
      unfolding n2(3) using ex by (simp add: node_is_def)
    have lfields: "node_is (nodes s2 ?L) (Some (items_next s)) (Some (items_next s))
        (2 * length k) (Some ?I) (?li, 1, 0) (\<lambda>_. None)"
      unfolding n2(4) using li16 by (simp add: node_is_def)
    show ?thesis unfolding split_done_def
      apply (rule exI [of _ pn], rule exI [of _ ?bi], rule exI [of _ c], rule exI [of _ cn],
          rule exI [of _ bk], rule exI [of _ ci])
      using pn gq c cn(1,2,3) bk ci o2 n2 cfields ifields lfields False e(1) gl lc
      by (simp add: pos_node_def)
  qed
qed

subsection \<open>Insertion at a held position\<close>

lemma run_state:
  "map_option (map_sum id snd) r = Some (Inr it) \<Longrightarrow> \<exists>s. r = Some (Inr (s, it))"
proof (cases r)
  case None
  then show "map_option (map_sum id snd) r = Some (Inr it) \<Longrightarrow> ?thesis" by simp
next
  case (Some x)
  then show "map_option (map_sum id snd) r = Some (Inr it) \<Longrightarrow> ?thesis"
    by (cases x) auto
qed

lemma insert_at_split:
  assumes wf: "trie_inv {} s pth"
    and lb: "lower_bound kt s k (length k) = Some (Inr pos)"
    and nm: "\<not> pos_match pos" and nod: "pos_node pos = Some nod" "nodes s nod = Some n"
    and nq: "pos_qlen pos \<noteq> qlen n"
    and run: "insert_at s (k, v) pos = Some (Inr (s', it))"
  shows "split_done s (k, v) nod (pos_qlen pos) s' it"
proof -
  from lb obtain s1 where tr: "trace kt search_position s k (length k) False = Some (Inr (pos, s1))"
    unfolding lower_bound_def by (auto split: option.splits sum.splits)
  from trace_spec [OF wf _ tr] have "trace_res search_position s pth k (Inr (pos, s1))" by simp
  then consider (miss) p q where "good_pos s pth k p q" "pos = (Some p, q, False)"
    | (match) a m where "nodes s a = Some m" "qlen m = 2 * length k"
      "pos = (Some a, 2 * length k, item m \<noteq> None)"
    unfolding trace_res_def search_position_def by auto
  then show ?thesis
  proof cases
    case miss
    with nod nq have p: "p = nod" "q = pos_qlen pos" "q \<noteq> qlen n"
      by (simp_all add: pos_node_def pos_qlen_def)
    have pn: "nodes s p = Some n" using nod(2) p(1) by simp
    from run [unfolded miss(2)] pn p(3) obtain pos1 s1 where
      1: "insert_node s k (length k) (Some p) q = Inr (pos1, s1)"
      and 2: "insert_item (k, v) (pos_node pos1) s1 = Inr s'"
      and 3: "iterator s' (pos_node pos1) = Some (Inr it)"
      unfolding insert_at_def
      by (auto simp: pos_match_def pos_node_def pos_qlen_def deref_def
          split: option.splits sum.splits)
    from split_then_install [OF wf miss(1) pn p(3) 1 2]
    have sd: "split_done s (k, v) nod (pos_qlen pos) s' (pos_node pos1)" unfolding p .
    then obtain a m where a: "pos_node pos1 = Some a" "nodes s' a = Some m" "item m \<noteq> None"
      unfolding split_done_def node_is_def by (auto split: if_splits option.splits)
    with 3 have "it = pos_node pos1" by (simp add: iterator_def)
    with sd show ?thesis by simp
  next
    case match
    with nod nm nq show ?thesis by (simp add: pos_node_def pos_qlen_def pos_match_def)
  qed
qed

lemma split_returns:
  assumes wf: "trie_inv X s pth" and gp: "good_pos s pth k p q"
    and pn: "nodes s p = Some pn" and nq: "q \<noteq> qlen pn"
    and c: "branches pn (nibbles k ! qlen pn) = Some c" "nodes s c = Some cn"
    and kb: "key_bytes s (key cn) = Inr bk"
  shows "\<exists>pos s1 s2 a m. insert_node s k (length k) (Some p) q = Inr (pos, s1) \<and>
           insert_item (k, v) (pos_node pos) s1 = Inr s2 \<and> pos_node pos = Some a \<and>
           nodes s2 a = Some m \<and> item m \<noteq> None"
proof -
  note W = wfpD [OF wf]
  from gp pn c have g: "qlen pn \<le> q" "q \<le> 2 * length k" "qlen pn < 2 * length k"
    and cn: "qlen pn < q" "q < qlen cn" "q < 2 * length k \<Longrightarrow> nibbles k ! q \<noteq> pth c ! q"
    unfolding good_pos_def by auto
  let ?bi = "nibbles k ! qlen pn"
  have gq: "get_qpos k (qlen pn) = Inr ?bi" using get_qpos_nibbles g(3) by simp
  have fr: "nodes s (nodes_next s) = None" by (rule wfp_fresh [OF wf])
  have ne: "p \<noteq> c" using child_distinct [OF W(2) [OF pn] c(1)] by simp
  from kb obtain h e where h: "key cn = Some h" "m_items s h = Some e" "bk = fst e"
    by (auto simp: key_bytes_def split: option.splits)
  from node_okD(10) [OF W(2) [OF c(2)] h(1,2)] h(3) have "qlen cn \<le> 2 * length bk" by simp
  with cn(2) have "q < 2 * length bk" by simp
  then have ci: "get_qpos bk q = Inr (nibbles bk ! q)" using get_qpos_nibbles by simp
  let ?ci = "nibbles bk ! q"
  have cip: "?ci = pth c ! q" by (rule key_bytes_pth [OF wf c(2) kb ci cn(2)])
  let ?I = "nodes_next s"
  define s6 where "s6 = upd_node c (\<lambda>m. m\<lparr>parent := Some ?I\<rparr>)
     (upd_node p (\<lambda>m. m\<lparr>branches := (branches m)(?bi := Some ?I)\<rparr>)
     (upd_node c (set_br_own ?ci)
     (upd_node ?I (\<lambda>m. m\<lparr>branches := (branches m)(?ci := Some c)\<rparr>)
     (upd_node p (\<lambda>m. m\<lparr>branches := (branches m)(?bi := None)\<rparr>)
     (s\<lparr>nodes := (nodes s)(?I \<mapsto> new_node None (key cn) q (Some p) ?bi ?ci ?ci),
         nodes_next := Suc ?I\<rparr>)))))"
  note E = split_eff [OF pn c(2) ne fr s6_def]
  note R = insert_node_split [OF pn gq c kb ci, of "length k", folded s6_def]
  let ?i' = "(new_node None (key cn) q (Some p) ?bi ?ci ?ci)\<lparr>branches := (\<lambda>_. None)(?ci := Some c)\<rparr>"
  have d: "p \<noteq> ?I" "c \<noteq> ?I" using pn c(2) fr by auto
  have at_I: "nodes s6 ?I = Some ?i'" using E(1) d ne by auto
  show ?thesis
  proof (cases "q = 2 * length k")
    case True
    with R have 1: "insert_node s k (length k) (Some p) q = Inr ((Some ?I, q, False), s6)"
      by (simp add: Let_def)
    note 2 = insert_item_eff [OF at_I, of "(k, v)"]
    show ?thesis
      apply (rule exI [of _ "(Some ?I, q, False)"], rule exI [of _ s6])
      using 1 2 by (simp add: pos_node_def)
  next
    case False
    with cn g have ql: "q < 2 * length k" by simp
    let ?li = "nibbles k ! q"
    let ?L = "Suc ?I"
    have gl: "get_qpos k q = Inr ?li" using get_qpos_nibbles ql by simp
    have lc: "?li \<noteq> ?ci" using cn(3) [OF ql] cip by simp
    have "nodes s ?L = None" by (rule wfp_fresh' [OF wf]) simp
    then have fr6: "nodes s6 (nodes_next s6) = None" using E pn c(2) by auto
    have "branches ?i' ?li = None" using lc by simp
    from insert_node_leaf_eff [OF at_I fr6 this, of "length k"] E(2)
    have L: "insert_node_leaf s6 (length k) ?I ?li =
      Inr ((Some ?L, 2 * length k, False),
        s6\<lparr>nodes := (nodes s6)(?I \<mapsto> (br_extend ?li ?i')\<lparr>branches := (branches ?i')(?li := Some ?L)\<rparr>,
                             ?L \<mapsto> new_node None None (2 * length k) (Some ?I) ?li 1 0),
          nodes_next := Suc ?L\<rparr>)" (is "_ = Inr (_, ?s1)") by simp
    from R False gl L have 1: "insert_node s k (length k) (Some p) q =
      Inr ((Some ?L, 2 * length k, False), ?s1)" by (simp add: Let_def)
    have l: "nodes ?s1 ?L = Some (new_node None None (2 * length k) (Some ?I) ?li 1 0)" by simp
    note 2 = insert_item_eff [OF l, of "(k, v)"]
    show ?thesis
      apply (rule exI [of _ "(Some ?L, 2 * length k, False)"], rule exI [of _ ?s1])
      using 1 2 by (simp add: pos_node_def)
  qed
qed

lemma insert_at_total:
  assumes wf: "trie_inv {} s pth"
    and lb: "lower_bound kt s k (length k) = Some (Inr pos)"
    and nm: "\<not> pos_match pos" and nod: "pos_node pos = Some nod" "nodes s nod = Some n"
    and nq: "pos_qlen pos \<noteq> qlen n"
  shows "\<exists>c cn. branches n (nibbles k ! qlen n) = Some c \<and> nodes s c = Some cn \<and>
           (case key_bytes s (key cn) of
              Inl err \<Rightarrow> insert_at s (k, v) pos = Some (Inl err)
            | Inr bk \<Rightarrow> (\<exists>s' it. insert_at s (k, v) pos = Some (Inr (s', it)) \<and>
                           split_done s (k, v) nod (pos_qlen pos) s' it))"
proof -
  from lb obtain s1 where tr: "trace kt search_position s k (length k) False = Some (Inr (pos, s1))"
    unfolding lower_bound_def by (auto split: option.splits sum.splits)
  from trace_spec [OF wf _ tr] have "trace_res search_position s pth k (Inr (pos, s1))" by simp
  then consider (miss) p q where "good_pos s pth k p q" "pos = (Some p, q, False)"
    | (match) a m where "nodes s a = Some m" "qlen m = 2 * length k"
      "pos = (Some a, 2 * length k, item m \<noteq> None)"
    unfolding trace_res_def search_position_def by auto
  then show ?thesis
  proof cases
    case miss
    with nod nq have p: "p = nod" "q = pos_qlen pos" "q \<noteq> qlen n"
      by (simp_all add: pos_node_def pos_qlen_def)
    have pn: "nodes s p = Some n" using nod(2) p(1) by simp
    from miss(1) pn p(3) have g: "qlen n < 2 * length k"
      and slot: "case branches n (nibbles k ! qlen n) of None \<Rightarrow> q = qlen n
        | Some c \<Rightarrow> (\<exists>cn. nodes s c = Some cn)"
      unfolding good_pos_def by (auto split: option.splits)
    from slot p(3) obtain c cn where c: "branches n (nibbles k ! qlen n) = Some c"
      "nodes s c = Some cn" by (cases "branches n (nibbles k ! qlen n)") auto
    have gq: "get_qpos k (qlen n) = Inr (nibbles k ! qlen n)" using get_qpos_nibbles g by simp
    have pos: "\<not> pos_match (Some p, q, False)" "pos_node (Some p, q, False) = Some p"
      "pos_qlen (Some p, q, False) = q" "deref s (Some p) = Inr n"
      using pn by (simp_all add: pos_match_def pos_node_def pos_qlen_def deref_def)
    have "case key_bytes s (key cn) of
              Inl err \<Rightarrow> insert_at s (k, v) pos = Some (Inl err)
            | Inr bk \<Rightarrow> (\<exists>s' it. insert_at s (k, v) pos = Some (Inr (s', it)) \<and>
                           split_done s (k, v) nod (pos_qlen pos) s' it)"
    proof (cases "key_bytes s (key cn)")
      case (Inl err)
      then have "insert_node s k (length k) (Some p) q = Inl err"
        using pn gq c by (simp add: insert_node_def)
      then have "insert_at s (k, v) pos = Some (Inl err)"
        unfolding miss(2) insert_at_def using pos p(3) by simp
      with Inl show ?thesis by simp
    next
      case (Inr bk)
      from split_returns [OF wf miss(1) pn p(3) c Inr, of v] obtain pos1 s1 s2 a m where
        1: "insert_node s k (length k) (Some p) q = Inr (pos1, s1)"
        and 2: "insert_item (k, v) (pos_node pos1) s1 = Inr s2"
        and 3: "pos_node pos1 = Some a" "nodes s2 a = Some m" "item m \<noteq> None" by blast
      from 3 have "iterator s2 (pos_node pos1) = Some (Inr (Some a))"
        by (auto simp: iterator_def)
      with 1 2 have run: "insert_at s (k, v) pos = Some (Inr (s2, Some a))"
        unfolding miss(2) insert_at_def using pos p(3) by simp
      from split_then_install [OF wf miss(1) pn p(3) 1 2] 3(1)
      have "split_done s (k, v) nod (pos_qlen pos) s2 (Some a)" unfolding p by simp
      with run Inr show ?thesis by simp
    qed
    with c show ?thesis by blast
  next
    case match
    with nod nm nq show ?thesis by (simp add: pos_node_def pos_qlen_def pos_match_def)
  qed
qed

text \<open>
  C6.  \<open>insert(item, pos)\<close> throws when \<open>pos\<close> is a match, before it touches the trie.
  Otherwise let \<open>pos\<close> be what \<open>lower_bound\<close> gave for the key of the item in a trie built
  by \<open>insert\<close>, \<open>insert(item, pos)\<close> and \<open>erase\<close>, with a matched length other than the
  \<open>qlen\<close> of its node \<open>nod\<close>.  Then the slot of \<open>nod\<close> that the key takes holds a node \<open>c\<close>,
  and \<open>insert_node\<close> reads the key of \<open>c\<close>.  When that key can be read, the call returns and
  the edge from \<open>nod\<close> to \<open>c\<close> is split at the matched length as \<open>split_done\<close> says: a new
  interim node there takes \<open>c\<close>, the item is installed in that interim node when the key
  ends there and in a new leaf below it otherwise, the iterator returned stands at the node
  of the item, and no other node has changed.  When the key of \<open>c\<close> cannot be read (it
  points at an item that \<open>erase\<close> has released), that read is all the call does.
\<close>

theorem insert_at_cases:
  "(pos_match pos \<longrightarrow> insert_at s e pos = Some (Inl AlreadyPresent)) \<and>
   (reach_all s \<and> lower_bound kt s (fst e) (length (fst e)) = Some (Inr pos) \<and>
    \<not> pos_match pos \<and> pos_node pos = Some nod \<and> nodes s nod = Some n \<and>
    pos_qlen pos \<noteq> qlen n \<longrightarrow>
      (\<exists>c cn. branches n (nibbles (fst e) ! qlen n) = Some c \<and> nodes s c = Some cn \<and>
         (case key_bytes s (key cn) of
            Inl err \<Rightarrow> insert_at s e pos = Some (Inl err)
          | Inr bk \<Rightarrow> (\<exists>s' it. insert_at s e pos = Some (Inr (s', it)) \<and>
                         split_done s e nod (pos_qlen pos) s' it))))"
proof (intro conjI impI)
  assume "pos_match pos"
  then show "insert_at s e pos = Some (Inl AlreadyPresent)" by (simp add: insert_at_def)
next
  assume a: "reach_all s \<and> lower_bound kt s (fst e) (length (fst e)) = Some (Inr pos) \<and>
    \<not> pos_match pos \<and> pos_node pos = Some nod \<and> nodes s nod = Some n \<and>
    pos_qlen pos \<noteq> qlen n"
  then obtain pth where wf: "trie_inv {} s pth" using reach_all_wfp by blast
  obtain k v where e: "e = (k, v)" by (cases e)
  from a show "\<exists>c cn. branches n (nibbles (fst e) ! qlen n) = Some c \<and> nodes s c = Some cn \<and>
         (case key_bytes s (key cn) of
            Inl err \<Rightarrow> insert_at s e pos = Some (Inl err)
          | Inr bk \<Rightarrow> (\<exists>s' it. insert_at s e pos = Some (Inr (s', it)) \<and>
                         split_done s e nod (pos_qlen pos) s' it))"
    unfolding e using insert_at_total [OF wf, of kt k pos nod n v] by simp
qed

theorem insert_at_cases_witness:
  "reach_all s_single \<and>
   lower_bound TRIE_KEY_TRACING_STRICT s_single k_abcd 4 = Some (Inr (Some 1, 8, True)) \<and>
   insert_at s_single (k_abcd, 9) (Some 1, 8, True) = Some (Inl AlreadyPresent) \<and>
   map_option node_view (nodes s_single 0) =
     Some (None, None, 0, None, (0, 6, 6),
       [None, None, None, None, None, None, Some 1, None, None, None, None, None, None, None, None, None]) \<and>
   map_option node_view (nodes s_single 1) =
     Some (Some 0, Some 0, 8, Some 0, (6, 1, 0), replicate 16 None) \<and>
   lower_bound TRIE_KEY_TRACING_STRICT s_single k_abxx 4 = Some (Inr (Some m_root, 4, False)) \<and>
   map_option (map_sum id snd) (insert_at s_single (k_abxx, 2) (Some m_root, 4, False)) =
     Some (Inr (Some 3)) \<and>
   map_option node_view (nodes s_split 0) =
     Some (None, None, 0, None, (0, 6, 6),
       [None, None, None, None, None, None, Some 2, None, None, None, None, None, None, None, None, None]) \<and>
   map_option node_view (nodes s_split 2) =
     Some (None, Some 0, 4, Some 0, (6, 6, 7),
       [None, None, None, None, None, None, Some 1, Some 3, None, None, None, None, None, None, None, None]) \<and>
   map_option node_view (nodes s_split 1) =
     Some (Some 0, Some 0, 8, Some 2, (6, 1, 0), replicate 16 None) \<and>
   map_option node_view (nodes s_split 3) =
     Some (Some 1, Some 1, 8, Some 2, (7, 1, 0), replicate 16 None) \<and>
   nodes_next s_split = 4 \<and> items_next s_split = 2 \<and>
   m_items s_split 0 = Some (k_abcd, 7) \<and> m_items s_split 1 = Some (k_abxx, 2) \<and>
   lower_bound TRIE_KEY_TRACING_STRICT s_single k_ab 2 = Some (Inr (Some m_root, 4, False)) \<and>
   map_option (map_sum id snd) (insert_at s_single (k_ab, 3) (Some m_root, 4, False)) =
     Some (Inr (Some 2)) \<and>
   map_option node_view (nodes s_split_end 2) =
     Some (Some 1, Some 1, 4, Some 0, (6, 6, 6),
       [None, None, None, None, None, None, Some 1, None, None, None, None, None, None, None, None, None]) \<and>
   map_option node_view (nodes s_split_end 1) =
     Some (Some 0, Some 0, 8, Some 2, (6, 1, 0), replicate 16 None) \<and>
   nodes_next s_split_end = 3 \<and> m_items s_split_end 1 = Some (k_ab, 3)"
proof -
  have r: "reach_all s_single" unfolding s_single_def by (rule ok_run_reach_all) code_simp
  have l1: "lower_bound TRIE_KEY_TRACING_STRICT s_single k_abcd 4 = Some (Inr (Some 1, 8, True))"
    by code_simp
  have l2: "lower_bound TRIE_KEY_TRACING_STRICT s_single k_abxx 4 =
      Some (Inr (Some m_root, 4, False))" by code_simp
  have l3: "lower_bound TRIE_KEY_TRACING_STRICT s_single k_ab 2 =
      Some (Inr (Some m_root, 4, False))" by code_simp
  have i2: "map_option (map_sum id snd) (insert_at s_single (k_abxx, 2) (Some m_root, 4, False)) =
     Some (Inr (Some 3))" by code_simp
  have i3: "map_option (map_sum id snd) (insert_at s_single (k_ab, 3) (Some m_root, 4, False)) =
     Some (Inr (Some 2))" by code_simp
  from run_state [OF i2] obtain s2 where e2:
    "insert_at s_single (k_abxx, 2) (Some m_root, 4, False) = Some (Inr (s2, Some 3))" by blast
  then have s2: "s_split = s2" by (simp add: s_split_def)
  from run_state [OF i3] obtain s3 where e3:
    "insert_at s_single (k_ab, 3) (Some m_root, 4, False) = Some (Inr (s3, Some 2))" by blast
  then have s3: "s_split_end = s3" by (simp add: s_split_end_def)
  have v0: "map_option node_view (nodes s_single 0) =
     Some (None, None, 0, None, (0, 6, 6),
       [None, None, None, None, None, None, Some 1, None, None, None, None, None, None, None, None, None])"
    by code_simp
  have v1: "map_option node_view (nodes s_single 1) =
     Some (Some 0, Some 0, 8, Some 0, (6, 1, 0), replicate 16 None)" by code_simp
  from v0 obtain n0 where n0: "nodes s_single m_root = Some n0" "qlen n0 = 0"
    by (auto simp: node_view_def m_root_def)
  have len: "length k_abxx = 4" "length k_ab = 2" by (simp_all add: k_abxx_def k_ab_def)
  have a1: "insert_at s_single (k_abcd, 9) (Some 1, 8, True) = Some (Inl AlreadyPresent)"
    using insert_at_cases [of "(Some 1, 8, True)" s_single "(k_abcd, 9)"]
    by (simp add: pos_match_def)
  have b6: "map_option (\<lambda>m. branches m 6) (nodes s_single m_root) = Some (Some 1)"
    "map_option key (nodes s_single 1) = Some (Some 0)"
    "m_items s_single 0 = Some (k_abcd, 7)"
    "nibbles k_abxx ! 0 = 6" "nibbles k_ab ! 0 = 6" by code_simp+
  have kb: "key_bytes s_single (key cn) = Inr k_abcd" if "nodes s_single 1 = Some cn" for cn
    using that b6(2,3) by (simp add: key_bytes_def)
  have pre: "\<not> pos_match (Some m_root, 4, False)" "pos_node (Some m_root, 4, False) = Some m_root"
    "pos_qlen (Some m_root, 4, False) \<noteq> qlen n0" "pos_qlen (Some m_root, 4, False) = 4"
    using n0 by (simp_all add: pos_match_def pos_node_def pos_qlen_def)
  have d2: "split_done s_single (k_abxx, 2) m_root 4 s_split (Some 3)"
  proof -
    have "reach_all s_single \<and>
        lower_bound TRIE_KEY_TRACING_STRICT s_single (fst (k_abxx, 2)) (length (fst (k_abxx, 2))) =
          Some (Inr (Some m_root, 4, False)) \<and>
        \<not> pos_match (Some m_root, 4, False) \<and> pos_node (Some m_root, 4, False) = Some m_root \<and>
        nodes s_single m_root = Some n0 \<and> pos_qlen (Some m_root, 4, False) \<noteq> qlen n0"
      using r l2 n0 len pre by simp
    from insert_at_cases [of "(Some m_root, 4, False)" s_single "(k_abxx, 2)"
        TRIE_KEY_TRACING_STRICT m_root n0, THEN conjunct2, THEN mp, OF this]
    obtain c cn where c: "branches n0 (nibbles (fst (k_abxx, 2::nat)) ! qlen n0) = Some c"
      "nodes s_single c = Some cn"
      "case key_bytes s_single (key cn) of
         Inl err \<Rightarrow> insert_at s_single (k_abxx, 2) (Some m_root, 4, False) = Some (Inl err)
       | Inr bk \<Rightarrow> (\<exists>s' it. insert_at s_single (k_abxx, 2) (Some m_root, 4, False) =
             Some (Inr (s', it)) \<and>
             split_done s_single (k_abxx, 2) m_root (pos_qlen (Some m_root, 4, False)) s' it)"
      by blast
    from c(1) b6(1,4) n0 have "c = 1" by simp
    with c(2,3) kb e2 pre(4) show ?thesis by (simp add: s2)
  qed
  have d3: "split_done s_single (k_ab, 3) m_root 4 s_split_end (Some 2)"
  proof -
    have "reach_all s_single \<and>
        lower_bound TRIE_KEY_TRACING_STRICT s_single (fst (k_ab, 3)) (length (fst (k_ab, 3))) =
          Some (Inr (Some m_root, 4, False)) \<and>
        \<not> pos_match (Some m_root, 4, False) \<and> pos_node (Some m_root, 4, False) = Some m_root \<and>
        nodes s_single m_root = Some n0 \<and> pos_qlen (Some m_root, 4, False) \<noteq> qlen n0"
      using r l3 n0 len pre by simp
    from insert_at_cases [of "(Some m_root, 4, False)" s_single "(k_ab, 3)"
        TRIE_KEY_TRACING_STRICT m_root n0, THEN conjunct2, THEN mp, OF this]
    obtain c cn where c: "branches n0 (nibbles (fst (k_ab, 3::nat)) ! qlen n0) = Some c"
      "nodes s_single c = Some cn"
      "case key_bytes s_single (key cn) of
         Inl err \<Rightarrow> insert_at s_single (k_ab, 3) (Some m_root, 4, False) = Some (Inl err)
       | Inr bk \<Rightarrow> (\<exists>s' it. insert_at s_single (k_ab, 3) (Some m_root, 4, False) =
             Some (Inr (s', it)) \<and>
             split_done s_single (k_ab, 3) m_root (pos_qlen (Some m_root, 4, False)) s' it)"
      by blast
    from c(1) b6(1,5) n0 have "c = 1" by simp
    with c(2,3) kb e3 pre(4) show ?thesis by (simp add: s3)
  qed
  from d2 have o2: "items_next s_split = Suc (items_next s_single)"
    "m_items s_split = (m_items s_single)(items_next s_single \<mapsto> (k_abxx, 2))"
    unfolding split_done_def by auto
  from d3 have o3: "m_items s_split_end = (m_items s_single)(items_next s_single \<mapsto> (k_ab, 3))"
    unfolding split_done_def by auto
  have ins: "items_next s_single = 1" by code_simp
  have m0: "m_items s_single 0 = Some (k_abcd, 7)" by code_simp
  have w0: "map_option node_view (nodes s_split 0) =
     Some (None, None, 0, None, (0, 6, 6),
       [None, None, None, None, None, None, Some 2, None, None, None, None, None, None, None, None, None])"
    by code_simp
  have w2: "map_option node_view (nodes s_split 2) =
     Some (None, Some 0, 4, Some 0, (6, 6, 7),
       [None, None, None, None, None, None, Some 1, Some 3, None, None, None, None, None, None, None, None])"
    by code_simp
  have w1: "map_option node_view (nodes s_split 1) =
     Some (Some 0, Some 0, 8, Some 2, (6, 1, 0), replicate 16 None)" by code_simp
  have w3: "map_option node_view (nodes s_split 3) =
     Some (Some 1, Some 1, 8, Some 2, (7, 1, 0), replicate 16 None)" by code_simp
  have nn: "nodes_next s_split = 4" "nodes_next s_split_end = 3" by code_simp+
  have x2: "map_option node_view (nodes s_split_end 2) =
     Some (Some 1, Some 1, 4, Some 0, (6, 6, 6),
       [None, None, None, None, None, None, Some 1, None, None, None, None, None, None, None, None, None])"
    by code_simp
  have x1: "map_option node_view (nodes s_split_end 1) =
     Some (Some 0, Some 0, 8, Some 2, (6, 1, 0), replicate 16 None)" by code_simp
  from o2 o3 ins m0 have it: "items_next s_split = 2" "m_items s_split 0 = Some (k_abcd, 7)"
    "m_items s_split 1 = Some (k_abxx, 2)" "m_items s_split_end 1 = Some (k_ab, 3)" by simp_all
  show ?thesis
    by (intro conjI r l1 a1 v0 v1 l2 i2 w0 w2 w1 w3 nn it l3 i3 x2 x1)
qed

subsection \<open>Where the two tracing modes part\<close>

lemma slobby_branch_run:
  assumes "trace_branch kt miss s k len slob i b nod ql fb = Some y"
  shows "kt = TRIE_KEY_TRACING_SLOBBY \<longrightarrow> slob \<longrightarrow>
         (\<exists>c. leaf_hit s len c \<and> y = Inl (Inr ((Some c, 2 * len, True), s))) \<or>
         trace_branch TRIE_KEY_TRACING_STRICT miss s k len slob i b nod ql fb = Some y"
proof (rule trace_branch.raw_induct [where P = "\<lambda>kt miss s k len slob i b nod ql fb y.
    kt = TRIE_KEY_TRACING_SLOBBY \<longrightarrow> slob \<longrightarrow>
    (\<exists>c. leaf_hit s len c \<and> y = Inl (Inr ((Some c, 2 * len, True), s))) \<or>
    trace_branch TRIE_KEY_TRACING_STRICT miss s k len slob i b nod ql fb = Some y", OF _ assms],
    goal_cases)
  case (1 f kt miss s k len slob i b nod ql fb y)
  note IH = 1(1) and body = 1(2)
  show ?case
  proof (intro impI)
    assume kt: "kt = TRIE_KEY_TRACING_SLOBBY" and slob: slob
    let ?st = "\<lambda>nod ql fb. trace_branch TRIE_KEY_TRACING_STRICT miss s k len slob i b nod ql fb"
    let ?hit = "\<exists>c. leaf_hit s len c \<and> y = Inl (Inr ((Some c, 2 * len, True), s))"
    show "?hit \<or> ?st nod ql fb = Some y"
    proof (cases "ql < 2")
      case False
      with body have "?st nod ql fb = Some y" by (subst trace_branch.simps) simp
      then show ?thesis by simp
    next
      case q: True
      show ?thesis
      proof (cases "nodes s nod")
        case None
        with body q have "?st nod ql fb = Some y" by (subst trace_branch.simps) simp
        then show ?thesis by simp
      next
        case (Some pn)
        let ?ix = "if ql \<noteq> 0 then lo b else hi b"
        show ?thesis
        proof (cases "branches pn ?ix")
          case None
          with body q Some have "?st nod ql fb = Some y" by (subst trace_branch.simps) simp
          then show ?thesis by simp
        next
          case c: (Some c)
          show ?thesis
          proof (cases "nodes s c")
            case None
            with body q Some c have "?st nod ql fb = Some y" by (subst trace_branch.simps) simp
            then show ?thesis by simp
          next
            case cn: (Some cn)
            let ?q = "size_sub (qlen cn) (2 * i)"
            have st: "?st nod ql fb = ?st c ?q (0 < ql)"
              using q Some c cn by (subst trace_branch.simps) simp
            show ?thesis
            proof (cases "is_leaf cn")
              case True
              with body q Some c cn kt slob have "y = Inl (Inr ((Some c, 2 * len, True), s))"
                by simp
              moreover have "leaf_hit s len c" unfolding leaf_hit_def using cn True Some c by blast
              ultimately show ?thesis by blast
            next
              case False
              with body q Some c cn have "f kt miss s k len slob i b c ?q (0 < ql) = Some y"
                by simp
              from IH [OF this] kt slob st show ?thesis by simp
            qed
          qed
        qed
      qed
    qed
  qed
qed

lemma strict_branch_run:
  assumes "trace_branch kt miss s k len slob i b nod ql fb = Some y"
  shows "kt = TRIE_KEY_TRACING_STRICT \<longrightarrow>
         (\<exists>c. leaf_hit s len c \<and>
              trace_branch TRIE_KEY_TRACING_SLOBBY miss s k len True i b nod ql fb =
                Some (Inl (Inr ((Some c, 2 * len, True), s)))) \<or>
         trace_branch TRIE_KEY_TRACING_SLOBBY miss s k len True i b nod ql fb = Some y"
proof (rule trace_branch.raw_induct [where P = "\<lambda>kt miss s k len slob i b nod ql fb y.
    kt = TRIE_KEY_TRACING_STRICT \<longrightarrow>
    (\<exists>c. leaf_hit s len c \<and>
         trace_branch TRIE_KEY_TRACING_SLOBBY miss s k len True i b nod ql fb =
           Some (Inl (Inr ((Some c, 2 * len, True), s)))) \<or>
    trace_branch TRIE_KEY_TRACING_SLOBBY miss s k len True i b nod ql fb = Some y", OF _ assms],
    goal_cases)
  case (1 f kt miss s k len slob i b nod ql fb y)
  note IH = 1(1) and body = 1(2)
  show ?case
  proof (intro impI)
    assume kt: "kt = TRIE_KEY_TRACING_STRICT"
    let ?sl = "\<lambda>nod ql fb. trace_branch TRIE_KEY_TRACING_SLOBBY miss s k len True i b nod ql fb"
    let ?hit = "\<lambda>nod ql fb. \<exists>c. leaf_hit s len c \<and>
        ?sl nod ql fb = Some (Inl (Inr ((Some c, 2 * len, True), s)))"
    show "?hit nod ql fb \<or> ?sl nod ql fb = Some y"
    proof (cases "ql < 2")
      case False
      with body have "?sl nod ql fb = Some y" by (subst trace_branch.simps) simp
      then show ?thesis by simp
    next
      case q: True
      show ?thesis
      proof (cases "nodes s nod")
        case None
        with body q have "?sl nod ql fb = Some y" by (subst trace_branch.simps) simp
        then show ?thesis by simp
      next
        case (Some pn)
        let ?ix = "if ql \<noteq> 0 then lo b else hi b"
        show ?thesis
        proof (cases "branches pn ?ix")
          case None
          with body q Some have "?sl nod ql fb = Some y" by (subst trace_branch.simps) simp
          then show ?thesis by simp
        next
          case c: (Some c)
          show ?thesis
          proof (cases "nodes s c")
            case None
            with body q Some c have "?sl nod ql fb = Some y" by (subst trace_branch.simps) simp
            then show ?thesis by simp
          next
            case cn: (Some cn)
            let ?q = "size_sub (qlen cn) (2 * i)"
            have sl: "?sl nod ql fb =
                (if is_leaf cn then Some (Inl (Inr ((Some c, 2 * len, True), s)))
                 else ?sl c ?q (0 < ql))"
              using q Some c cn by (subst trace_branch.simps) simp
            show ?thesis
            proof (cases "is_leaf cn")
              case True
              have "leaf_hit s len c" unfolding leaf_hit_def using cn True Some c by blast
              with sl True show ?thesis by auto
            next
              case False
              with body q Some c cn kt have "f kt miss s k len slob i b c ?q (0 < ql) = Some y"
                by simp
              from IH [OF this] kt sl False show ?thesis by simp
            qed
          qed
        qed
      qed
    qed
  qed
qed

lemma branch_modes:
  "(\<exists>c. leaf_hit s len c \<and>
       trace_branch TRIE_KEY_TRACING_SLOBBY miss s k len True i b nod ql fb =
         Some (Inl (Inr ((Some c, 2 * len, True), s)))) \<or>
   trace_branch TRIE_KEY_TRACING_SLOBBY miss s k len True i b nod ql fb =
     trace_branch TRIE_KEY_TRACING_STRICT miss s k len True i b nod ql fb"
proof (cases "trace_branch TRIE_KEY_TRACING_STRICT miss s k len True i b nod ql fb")
  case (Some y)
  from strict_branch_run [OF this] Some show ?thesis by auto
next
  case None
  show ?thesis
  proof (cases "trace_branch TRIE_KEY_TRACING_SLOBBY miss s k len True i b nod ql fb")
    case n: None
    with None show ?thesis by simp
  next
    case (Some y)
    from slobby_branch_run [OF this] None Some show ?thesis by auto
  qed
qed

lemma bytes_modes:
  "(\<exists>c. leaf_hit s len c \<and>
       trace_bytes TRIE_KEY_TRACING_SLOBBY miss s k len True i nod ql =
         Some (Inr ((Some c, 2 * len, True), s))) \<or>
   trace_bytes TRIE_KEY_TRACING_SLOBBY miss s k len True i nod ql =
     trace_bytes TRIE_KEY_TRACING_STRICT miss s k len True i nod ql"
proof (induction d \<equiv> "len - i" arbitrary: i nod ql)
  case 0
  then have "\<not> i < len" by simp
  then have "trace_bytes TRIE_KEY_TRACING_SLOBBY miss s k len True i nod ql =
     trace_bytes TRIE_KEY_TRACING_STRICT miss s k len True i nod ql"
    by (subst (1 2) trace_bytes.simps) simp
  then show ?case by simp
next
  case (Suc d)
  then have i: "i < len" by simp
  show ?case
  proof (cases "byte_at k i")
    case (Inl e)
    with i have "trace_bytes TRIE_KEY_TRACING_SLOBBY miss s k len True i nod ql =
       trace_bytes TRIE_KEY_TRACING_STRICT miss s k len True i nod ql"
      by (subst (1 2) trace_bytes.simps) simp
    then show ?thesis by simp
  next
    case (Inr b)
    note st = trace_bytes_step [OF i Inr]
    from branch_modes [of s len miss k i b nod ql False] show ?thesis
    proof
      assume "\<exists>c. leaf_hit s len c \<and>
       trace_branch TRIE_KEY_TRACING_SLOBBY miss s k len True i b nod ql False =
         Some (Inl (Inr ((Some c, 2 * len, True), s)))"
      then obtain c where "leaf_hit s len c"
        "trace_bytes TRIE_KEY_TRACING_SLOBBY miss s k len True i nod ql =
         Some (Inr ((Some c, 2 * len, True), s))" unfolding st by auto
      then show ?thesis by blast
    next
      assume e: "trace_branch TRIE_KEY_TRACING_SLOBBY miss s k len True i b nod ql False =
         trace_branch TRIE_KEY_TRACING_STRICT miss s k len True i b nod ql False"
      show ?thesis
      proof (cases "trace_branch TRIE_KEY_TRACING_STRICT miss s k len True i b nod ql False")
        case None
        with e show ?thesis unfolding st by simp
      next
        case (Some y)
        show ?thesis
        proof (cases y)
          case (Inl r)
          with e Some show ?thesis unfolding st by simp
        next
          case yr: (Inr t)
          obtain nod1 ql1 fb1 where t: "t = (nod1, ql1, fb1)" by (cases t) auto
          note y = Some [unfolded yr t]
          note y' = e [unfolded y]
          show ?thesis
          proof (cases "nodes s nod1")
            case None
            with y y' show ?thesis unfolding st by simp
          next
            case n1: (Some n1)
            show ?thesis
            proof (cases "key_at s (key n1) i")
              case (Inl e)
              with y y' n1 show ?thesis unfolding st by simp
            next
              case kb: (Inr kb)
              show ?thesis
              proof (cases "kb = b")
                case False
                with y y' n1 kb show ?thesis unfolding st by simp
              next
                case True
                from Suc.hyps(2) have "d = len - Suc i" by simp
                from Suc.hyps(1) [OF this, of nod1 "ql1 - 2"] y y' n1 kb True
                show ?thesis unfolding st by simp
              qed
            qed
          qed
        qed
      qed
    qed
  qed
qed

lemma find_modes:
  assumes wf: "trie_inv {} s pth"
  shows "trie_find TRIE_KEY_TRACING_SLOBBY s k len = trie_find TRIE_KEY_TRACING_STRICT s k len \<or>
    (\<exists>c cn. nodes s c = Some cn \<and> is_leaf cn \<and> item cn \<noteq> None \<and>
       trie_find TRIE_KEY_TRACING_SLOBBY s k len = Some (Inr (Some c)))"
  using bytes_modes [of s len search_position k 0 m_root 0]
proof
  assume "trace_bytes TRIE_KEY_TRACING_SLOBBY search_position s k len True 0 m_root 0 =
     trace_bytes TRIE_KEY_TRACING_STRICT search_position s k len True 0 m_root 0"
  then show ?thesis unfolding trie_find_def trace_def by simp
next
  assume "\<exists>c. leaf_hit s len c \<and>
       trace_bytes TRIE_KEY_TRACING_SLOBBY search_position s k len True 0 m_root 0 =
         Some (Inr ((Some c, 2 * len, True), s))"
  then obtain c cn p pn ix where c: "nodes s c = Some cn" "is_leaf cn" "nodes s p = Some pn"
    "branches pn ix = Some c"
    and tr: "trace TRIE_KEY_TRACING_SLOBBY search_position s k len True =
         Some (Inr ((Some c, 2 * len, True), s))"
    unfolding leaf_hit_def trace_def by blast
  from child_edge [OF wf c(3,4)] c(1) have "parent cn = Some p" by auto
  then have nr: "c \<noteq> m_root" using wfp_root(3) [OF wf c(1)] by simp
  have it: "item cn \<noteq> None"
  proof
    assume "item cn = None"
    from node_okD(5) [OF wfpD(2) [OF wf c(1)] nr _ this] c(2) show False
      by (simp add: is_leaf_def)
  qed
  then have "trie_find TRIE_KEY_TRACING_SLOBBY s k len = Some (Inr (Some c))"
    unfolding trie_find_def tr using c(1) by (auto simp: pos_match_def pos_node_def iterator_def)
  with c(1,2) it show ?thesis by blast
qed

text \<open>
  C7, the part that fails.  The trie holds the single key \<open>"abcd"\<close>, so no two inserted keys
  share anything.  For the query \<open>"abxx"\<close> slobby \<open>find\<close> returns the iterator of the entry
  \<open>"abcd"\<close> (key \<open>"abcd"\<close>, length 4, value 7) and strict \<open>find\<close> returns the end iterator.
\<close>

theorem slobby_differs_from_strict:
  "ok_run (run trie_new [A (k_abcd, 7::nat)]) \<and>
   trie_find TRIE_KEY_TRACING_SLOBBY s_single k_abxx 4 = Some (Inr (Some 1)) \<and>
   iter_deref s_single (Some 1) = Inr (k_abcd, 4, 7) \<and>
   trie_find TRIE_KEY_TRACING_STRICT s_single k_abxx 4 = Some (Inr None)"
  by code_simp

text \<open>
  C7, amended.  In every trie built by \<open>insert\<close>, \<open>insert(item, pos)\<close> and \<open>erase\<close>, and
  for every query, slobby \<open>find\<close> returns what strict \<open>find\<close> returns, unless it returns
  the iterator of an entry that a leaf holds.  So a query for which strict \<open>find\<close> returns
  the iterator of an entry gets the same iterator from slobby \<open>find\<close>, hence the same key,
  key length and value; and when slobby \<open>find\<close> returns the end iterator, so does strict
  \<open>find\<close>.  Nothing is assumed about the inserted keys.
\<close>

theorem slobby_vs_strict:
  assumes "reach_all s"
  shows "(trie_find TRIE_KEY_TRACING_SLOBBY s k len = trie_find TRIE_KEY_TRACING_STRICT s k len \<or>
          (\<exists>c cn. nodes s c = Some cn \<and> is_leaf cn \<and> item cn \<noteq> None \<and>
             trie_find TRIE_KEY_TRACING_SLOBBY s k len = Some (Inr (Some c)))) \<and>
         (trie_find TRIE_KEY_TRACING_STRICT s k len = Some (Inr (Some a)) \<longrightarrow>
            trie_find TRIE_KEY_TRACING_SLOBBY s k len = Some (Inr (Some a))) \<and>
         (trie_find TRIE_KEY_TRACING_SLOBBY s k len = Some (Inr None) \<longrightarrow>
            trie_find TRIE_KEY_TRACING_STRICT s k len = Some (Inr None))"
proof -
  from reach_all_wfp [OF assms] obtain pth where wf: "trie_inv {} s pth" by blast
  note m = find_modes [OF wf, of k len]
  have 2: "trie_find TRIE_KEY_TRACING_SLOBBY s k len = Some (Inr (Some a))"
    if "trie_find TRIE_KEY_TRACING_STRICT s k len = Some (Inr (Some a))"
    by (rule slobby_agrees_aux [OF wfp_leafs_ok [OF wf] that])
  have 3: "trie_find TRIE_KEY_TRACING_STRICT s k len = Some (Inr None)"
    if "trie_find TRIE_KEY_TRACING_SLOBBY s k len = Some (Inr None)"
    using m that by auto
  from m 2 3 show ?thesis by blast
qed

theorem slobby_vs_strict_witness:
  "reach_all s_three \<and>
   trie_find TRIE_KEY_TRACING_STRICT s_three k_abxx 4 = Some (Inr (Some 3)) \<and>
   trie_find TRIE_KEY_TRACING_SLOBBY s_three k_abxx 4 = Some (Inr (Some 3)) \<and>
   trie_find TRIE_KEY_TRACING_SLOBBY s_three k_z 1 = Some (Inr None) \<and>
   trie_find TRIE_KEY_TRACING_STRICT s_three k_z 1 = Some (Inr None) \<and>
   reach_all s_single \<and>
   trie_find TRIE_KEY_TRACING_SLOBBY s_single k_abxx 4 = Some (Inr (Some 1)) \<and>
   trie_find TRIE_KEY_TRACING_STRICT s_single k_abxx 4 = Some (Inr None) \<and>
   map_option is_leaf (nodes s_single 1) = Some True \<and>
   map_option item (nodes s_single 1) = Some (Some 0)"
proof -
  have r: "reach_all s_three" unfolding s_three_def by (rule ok_run_reach_all) code_simp
  have r1: "reach_all s_single" unfolding s_single_def by (rule ok_run_reach_all) code_simp
  have f: "trie_find TRIE_KEY_TRACING_STRICT s_three k_abxx 4 = Some (Inr (Some 3))" by code_simp
  have g: "trie_find TRIE_KEY_TRACING_SLOBBY s_three k_z 1 = Some (Inr None)" by code_simp
  have h: "trie_find TRIE_KEY_TRACING_SLOBBY s_single k_abxx 4 = Some (Inr (Some 1))"
    "trie_find TRIE_KEY_TRACING_STRICT s_single k_abxx 4 = Some (Inr None)"
    "map_option is_leaf (nodes s_single 1) = Some True"
    "map_option item (nodes s_single 1) = Some (Some 0)" by code_simp+
  have 1: "trie_find TRIE_KEY_TRACING_SLOBBY s_three k_abxx 4 = Some (Inr (Some 3))"
    by (rule slobby_vs_strict [OF r, THEN conjunct2, THEN conjunct1, THEN mp, OF f])
  have 2: "trie_find TRIE_KEY_TRACING_STRICT s_three k_z 1 = Some (Inr None)"
    by (rule slobby_vs_strict [OF r, THEN conjunct2, THEN conjunct2, THEN mp, OF g])
  show ?thesis by (intro conjI r r1 f g h 1 2)
qed

subsection \<open>Items and the nodes that hold them\<close>

lemma items_keptI:
  assumes "m_items s' = m_items s"
    and "\<And>a m'. nodes s' a = Some m' \<Longrightarrow> item m' \<noteq> None \<Longrightarrow>
        \<exists>m. nodes s a = Some m \<and> item m = item m' \<and> qlen m = qlen m'"
    and "\<And>a m. nodes s a = Some m \<Longrightarrow> item m \<noteq> None \<Longrightarrow>
        \<exists>m'. nodes s' a = Some m' \<and> item m' = item m \<and> qlen m' = qlen m"
  shows "items_kept s s'"
  unfolding items_kept_def using assms by blast

lemma items_keptD:
  assumes "items_kept s s'"
  shows "m_items s' = m_items s"
    and "\<And>a m'. nodes s' a = Some m' \<Longrightarrow> item m' \<noteq> None \<Longrightarrow>
        \<exists>m. nodes s a = Some m \<and> item m = item m' \<and> qlen m = qlen m'"
    and "\<And>a m. nodes s a = Some m \<Longrightarrow> item m \<noteq> None \<Longrightarrow>
        \<exists>m'. nodes s' a = Some m' \<and> item m' = item m \<and> qlen m' = qlen m"
  using assms unfolding items_kept_def by blast+

lemma items_kept_refl: "items_kept s s"
  by (rule items_keptI) simp_all

lemma items_kept_trans:
  assumes "items_kept s s'" "items_kept s' s''"
  shows "items_kept s s''"
proof (rule items_keptI)
  note A = items_keptD [OF assms(1)] and B = items_keptD [OF assms(2)]
  show "m_items s'' = m_items s" using A(1) B(1) by simp
  show "\<exists>m. nodes s a = Some m \<and> item m = item m' \<and> qlen m = qlen m'"
    if "nodes s'' a = Some m'" "item m' \<noteq> None" for a m'
  proof -
    from B(2) [OF that] obtain m1 where m1: "nodes s' a = Some m1" "item m1 = item m'"
      "qlen m1 = qlen m'" by blast
    with that(2) have "item m1 \<noteq> None" by simp
    from A(2) [OF m1(1) this] m1 show ?thesis by auto
  qed
  show "\<exists>m'. nodes s'' a = Some m' \<and> item m' = item m \<and> qlen m' = qlen m"
    if "nodes s a = Some m" "item m \<noteq> None" for a m
  proof -
    from A(3) [OF that] obtain m1 where m1: "nodes s' a = Some m1" "item m1 = item m"
      "qlen m1 = qlen m" by blast
    with that(2) have "item m1 \<noteq> None" by simp
    from B(3) [OF m1(1) this] m1 show ?thesis by auto
  qed
qed

lemma keyedI:
  assumes "\<And>a n h e. nodes s a = Some n \<Longrightarrow> item n = Some h \<Longrightarrow> m_items s h = Some e \<Longrightarrow>
        qlen n = 2 * length (fst e)"
    and "\<And>h e. m_items s h = Some e \<Longrightarrow> \<exists>a n. nodes s a = Some n \<and> item n = Some h"
  shows "keyed s"
  unfolding keyed_def using assms by blast

lemma keyedD:
  assumes "keyed s"
  shows "\<And>a n h e. nodes s a = Some n \<Longrightarrow> item n = Some h \<Longrightarrow> m_items s h = Some e \<Longrightarrow>
        qlen n = 2 * length (fst e)"
    and "\<And>h e. m_items s h = Some e \<Longrightarrow> \<exists>a n. nodes s a = Some n \<and> item n = Some h"
  using assms unfolding keyed_def by blast+

lemma keyed_kept:
  assumes k: "keyed s" and f: "items_kept s s'"
  shows "keyed s'"
proof (rule keyedI)
  note K = keyedD [OF k] and F = items_keptD [OF f]
  show "qlen n = 2 * length (fst e)"
    if "nodes s' a = Some n" "item n = Some h" "m_items s' h = Some e" for a n h e
  proof -
    from F(2) [OF that(1)] that(2) obtain m where m: "nodes s a = Some m" "item m = Some h"
      "qlen m = qlen n" by auto
    from K(1) [OF m(1,2)] that(3) F(1) m(3) show ?thesis by simp
  qed
  show "\<exists>a n. nodes s' a = Some n \<and> item n = Some h" if "m_items s' h = Some e" for h e
  proof -
    from that F(1) have "m_items s h = Some e" by simp
    from K(2) [OF this] obtain a n where n: "nodes s a = Some n" "item n = Some h" by blast
    from F(3) [OF n(1)] n(2) show ?thesis by auto
  qed
qed

lemma keyed_new: "keyed trie_new"
  by (rule keyedI) (auto simp: trie_new_def new_node_def split: if_splits)

subsection \<open>Erasure keeps the items of the other nodes\<close>

lemma unset_item_keyed:
  assumes wf: "trie_inv X s pth" and k: "keyed s"
    and a: "nodes s a = Some n" "item n = Some h"
    and s': "nodes s' = (nodes s)(a \<mapsto> n\<lparr>item := None\<rparr>)" "m_items s' = (m_items s)(h := None)"
  shows "keyed s'"
proof (rule keyedI)
  note K = keyedD [OF k]
  show "qlen m = 2 * length (fst e)"
    if "nodes s' b = Some m" "item m = Some h'" "m_items s' h' = Some e" for b m h' e
  proof -
    from that(1,2) s'(1) have "b \<noteq> a" by auto
    with that(1) s'(1) have "nodes s b = Some m" by simp
    moreover from that(3) s'(2) have "m_items s h' = Some e" by (simp split: if_splits)
    ultimately show ?thesis using K(1) that(2) by blast
  qed
  show "\<exists>b m. nodes s' b = Some m \<and> item m = Some h'" if "m_items s' h' = Some e" for h' e
  proof -
    from that s'(2) have h: "h' \<noteq> h" "m_items s h' = Some e" by (simp_all split: if_splits)
    from K(2) [OF h(2)] obtain b m where m: "nodes s b = Some m" "item m = Some h'" by blast
    with a h(1) have "b \<noteq> a" by auto
    with m s'(1) show ?thesis by auto
  qed
qed

lemma erase_leaf_kept:
  assumes wf: "trie_inv X s pth" and a: "nodes s a = Some n" "item n = None"
    and res: "erase_leaf s a = Some (Inr (s', nod'))"
  shows "items_kept s s'"
proof (cases "is_leaf n \<and> a \<noteq> m_root")
  case False
  from erase_leaf_wfp [OF wf a(1) res] False have "s' = s" by simp
  then show ?thesis by (simp add: items_kept_refl)
next
  case True
  then have l: "is_leaf n" "a \<noteq> m_root" by simp_all
  from erase_leaf_eff [OF wf a(1) l res] obtain p pn pn' where
    p: "nodes s p = Some pn" "p \<noteq> a"
    and s': "nodes s' = (nodes s)(a := None, p \<mapsto> pn')" "m_items s' = m_items s"
    and pn': "item pn' = item pn" "qlen pn' = qlen pn" by blast
  show ?thesis
  proof (rule items_keptI [OF s'(2)])
    show "\<exists>m. nodes s b = Some m \<and> item m = item m' \<and> qlen m = qlen m'"
      if "nodes s' b = Some m'" "item m' \<noteq> None" for b m'
      using that s'(1) p pn' by (cases "b = p") (auto split: if_splits)
    show "\<exists>m'. nodes s' b = Some m' \<and> item m' = item m \<and> qlen m' = qlen m"
      if "nodes s b = Some m" "item m \<noteq> None" for b m
    proof -
      from that a have "b \<noteq> a" by auto
      with that s'(1) p pn' show ?thesis by (cases "b = p") auto
    qed
  qed
qed

lemma erase_only_son_kept:
  assumes wf: "trie_inv X s pth" and a: "nodes s nod = Some n"
    and res: "erase_only_son s nod = Some (Inr (s', nod'))"
  shows "items_kept s s'"
proof (cases "has_only_son n \<and> item n = None \<and> nod \<noteq> m_root")
  case False
  from erase_only_son_wfp [OF wf a res] False have "s' = s" by simp
  then show ?thesis by (simp add: items_kept_refl)
next
  case True
  then have l: "has_only_son n" "item n = None" "nod \<noteq> m_root" by simp_all
  from erase_only_son_eff [OF wf a l res] obtain p pn c cn where
    p: "nodes s p = Some pn" and c: "nodes s c = Some cn"
    and d: "p \<noteq> nod" "c \<noteq> nod" "c \<noteq> p"
    and s': "nodes s' = (nodes s)(nod := None,
        p \<mapsto> pn\<lparr>branches := (branches pn)(br_own n := Some c)\<rparr>,
        c \<mapsto> set_br_own (br_own n) (cn\<lparr>parent := Some p\<rparr>))" "m_items s' = m_items s"
    by blast
  show ?thesis
  proof (rule items_keptI [OF s'(2)])
    show "\<exists>m. nodes s b = Some m \<and> item m = item m' \<and> qlen m = qlen m'"
      if "nodes s' b = Some m'" "item m' \<noteq> None" for b m'
    proof -
      consider "b = nod" | "b = p" | "b = c" | "b \<noteq> nod" "b \<noteq> p" "b \<noteq> c" by blast
      then show ?thesis
      proof cases
        case 1 with that s'(1) d show ?thesis by simp
      next
        case 2 with that s'(1) d p show ?thesis by auto
      next
        case 3 with that s'(1) d c show ?thesis by auto
      next
        case 4 with that s'(1) show ?thesis by simp
      qed
    qed
    show "\<exists>m'. nodes s' b = Some m' \<and> item m' = item m \<and> qlen m' = qlen m"
      if "nodes s b = Some m" "item m \<noteq> None" for b m
    proof -
      from that a l(2) have "b \<noteq> nod" by auto
      then consider "b = p" | "b = c" | "b \<noteq> nod" "b \<noteq> p" "b \<noteq> c" by blast
      then show ?thesis
      proof cases
        case 1 with that s'(1) d p show ?thesis by auto
      next
        case 2 with that s'(1) d c show ?thesis by auto
      next
        case 3 with that s'(1) show ?thesis by simp
      qed
    qed
  qed
qed

lemma rekey_step_kept:
  assumes "nodes s a = Some n"
  shows "items_kept s (upd_node a (\<lambda>m. m\<lparr>key := kp\<rparr>) s)"
proof (rule items_keptI)
  let ?s = "upd_node a (\<lambda>m. m\<lparr>key := kp\<rparr>) s"
  have n: "nodes ?s = (nodes s)(a \<mapsto> n\<lparr>key := kp\<rparr>)" using assms by (simp add: upd_node_def)
  show "m_items ?s = m_items s" by (simp add: upd_node_def)
  show "\<exists>m. nodes s b = Some m \<and> item m = item m' \<and> qlen m = qlen m'"
    if "nodes ?s b = Some m'" "item m' \<noteq> None" for b m'
    using that assms unfolding n by (cases "b = a") auto
  show "\<exists>m'. nodes ?s b = Some m' \<and> item m' = item m \<and> qlen m' = qlen m"
    if "nodes s b = Some m" "item m \<noteq> None" for b m
    using that assms unfolding n by (cases "b = a") auto
qed

lemma erase_rekey_kept:
  assumes "erase_rekey s kp nod = Some y"
  shows "\<forall>s'. y = Inr s' \<longrightarrow> items_kept s s'"
proof (rule erase_rekey.raw_induct [where P = "\<lambda>s kp nod y. \<forall>s'. y = Inr s' \<longrightarrow> items_kept s s'",
    OF _ assms], goal_cases)
  case (1 f s kp nod y)
  note IH = 1(1) and body = 1(2)
  show ?case
  proof (intro allI impI)
    fix s' assume y: "y = Inr s'"
    from body y obtain n where n: "nodes s nod = Some n" by (cases "nodes s nod") auto
    show "items_kept s s'"
    proof (cases "item n = None \<and> nod \<noteq> m_root")
      case False
      with body y n have "s' = s" by (auto split: if_splits)
      then show ?thesis by (simp add: items_kept_refl)
    next
      case True
      with body y n obtain p where
        "f (upd_node nod (\<lambda>m. m\<lparr>key := kp\<rparr>) s) kp p = Some (Inr s')"
        by (cases "parent n") auto
      from IH [OF this] have "items_kept (upd_node nod (\<lambda>m. m\<lparr>key := kp\<rparr>) s) s'" by simp
      with rekey_step_kept [OF n] show ?thesis by (rule items_kept_trans)
    qed
  qed
qed

lemma erase_key_kept:
  assumes "erase_key s nod = Some (Inr s')"
  shows "items_kept s s'"
proof -
  from assms obtain n where n: "nodes s nod = Some n"
    unfolding erase_key_def by (cases "nodes s nod") auto
  show ?thesis
  proof (cases "\<not> is_leaf n \<and> item n = None \<and> nod \<noteq> m_root")
    case False
    with assms n have "s' = s" unfolding erase_key_def by (auto split: if_splits)
    then show ?thesis by (simp add: items_kept_refl)
  next
    case True
    with assms n obtain kp where "erase_rekey s kp nod = Some (Inr s')"
      unfolding erase_key_def by (auto split: sum.splits)
    from erase_rekey_kept [OF this] show ?thesis by simp
  qed
qed

lemma erase_keyed:
  assumes wf: "trie_inv {} s pth" and k: "keyed s" and res: "erase s iter = Some (Inr (s', it'))"
  shows "keyed s'"
proof -
  from res obtain nod where iter: "iter = Some nod"
    unfolding erase_def by (cases iter) auto
  from res iter obtain n where n: "nodes s nod = Some n"
    unfolding erase_def by (cases "nodes s nod") (auto split: option.splits sum.splits)
  from res iter n obtain h where h: "item n = Some h"
    unfolding erase_def by (cases "item n") (auto split: option.splits sum.splits)
  from res iter n h obtain e where e: "m_items s h = Some e"
    unfolding erase_def by (cases "m_items s h") (auto split: option.splits sum.splits)
  let ?s1 = "upd_node nod (\<lambda>m. m\<lparr>item := None\<rparr>) (s\<lparr>m_items := (m_items s)(h := None)\<rparr>)"
  let ?n1 = "n\<lparr>item := None\<rparr>"
  from res iter n h e obtain s2 nod2 s3 nod3 where
    r: "erase_leaf ?s1 nod = Some (Inr (s2, nod2))" "erase_only_son s2 nod2 = Some (Inr (s3, nod3))"
      "erase_key s3 nod3 = Some (Inr s')"
    unfolding erase_def by (simp split: option.splits sum.splits prod.splits)
  have s1: "nodes ?s1 = (nodes s)(nod \<mapsto> ?n1)" "nodes_next ?s1 = nodes_next s"
    "m_items ?s1 = (m_items s)(h := None)" "items_next ?s1 = items_next s"
    using n by (simp_all add: upd_node_def)
  have wf1: "trie_inv {nod} ?s1 pth" using unset_item_wfp [OF wf n h s1] by simp
  have n1: "nodes ?s1 nod = Some ?n1" using s1(1) by simp
  have k1: "keyed ?s1" by (rule unset_item_keyed [OF wf k n h s1(1,3)])
  have f12: "items_kept ?s1 s2" by (rule erase_leaf_kept [OF wf1 n1 _ r(1)]) simp
  have "\<exists>X m2. trie_inv X s2 pth \<and> nodes s2 nod2 = Some m2"
  proof (cases "is_leaf ?n1 \<and> nod \<noteq> m_root")
    case True
    from erase_leaf_wfp [OF wf1 n1 r(1)] show ?thesis unfolding if_P [OF True] by blast
  next
    case False
    from erase_leaf_wfp [OF wf1 n1 r(1)] have "s2 = ?s1" "nod2 = nod"
      unfolding if_not_P [OF False] by blast+
    with wf1 n1 show ?thesis by auto
  qed
  then obtain X m2 where wf2: "trie_inv X s2 pth" and m2: "nodes s2 nod2 = Some m2" by auto
  have f23: "items_kept s2 s3" by (rule erase_only_son_kept [OF wf2 m2 r(2)])
  have f34: "items_kept s3 s'" by (rule erase_key_kept [OF r(3)])
  from keyed_kept [OF k1 items_kept_trans [OF f12 items_kept_trans [OF f23 f34]]]
  show ?thesis .
qed

subsection \<open>Stored keys\<close>

lemma installedI:
  assumes "m_items s' = (m_items s)(items_next s \<mapsto> e)"
    and "\<exists>m. nodes s' t = Some m \<and> item m = Some (items_next s) \<and> qlen m = 2 * length (fst e)"
    and "\<And>a m'. a \<noteq> t \<Longrightarrow> nodes s' a = Some m' \<Longrightarrow> item m' \<noteq> None \<Longrightarrow>
        \<exists>m. nodes s a = Some m \<and> item m = item m' \<and> qlen m = qlen m'"
    and "\<And>a m. nodes s a = Some m \<Longrightarrow> item m \<noteq> None \<Longrightarrow>
        a \<noteq> t \<and> (\<exists>m'. nodes s' a = Some m' \<and> item m' = item m \<and> qlen m' = qlen m)"
  shows "installed s e t s'"
  unfolding installed_def using assms by blast

lemma installedD:
  assumes "installed s e t s'"
  shows "m_items s' = (m_items s)(items_next s \<mapsto> e)"
    and "\<exists>m. nodes s' t = Some m \<and> item m = Some (items_next s) \<and> qlen m = 2 * length (fst e)"
    and "\<And>a m'. a \<noteq> t \<Longrightarrow> nodes s' a = Some m' \<Longrightarrow> item m' \<noteq> None \<Longrightarrow>
        \<exists>m. nodes s a = Some m \<and> item m = item m' \<and> qlen m = qlen m'"
    and "\<And>a m. nodes s a = Some m \<Longrightarrow> item m \<noteq> None \<Longrightarrow>
        a \<noteq> t \<and> (\<exists>m'. nodes s' a = Some m' \<and> item m' = item m \<and> qlen m' = qlen m)"
  using assms unfolding installed_def by blast+

lemma installed_keyed:
  assumes wf: "trie_inv X s pth" and k: "keyed s" and i: "installed s e t s'"
  shows "keyed s'"
proof (rule keyedI)
  note K = keyedD [OF k] and I = installedD [OF i]
  have fr: "m_items s (items_next s) = None" by (rule wfp_item_fresh [OF wf])
  show "qlen n = 2 * length (fst e')"
    if "nodes s' a = Some n" "item n = Some h" "m_items s' h = Some e'" for a n h e'
  proof (cases "a = t")
    case True
    with I(2) that(1,2) have "h = items_next s" "qlen n = 2 * length (fst e)" by auto
    with that(3) I(1) show ?thesis by simp
  next
    case False
    from I(3) [OF False that(1)] that(2) obtain m where m: "nodes s a = Some m" "item m = Some h"
      "qlen m = qlen n" by auto
    from wfp_item_lt(1) [OF wf m(1,2)] have "h \<noteq> items_next s" by simp
    with that(3) I(1) have "m_items s h = Some e'" by simp
    from K(1) [OF m(1,2) this] m(3) show ?thesis by simp
  qed
  show "\<exists>a n. nodes s' a = Some n \<and> item n = Some h" if "m_items s' h = Some e'" for h e'
  proof (cases "h = items_next s")
    case True
    with I(2) show ?thesis by blast
  next
    case False
    with that I(1) have "m_items s h = Some e'" by simp
    from K(2) [OF this] obtain a n where n: "nodes s a = Some n" "item n = Some h" by blast
    from I(4) [OF n(1)] n(2) show ?thesis by auto
  qed
qed

lemma set_item_installed:
  assumes a: "nodes s a = Some m" "item m = None" "qlen m = 2 * length k"
    and it: "insert_item (k, v) (Some a) s = Inr s'"
  shows "installed s (k, v) a s'"
proof -
  from it have s': "s' = s\<lparr>m_items := (m_items s)(items_next s \<mapsto> (k, v)),
      items_next := Suc (items_next s),
      nodes := (nodes s)(a \<mapsto> m\<lparr>key := Some (items_next s), item := Some (items_next s)\<rparr>)\<rparr>"
    unfolding insert_item_eff [OF a(1)] by simp
  show ?thesis
  proof (rule installedI)
    show "m_items s' = (m_items s)(items_next s \<mapsto> (k, v))" unfolding s' by simp
    show "\<exists>m. nodes s' a = Some m \<and> item m = Some (items_next s) \<and> qlen m = 2 * length (fst (k, v))"
      unfolding s' using a(3) by simp
    show "\<exists>m. nodes s b = Some m \<and> item m = item m' \<and> qlen m = qlen m'"
      if "b \<noteq> a" "nodes s' b = Some m'" for b m' using that unfolding s' by simp
    show "b \<noteq> a \<and> (\<exists>m'. nodes s' b = Some m' \<and> item m' = item m0 \<and> qlen m' = qlen m0)"
      if "nodes s b = Some m0" "item m0 \<noteq> None" for b m0
      using that a(1,2) unfolding s' by auto
  qed
qed

lemma leaf_then_install:
  assumes wf: "trie_inv X s pth" and pn: "nodes s p = Some pn"
    and gq: "get_qpos k (qlen pn) = Inr bi" and b: "branches pn bi = None"
    and run: "insert_node s k (length k) (Some p) q = Inr (pos, s1)"
    and it: "insert_item (k, v) (pos_node pos) s1 = Inr s2"
  shows "installed s (k, v) (nodes_next s) s2 \<and> pos_node pos = Some (nodes_next s)"
proof -
  have fr: "nodes s (nodes_next s) = None" by (rule wfp_fresh [OF wf])
  from run pn gq b have "insert_node_leaf s (length k) p bi = Inr (pos, s1)"
    by (simp add: insert_node_def)
  with insert_node_leaf_eff [OF pn fr b, of "length k"]
  have e: "pos = (Some (nodes_next s), 2 * length k, False)"
    "s1 = s\<lparr>nodes := (nodes s)(p \<mapsto> (br_extend bi pn)\<lparr>branches := (branches pn)(bi := Some (nodes_next s))\<rparr>,
                             nodes_next s \<mapsto> new_node None None (2 * length k) (Some p) bi 1 0),
          nodes_next := Suc (nodes_next s)\<rparr>" by simp_all
  have l: "nodes s1 (nodes_next s) = Some (new_node None None (2 * length k) (Some p) bi 1 0)"
    unfolding e(2) by simp
  from it e(1) insert_item_eff [OF l, of "(k, v)"]
  have s2: "s2 = s1\<lparr>m_items := (m_items s1)(items_next s1 \<mapsto> (k, v)), items_next := Suc (items_next s1),
          nodes := (nodes s1)(nodes_next s \<mapsto> (new_node None None (2 * length k) (Some p) bi 1 0)\<lparr>key := Some (items_next s1), item := Some (items_next s1)\<rparr>)\<rparr>"
    by (simp add: pos_node_def)
  have d: "p \<noteq> nodes_next s" using pn fr by auto
  have ex: "item (br_extend bi pn) = item pn" "qlen (br_extend bi pn) = qlen pn"
    by (simp_all add: br_extend_def Let_def)
  have n2: "nodes s2 = (nodes s)(p \<mapsto> (br_extend bi pn)\<lparr>branches := (branches pn)(bi := Some (nodes_next s))\<rparr>,
      nodes_next s \<mapsto> (new_node None None (2 * length k) (Some p) bi 1 0)\<lparr>key := Some (items_next s), item := Some (items_next s)\<rparr>)"
    unfolding s2 e(2) by simp
  have "installed s (k, v) (nodes_next s) s2"
  proof (rule installedI)
    show "m_items s2 = (m_items s)(items_next s \<mapsto> (k, v))" unfolding s2 e(2) by simp
    show "\<exists>m. nodes s2 (nodes_next s) = Some m \<and> item m = Some (items_next s) \<and>
        qlen m = 2 * length (fst (k, v))" unfolding n2 by simp
    show "\<exists>m. nodes s a = Some m \<and> item m = item m' \<and> qlen m = qlen m'"
      if "a \<noteq> nodes_next s" "nodes s2 a = Some m'" for a m'
      using that pn ex unfolding n2 by (cases "a = p") auto
    show "a \<noteq> nodes_next s \<and> (\<exists>m'. nodes s2 a = Some m' \<and> item m' = item m \<and> qlen m' = qlen m)"
      if "nodes s a = Some m" "item m \<noteq> None" for a m
      using that pn fr ex unfolding n2 by (cases "a = p") auto
  qed
  with e(1) show ?thesis by (simp add: pos_node_def)
qed

lemma split_done_installed:
  assumes wf: "trie_inv X s pth" and sd: "split_done s (k, v) p q s' it"
  shows "\<exists>t. it = Some t \<and> installed s (k, v) t s'"
proof -
  let ?I = "nodes_next s" and ?L = "Suc (nodes_next s)" and ?h = "items_next s"
  have frI: "nodes s ?I = None" by (rule wfp_fresh [OF wf])
  have frL: "nodes s ?L = None" by (rule wfp_fresh' [OF wf]) simp
  from sd [unfolded split_done_def fst_conv] obtain n bi c cn bk ci where all:
    "nodes s p = Some n \<and> get_qpos k (qlen n) = Inr bi \<and>
        branches n bi = Some c \<and> nodes s c = Some cn \<and> qlen n < q \<and> q < qlen cn \<and>
        key_bytes s (key cn) = Inr bk \<and> get_qpos bk q = Inr ci \<and>
        m_items s' = (m_items s)(items_next s \<mapsto> (k, v)) \<and> items_next s' = Suc (items_next s) \<and>
        nodes s' p = Some (n\<lparr>branches := (branches n)(bi \<mapsto> nodes_next s)\<rparr>) \<and>
        node_is (nodes s' c) (item cn) (key cn) (qlen cn) (Some (nodes_next s))
          (ci, br_1st cn, br_last cn) (branches cn) \<and>
        (if q = 2 * length k then
           it = Some (nodes_next s) \<and> nodes_next s' = Suc (nodes_next s) \<and>
           node_is (nodes s' (nodes_next s)) (Some (items_next s)) (Some (items_next s)) q (Some p)
             (bi, ci, ci) ((\<lambda>_. None)(ci \<mapsto> c)) \<and>
           (\<forall>a. a \<notin> {p, c, nodes_next s} \<longrightarrow> nodes s' a = nodes s a)
         else
           (\<exists>li. get_qpos k q = Inr li \<and> li \<noteq> ci \<and>
              it = Some (Suc (nodes_next s)) \<and> nodes_next s' = Suc (Suc (nodes_next s)) \<and>
              node_is (nodes s' (nodes_next s)) None (key cn) q (Some p)
                (bi, min ci li, max ci li) ((\<lambda>_. None)(ci \<mapsto> c, li \<mapsto> Suc (nodes_next s))) \<and>
              node_is (nodes s' (Suc (nodes_next s))) (Some (items_next s)) (Some (items_next s))
                (2 * length k) (Some (nodes_next s)) (li, 1, 0) (\<lambda>_. None) \<and>
              (\<forall>a. a \<notin> {p, c, nodes_next s, Suc (nodes_next s)} \<longrightarrow> nodes s' a = nodes s a)))"
    by (elim exE) (erule meta_mp [rotated], assumption)
  then have n: "nodes s p = Some n" and c: "nodes s c = Some cn"
    and q: "qlen n < q" "q < qlen cn"
    and mi: "m_items s' = (m_items s)(?h \<mapsto> (k, v))"
    and p': "nodes s' p = Some (n\<lparr>branches := (branches n)(bi \<mapsto> ?I)\<rparr>)"
    and c': "node_is (nodes s' c) (item cn) (key cn) (qlen cn) (Some ?I)
          (ci, br_1st cn, br_last cn) (branches cn)" by simp_all
  from all have rest: "if q = 2 * length k then
           it = Some ?I \<and> nodes_next s' = Suc ?I \<and>
           node_is (nodes s' ?I) (Some ?h) (Some ?h) q (Some p) (bi, ci, ci) ((\<lambda>_. None)(ci \<mapsto> c)) \<and>
           (\<forall>a. a \<notin> {p, c, ?I} \<longrightarrow> nodes s' a = nodes s a)
         else
           (\<exists>li. get_qpos k q = Inr li \<and> li \<noteq> ci \<and>
              it = Some ?L \<and> nodes_next s' = Suc ?L \<and>
              node_is (nodes s' ?I) None (key cn) q (Some p)
                (bi, min ci li, max ci li) ((\<lambda>_. None)(ci \<mapsto> c, li \<mapsto> ?L)) \<and>
              node_is (nodes s' ?L) (Some ?h) (Some ?h) (2 * length k) (Some ?I) (li, 1, 0) (\<lambda>_. None) \<and>
              (\<forall>a. a \<notin> {p, c, ?I, ?L} \<longrightarrow> nodes s' a = nodes s a))"
    by (elim conjE)
  from c' obtain cm where cm: "nodes s' c = Some cm" "item cm = item cn" "qlen cm = qlen cn"
    unfolding node_is_def by (auto split: option.splits)
  have d: "p \<noteq> ?I" "c \<noteq> ?I" "p \<noteq> ?L" "c \<noteq> ?L" using n c frI frL by auto
  show ?thesis
  proof (cases "q = 2 * length k")
    case True
    with rest have it: "it = Some ?I"
      and i': "node_is (nodes s' ?I) (Some ?h) (Some ?h) q (Some p) (bi, ci, ci) ((\<lambda>_. None)(ci \<mapsto> c))"
      and un: "\<And>a. a \<notin> {p, c, ?I} \<Longrightarrow> nodes s' a = nodes s a" by simp_all
    from i' obtain im where im: "nodes s' ?I = Some im" "item im = Some ?h" "qlen im = q"
      unfolding node_is_def by (auto split: option.splits)
    have "installed s (k, v) ?I s'"
    proof (rule installedI [OF mi])
      show "\<exists>m. nodes s' ?I = Some m \<and> item m = Some ?h \<and> qlen m = 2 * length (fst (k, v))"
        using im True by simp
      show "\<exists>m. nodes s a = Some m \<and> item m = item m' \<and> qlen m = qlen m'"
        if ne: "a \<noteq> ?I" and "nodes s' a = Some m'" for a m'
      proof -
        consider "a = p" | "a = c" | "a \<notin> {p, c, ?I}" using ne by blast
        then show ?thesis
        proof cases
          case 1 with that p' n show ?thesis by auto
        next
          case 2 with that cm c show ?thesis by auto
        next
          case 3
          from un [OF 3] that have "nodes s a = Some m'" by simp
          then show ?thesis by simp
        qed
      qed
      show "a \<noteq> ?I \<and> (\<exists>m'. nodes s' a = Some m' \<and> item m' = item m \<and> qlen m' = qlen m)"
        if "nodes s a = Some m" "item m \<noteq> None" for a m
      proof -
        from that frI have ne: "a \<noteq> ?I" by auto
        then consider "a = p" | "a = c" | "a \<notin> {p, c, ?I}" by blast
        then have "\<exists>m'. nodes s' a = Some m' \<and> item m' = item m \<and> qlen m' = qlen m"
        proof cases
          case 1 with that p' n show ?thesis by auto
        next
          case 2 with that cm c show ?thesis by auto
        next
          case 3
          from un [OF 3] that have "nodes s' a = Some m" by simp
          then show ?thesis by simp
        qed
        with ne show ?thesis by simp
      qed
    qed
    with it show ?thesis by blast
  next
    case False
    with rest obtain li where it: "it = Some ?L"
      and i': "node_is (nodes s' ?I) None (key cn) q (Some p)
                (bi, min ci li, max ci li) ((\<lambda>_. None)(ci \<mapsto> c, li \<mapsto> ?L))"
      and l': "node_is (nodes s' ?L) (Some ?h) (Some ?h) (2 * length k) (Some ?I) (li, 1, 0) (\<lambda>_. None)"
      and un: "\<And>a. a \<notin> {p, c, ?I, ?L} \<Longrightarrow> nodes s' a = nodes s a" by auto
    from i' obtain im where im: "nodes s' ?I = Some im" "item im = None"
      unfolding node_is_def by (auto split: option.splits)
    from l' obtain lm where lm: "nodes s' ?L = Some lm" "item lm = Some ?h" "qlen lm = 2 * length k"
      unfolding node_is_def by (auto split: option.splits)
    have "installed s (k, v) ?L s'"
    proof (rule installedI [OF mi])
      show "\<exists>m. nodes s' ?L = Some m \<and> item m = Some ?h \<and> qlen m = 2 * length (fst (k, v))"
        using lm by simp
      show "\<exists>m. nodes s a = Some m \<and> item m = item m' \<and> qlen m = qlen m'"
        if ne: "a \<noteq> ?L" and "nodes s' a = Some m'" "item m' \<noteq> None" for a m'
      proof -
        consider "a = p" | "a = c" | "a = ?I" | "a \<notin> {p, c, ?I, ?L}" using ne by blast
        then show ?thesis
        proof cases
          case 1 with that p' n show ?thesis by auto
        next
          case 2 with that cm c show ?thesis by auto
        next
          case 3 with that im show ?thesis by simp
        next
          case 4
          from un [OF 4] that have "nodes s a = Some m'" by simp
          then show ?thesis by simp
        qed
      qed
      show "a \<noteq> ?L \<and> (\<exists>m'. nodes s' a = Some m' \<and> item m' = item m \<and> qlen m' = qlen m)"
        if "nodes s a = Some m" "item m \<noteq> None" for a m
      proof -
        from that frI frL have ne: "a \<noteq> ?L" "a \<noteq> ?I" by auto
        then consider "a = p" | "a = c" | "a \<notin> {p, c, ?I, ?L}" by blast
        then have "\<exists>m'. nodes s' a = Some m' \<and> item m' = item m \<and> qlen m' = qlen m"
        proof cases
          case 1 with that p' n show ?thesis by auto
        next
          case 2 with that cm c show ?thesis by auto
        next
          case 3
          from un [OF 3] that have "nodes s' a = Some m" by simp
          then show ?thesis by simp
        qed
        with ne show ?thesis by simp
      qed
    qed
    with it show ?thesis by blast
  qed
qed

text \<open>What \<open>insert\<close> does: nothing when the key is there, otherwise the item is installed.\<close>

lemma trie_insert_cases:
  assumes wf: "trie_inv {} s pth" and run: "trie_insert s (k, v) = Some (Inr (s', it))"
  shows "(s' = s \<and> (\<exists>a n. it = Some a \<and> nodes s a = Some n \<and> item n \<noteq> None \<and>
            qlen n = 2 * length k \<and> pth a = nibbles k)) \<or>
         (\<exists>t. it = Some t \<and> installed s (k, v) t s')"
proof -
  from run obtain pos s1 where
    tr: "trace TRIE_KEY_TRACING_STRICT insert_node s k (length k) False = Some (Inr (pos, s1))"
    and ins: "(if \<not> pos_match pos then insert_item (k, v) (pos_node pos) s1 else Inr s1) = Inr s'"
    and itr: "iterator s' (pos_node pos) = Some (Inr it)"
    unfolding trie_insert_def by (auto split: option.splits sum.splits)
  have got: "it = Some t" if "installed s (k, v) t s'" "pos_node pos = Some t" for t
  proof -
    from installedD(2) [OF that(1)] obtain m where "nodes s' t = Some m" "item m \<noteq> None" by auto
    with itr that(2) show ?thesis by (simp add: iterator_def)
  qed
  from trace_spec [OF wf _ tr] have "trace_res insert_node s pth k (Inr (pos, s1))" by simp
  then consider (miss) p q where "good_pos s pth k p q"
      "insert_node s k (length k) (Some p) q = Inr (pos, s1)"
    | (match) a n where "nodes s a = Some n" "qlen n = 2 * length k" "pth a = nibbles k"
      "pos = (Some a, 2 * length k, item n \<noteq> None)" "s1 = s"
    unfolding trace_res_def by auto
  then show ?thesis
  proof cases
    case miss
    from insert_node_flag [OF miss(2)] ins have it2: "insert_item (k, v) (pos_node pos) s1 = Inr s'"
      by simp
    from miss(1) obtain pn where pn: "nodes s p = Some pn" "qlen pn < 2 * length k"
      and slot: "case branches pn (nibbles k ! qlen pn) of None \<Rightarrow> q = qlen pn
         | Some c \<Rightarrow> qlen pn < q" unfolding good_pos_def by (auto split: option.splits)
    show ?thesis
    proof (cases "q = qlen pn")
      case True
      with slot have b: "branches pn (nibbles k ! qlen pn) = None" by (auto split: option.splits)
      have gq: "get_qpos k (qlen pn) = Inr (nibbles k ! qlen pn)"
        using get_qpos_nibbles pn(2) by simp
      from leaf_then_install [OF wf pn(1) gq b miss(2) it2] got show ?thesis by blast
    next
      case False
      from split_then_install [OF wf miss(1) pn(1) False miss(2) it2]
      have "split_done s (k, v) p q s' (pos_node pos)" .
      from split_done_installed [OF wf this] got show ?thesis by blast
    qed
  next
    case match
    show ?thesis
    proof (cases "item n = None")
      case True
      with ins match have "insert_item (k, v) (Some a) s = Inr s'"
        by (simp add: pos_match_def pos_node_def)
      from set_item_installed [OF match(1) True match(2) this] got [of a] match(4)
      show ?thesis by (simp add: pos_node_def)
    next
      case False
      with ins match have s: "s' = s" by (simp add: pos_match_def)
      with itr match False have "it = Some a" by (auto simp: iterator_def pos_node_def)
      with s match False show ?thesis by blast
    qed
  qed
qed

lemma trie_insert_keyed:
  assumes wf: "trie_inv {} s pth" and k: "keyed s" and run: "trie_insert s (k, v) = Some (Inr (s', it))"
  shows "keyed s'"
  using trie_insert_cases [OF wf run] k installed_keyed [OF wf k] by auto

lemma erase_m_items:
  assumes wf: "trie_inv {} s pth" and res: "erase s iter = Some (Inr (s', it'))"
  shows "\<exists>h. m_items s' = (m_items s)(h := None)"
proof -
  from res obtain nod where iter: "iter = Some nod"
    unfolding erase_def by (cases iter) auto
  from res iter obtain n where n: "nodes s nod = Some n"
    unfolding erase_def by (cases "nodes s nod") (auto split: option.splits sum.splits)
  from res iter n obtain h where h: "item n = Some h"
    unfolding erase_def by (cases "item n") (auto split: option.splits sum.splits)
  from res iter n h obtain e where e: "m_items s h = Some e"
    unfolding erase_def by (cases "m_items s h") (auto split: option.splits sum.splits)
  let ?s1 = "upd_node nod (\<lambda>m. m\<lparr>item := None\<rparr>) (s\<lparr>m_items := (m_items s)(h := None)\<rparr>)"
  let ?n1 = "n\<lparr>item := None\<rparr>"
  from res iter n h e obtain s2 nod2 s3 nod3 where
    r: "erase_leaf ?s1 nod = Some (Inr (s2, nod2))" "erase_only_son s2 nod2 = Some (Inr (s3, nod3))"
      "erase_key s3 nod3 = Some (Inr s')"
    unfolding erase_def by (simp split: option.splits sum.splits prod.splits)
  have s1: "nodes ?s1 = (nodes s)(nod \<mapsto> ?n1)" "nodes_next ?s1 = nodes_next s"
    "m_items ?s1 = (m_items s)(h := None)" "items_next ?s1 = items_next s"
    using n by (simp_all add: upd_node_def)
  have wf1: "trie_inv {nod} ?s1 pth" using unset_item_wfp [OF wf n h s1] by simp
  have n1: "nodes ?s1 nod = Some ?n1" using s1(1) by simp
  have f12: "items_kept ?s1 s2" by (rule erase_leaf_kept [OF wf1 n1 _ r(1)]) simp
  have "\<exists>X m2. trie_inv X s2 pth \<and> nodes s2 nod2 = Some m2"
  proof (cases "is_leaf ?n1 \<and> nod \<noteq> m_root")
    case True
    from erase_leaf_wfp [OF wf1 n1 r(1)] show ?thesis unfolding if_P [OF True] by blast
  next
    case False
    from erase_leaf_wfp [OF wf1 n1 r(1)] have "s2 = ?s1" "nod2 = nod"
      unfolding if_not_P [OF False] by blast+
    with wf1 n1 show ?thesis by auto
  qed
  then obtain X m2 where wf2: "trie_inv X s2 pth" and m2: "nodes s2 nod2 = Some m2" by auto
  have f23: "items_kept s2 s3" by (rule erase_only_son_kept [OF wf2 m2 r(2)])
  have f34: "items_kept s3 s'" by (rule erase_key_kept [OF r(3)])
  from items_keptD(1) [OF f12] items_keptD(1) [OF f23] items_keptD(1) [OF f34] s1(3)
  show ?thesis by auto
qed

lemma reach_keys_all: "reach_keys P s \<Longrightarrow> reach_all s"
  by (induction rule: reach_keys.induct) (auto intro: reach_all.intros)

lemma reach_keys_keyed: "reach_keys P s \<Longrightarrow> keyed s"
proof (induction rule: reach_keys.induct)
  case rk_new
  show ?case by (rule keyed_new)
next
  case (rk_insert s e s' it)
  from reach_all_wfp [OF reach_keys_all [OF rk_insert(1)]] obtain pth where wf: "trie_inv {} s pth"
    by blast
  from trie_insert_keyed [OF wf rk_insert(4), of "fst e" "snd e"] rk_insert(3) show ?case by simp
next
  case (rk_erase s it s' it')
  from reach_all_wfp [OF reach_keys_all [OF rk_erase(1)]] obtain pth where wf: "trie_inv {} s pth"
    by blast
  from erase_keyed [OF wf rk_erase(3,2)] show ?case .
qed

lemma reach_keys_stored: "reach_keys P s \<Longrightarrow> m_items s h = Some e \<Longrightarrow> P (fst e)"
proof (induction arbitrary: h e rule: reach_keys.induct)
  case rk_new
  then show ?case by (simp add: trie_new_def)
next
  case (rk_insert s e0 s' it)
  from reach_all_wfp [OF reach_keys_all [OF rk_insert(1)]] obtain pth where wf: "trie_inv {} s pth"
    by blast
  from trie_insert_cases [OF wf, of "fst e0" "snd e0" s' it] rk_insert(3)
  have "s' = s \<or> m_items s' = (m_items s)(items_next s \<mapsto> e0)"
    by (auto dest: installedD(1))
  then show ?case
  proof
    assume "s' = s"
    with rk_insert(5) show ?thesis using rk_insert(4) by simp
  next
    assume m: "m_items s' = (m_items s)(items_next s \<mapsto> e0)"
    show ?thesis
    proof (cases "h = items_next s")
      case True
      with m rk_insert(5) have "e = e0" by simp
      with rk_insert(2) show ?thesis by simp
    next
      case False
      with m rk_insert(5) have "m_items s h = Some e" by simp
      then show ?thesis by (rule rk_insert(4))
    qed
  qed
next
  case (rk_erase s it s' it')
  from reach_all_wfp [OF reach_keys_all [OF rk_erase(1)]] obtain pth where wf: "trie_inv {} s pth"
    by blast
  from erase_m_items [OF wf rk_erase(2)] rk_erase(4) have "m_items s h = Some e"
    by (auto split: if_splits)
  then show ?case by (rule rk_erase(3))
qed

subsection \<open>Paths of nodes\<close>

lemma nonroot_qlen_pos:
  assumes "trie_inv X s pth" "nodes s a = Some n" "a \<noteq> m_root"
  shows "0 < qlen n"
  using parent_edge [OF assms] by auto

lemma qlen0_root:
  assumes "trie_inv X s pth" "nodes s a = Some n" "qlen n = 0"
  shows "a = m_root"
  using nonroot_qlen_pos [OF assms(1,2)] assms(3) by auto

lemma pth_len: "trie_inv X s pth \<Longrightarrow> nodes s a = Some n \<Longrightarrow> length (pth a) = qlen n"
  using node_okD(8) wfpD(2) by blast

lemma nth_take_lt: "i < n \<Longrightarrow> take n xs ! i = xs ! i"
  by simp

text \<open>
  The nodes form a trie of their paths: a path belongs to one node only, and a node whose
  path runs through slot \<open>j\<close> of the node \<open>m\<close> is the child in that slot or lies below it.
\<close>

lemma trie_paths:
  assumes wf: "trie_inv X s pth"
  shows "nodes s b = Some bn \<Longrightarrow>
     (\<forall>m mn. nodes s m = Some mn \<longrightarrow> pth m = pth b \<longrightarrow> m = b) \<and>
     (\<forall>m mn. nodes s m = Some mn \<longrightarrow> qlen mn < qlen bn \<longrightarrow> take (qlen mn) (pth b) = pth m \<longrightarrow>
        (\<exists>c cn. branches mn (pth b ! qlen mn) = Some c \<and> nodes s c = Some cn \<and>
           (c = b \<or> qlen cn < qlen bn \<and> take (qlen cn) (pth b) = pth c)))"
proof (induction "qlen bn" arbitrary: b bn rule: less_induct)
  case less
  note b = less.prems
  note lb = pth_len [OF wf b]
  have IH1: "m = b'" if "qlen bn' < qlen bn" "nodes s b' = Some bn'" "nodes s m = Some mn"
    "pth m = pth b'" for b' bn' m mn
    using less.hyps [OF that(1,2)] that(3,4) by blast
  have IH2: "\<exists>c cn. branches mn (pth b' ! qlen mn) = Some c \<and> nodes s c = Some cn \<and>
           (c = b' \<or> qlen cn < qlen bn' \<and> take (qlen cn) (pth b') = pth c)"
    if "qlen bn' < qlen bn" "nodes s b' = Some bn'" "nodes s m = Some mn" "qlen mn < qlen bn'"
      "take (qlen mn) (pth b') = pth m" for b' bn' m mn
    using less.hyps [OF that(1,2)] that(3,4,5) by blast
  have one: "m = b" if m: "nodes s m = Some mn" and e: "pth m = pth b" for m mn
  proof (cases "b = m_root")
    case True
    with wfp_root(1) [OF wf b] have "qlen bn = 0" by simp
    with e lb pth_len [OF wf m] have "qlen mn = 0" by simp
    from qlen0_root [OF wf m this] True show ?thesis by simp
  next
    case False
    from e lb pth_len [OF wf m] have q: "qlen mn = qlen bn" by simp
    from nonroot_qlen_pos [OF wf b False] q have mr: "m \<noteq> m_root"
      using wfp_root(1) [OF wf m] by auto
    from parent_edge [OF wf b False] obtain pb pbn where pb: "parent bn = Some pb"
      "nodes s pb = Some pbn" "branches pbn (br_own bn) = Some b" "qlen pbn < qlen bn"
      "pth pb = take (qlen pbn) (pth b)" "pth b ! qlen pbn = br_own bn" by blast
    from parent_edge [OF wf m mr] obtain pm pmn where pm: "parent mn = Some pm"
      "nodes s pm = Some pmn" "branches pmn (br_own mn) = Some m" "qlen pmn < qlen mn"
      "pth pm = take (qlen pmn) (pth m)" "pth m ! qlen pmn = br_own mn" by blast
    consider (eq) "qlen pbn = qlen pmn" | (lt) "qlen pbn < qlen pmn" | (gt) "qlen pmn < qlen pbn"
      by linarith
    then show ?thesis
    proof cases
      case eq
      with pb(5) pm(5) e have "pth pm = pth pb" by simp
      from IH1 [OF pb(4,2) pm(2) this] have "pm = pb" .
      with pm(2) pb(2) have "pmn = pbn" by simp
      moreover from eq e pb(6) pm(6) have "br_own mn = br_own bn" by simp
      ultimately show ?thesis using pb(3) pm(3) by simp
    next
      case lt
      have 1: "qlen pmn < qlen bn" using pm(4) q by simp
      have 2: "take (qlen pbn) (pth pm) = pth pb"
        unfolding pm(5) pb(5) e using lt by (simp add: min_def)
      have 3: "pth pm ! qlen pbn = br_own bn"
        unfolding pm(5) e using lt pb(6) by simp
      from IH2 [OF 1 pm(2) pb(2) lt 2] 3 pb(3) obtain cn where "nodes s b = Some cn"
        "b = pm \<or> qlen cn < qlen pmn" by auto
      with b pm(2) 1 show ?thesis by auto
    next
      case gt
      have 2: "take (qlen pmn) (pth pb) = pth pm"
        unfolding pm(5) pb(5) e using gt by (simp add: min_def)
      have 3: "pth pb ! qlen pmn = br_own mn"
        unfolding pb(5) using gt pm(6) e by simp
      from IH2 [OF pb(4,2) pm(2) gt 2] 3 pm(3) obtain cn where "nodes s m = Some cn"
        "m = pb \<or> qlen cn < qlen pbn" by auto
      with m pb(2,4) q show ?thesis by auto
    qed
  qed
  have two: "\<exists>c cn. branches mn (pth b ! qlen mn) = Some c \<and> nodes s c = Some cn \<and>
           (c = b \<or> qlen cn < qlen bn \<and> take (qlen cn) (pth b) = pth c)"
    if m: "nodes s m = Some mn" and q: "qlen mn < qlen bn" and t: "take (qlen mn) (pth b) = pth m"
    for m mn
  proof -
    have br: "b \<noteq> m_root" using wfp_root(1) [OF wf b] q by auto
    from parent_edge [OF wf b br] obtain pb pbn where pb: "parent bn = Some pb"
      "nodes s pb = Some pbn" "branches pbn (br_own bn) = Some b" "qlen pbn < qlen bn"
      "pth pb = take (qlen pbn) (pth b)" "pth b ! qlen pbn = br_own bn" by blast
    consider (eq) "qlen pbn = qlen mn" | (lt) "qlen mn < qlen pbn" | (gt) "qlen pbn < qlen mn"
      by linarith
    then show ?thesis
    proof cases
      case eq
      with pb(5) t have "pth m = pth pb" by simp
      from IH1 [OF pb(4,2) m this] have "m = pb" .
      with m pb(2) have "mn = pbn" by simp
      with eq pb(3,6) b show ?thesis by auto
    next
      case lt
      have 2: "take (qlen mn) (pth pb) = pth m"
        unfolding pb(5) using lt t by (simp add: min_def)
      have 3: "pth pb ! qlen mn = pth b ! qlen mn" unfolding pb(5) using lt by simp
      from IH2 [OF pb(4,2) m lt 2] obtain c cn where c: "branches mn (pth b ! qlen mn) = Some c"
        "nodes s c = Some cn" "c = pb \<or> qlen cn < qlen pbn \<and> take (qlen cn) (pth pb) = pth c"
        unfolding 3 by blast
      from c(3) have "qlen cn < qlen bn \<and> take (qlen cn) (pth b) = pth c"
      proof
        assume "c = pb"
        with c(2) pb(2,4,5) show ?thesis by simp
      next
        assume a: "qlen cn < qlen pbn \<and> take (qlen cn) (pth pb) = pth c"
        then have "take (qlen cn) (pth b) = pth c" unfolding pb(5) by (auto simp: min_def)
        with a pb(4) show ?thesis by auto
      qed
      with c(1,2) show ?thesis by blast
    next
      case gt
      have 2: "take (qlen pbn) (pth m) = pth pb"
        unfolding pb(5) t [symmetric] using gt by (simp add: min_def)
      have 3: "pth m ! qlen pbn = br_own bn"
        unfolding t [symmetric] using gt pb(6) by simp
      from IH2 [OF q m pb(2) gt 2] 3 pb(3) obtain cn where "nodes s b = Some cn"
        "b = m \<or> qlen cn < qlen mn" by auto
      with b m q show ?thesis by auto
    qed
  qed
  from one two show ?case by blast
qed

lemma pth_inj:
  assumes "trie_inv X s pth" "nodes s a = Some n" "nodes s b = Some m" "pth a = pth b"
  shows "a = b"
  using trie_paths [OF assms(1,3)] assms(2,4) by blast

lemma slot_below:
  assumes wf: "trie_inv X s pth" and m: "nodes s m = Some mn" and b: "nodes s b = Some bn"
    and e: "pth b = pth m @ j # rest"
  shows "\<exists>c cn. branches mn j = Some c \<and> nodes s c = Some cn \<and>
           (c = b \<or> (\<exists>j' rest'. pth b = pth c @ j' # rest'))"
proof -
  have lm: "length (pth m) = qlen mn" by (rule pth_len [OF wf m])
  have lb: "length (pth b) = qlen bn" by (rule pth_len [OF wf b])
  have "length (pth b) = length (pth m @ j # rest)" by (simp only: e)
  with lm lb have q: "qlen mn < qlen bn" by simp
  from e lm have t: "take (qlen mn) (pth b) = pth m" by simp
  from e lm have j: "pth b ! qlen mn = j" by (simp add: nth_append)
  from trie_paths [OF wf b] m q t obtain c cn where c: "branches mn (pth b ! qlen mn) = Some c"
    "nodes s c = Some cn" "c = b \<or> qlen cn < qlen bn \<and> take (qlen cn) (pth b) = pth c" by blast
  from c(3) have "c = b \<or> (\<exists>j' rest'. pth b = pth c @ j' # rest')"
  proof
    assume "c = b" then show ?thesis by simp
  next
    assume a: "qlen cn < qlen bn \<and> take (qlen cn) (pth b) = pth c"
    with lb have "drop (qlen cn) (pth b) \<noteq> []" by simp
    then obtain j' rest' where "drop (qlen cn) (pth b) = j' # rest'" by (cases "drop (qlen cn) (pth b)") auto
    moreover have "pth b = take (qlen cn) (pth b) @ drop (qlen cn) (pth b)" by simp
    ultimately have "pth b = pth c @ j' # rest'" using a by simp
    then show ?thesis by auto
  qed
  with c(1,2) j show ?thesis by auto
qed

subsection \<open>The root and the empty key\<close>

lemma run_reach_keys:
  "reach_keys P s \<Longrightarrow> keys_ok P as \<Longrightarrow> run s as = Some (Inr s') \<Longrightarrow> reach_keys P s'"
proof (induction as arbitrary: s)
  case Nil
  then show ?case by simp
next
  case (Cons x as)
  show ?case
  proof (cases x)
    case (A e)
    with Cons.prems(3) obtain s1 it where 1: "trie_insert s e = Some (Inr (s1, it))"
      "run s1 as = Some (Inr s')" by (auto split: option.splits sum.splits)
    from Cons.prems(2) A have 2: "P (fst e)" "keys_ok P as" by simp_all
    from Cons.IH [OF rk_insert [OF Cons.prems(1) 2(1) 1(1)] 2(2) 1(2)] show ?thesis .
  next
    case (R k)
    with Cons.prems(2) have 2: "keys_ok P as" by simp
    show ?thesis
    proof (cases "trie_find TRIE_KEY_TRACING_STRICT s k (length k) = Some (Inr None)")
      case True
      with Cons.prems(3) R have "run s as = Some (Inr s')" by simp
      from Cons.IH [OF Cons.prems(1) 2 this] show ?thesis .
    next
      case False
      with Cons.prems(3) R obtain a s1 it where 1: "erase s (Some a) = Some (Inr (s1, it))"
        "run s1 as = Some (Inr s')" by (auto split: option.splits sum.splits)
      from Cons.IH [OF rk_erase [OF Cons.prems(1) 1(1)] 2 1(2)] show ?thesis .
    qed
  qed
qed

lemma ok_run_reach_keys:
  assumes "keys_ok P as" "ok_run (run trie_new as)"
  shows "reach_keys P (the_trie (run trie_new as))"
proof -
  from assms(2) obtain s' where r: "run trie_new as = Some (Inr s')"
    unfolding ok_run_def by (auto split: option.splits sum.splits)
  from run_reach_keys [OF rk_new assms(1) r] show ?thesis by (simp add: r the_trie_def)
qed

text \<open>With \<open>insert\<close> and \<open>erase\<close> alone the root holds an item when the empty key is stored.\<close>

lemma root_item_iff:
  assumes wf: "trie_inv {} s pth" and k: "keyed s"
  shows "root_item s \<noteq> None \<longleftrightarrow> (\<exists>h v. m_items s h = Some ([], v))"
proof
  from wfpD(1) [OF wf] obtain r where r: "nodes s m_root = Some r" "qlen r = 0" by blast
  assume "root_item s \<noteq> None"
  with r obtain h where h: "item r = Some h" by (auto simp: root_item_def)
  from wfp_item_lt(2) [OF wf r(1) h] obtain e where e: "m_items s h = Some e" by auto
  from keyedD(1) [OF k r(1) h e] r(2) have "fst e = []" by simp
  with e show "\<exists>h v. m_items s h = Some ([], v)" by (cases e) auto
next
  assume "\<exists>h v. m_items s h = Some ([], v)"
  then obtain h v where e: "m_items s h = Some ([], v)" by blast
  from keyedD(2) [OF k e] obtain a n where n: "nodes s a = Some n" "item n = Some h" by blast
  from keyedD(1) [OF k n e] have "qlen n = 0" by simp
  from qlen0_root [OF wf n(1) this] n show "root_item s \<noteq> None" by (simp add: root_item_def)
qed

text \<open>\<open>insert\<close> of an item with the empty key returns, at the root, which then holds an item.\<close>

lemma insert_empty_key:
  assumes r: "nodes s m_root = Some r"
  shows "\<exists>s'. trie_insert s ([], v) = Some (Inr (s', Some m_root)) \<and> root_item s' \<noteq> None \<and>
           (item r = None \<longrightarrow> root_item s' = Some (items_next s) \<and>
              m_items s' (items_next s) = Some ([], v))"
proof -
  have tr: "trace TRIE_KEY_TRACING_STRICT insert_node s [] 0 False =
      Some (Inr ((Some m_root, 0, item r \<noteq> None), s))"
    unfolding trace_def using trace_bytes_end [of 0 0 s m_root r, OF _ r] by simp
  show ?thesis
  proof (cases "item r = None")
    case False
    then have "trie_insert s ([], v) = Some (Inr (s, Some m_root))"
      unfolding trie_insert_def using tr r
      by (auto simp: pos_match_def pos_node_def iterator_def)
    with False r show ?thesis by (simp add: root_item_def)
  next
    case True
    let ?s' = "s\<lparr>m_items := (m_items s)(items_next s \<mapsto> ([], v)), items_next := Suc (items_next s),
            nodes := (nodes s)(m_root \<mapsto> r\<lparr>key := Some (items_next s), item := Some (items_next s)\<rparr>)\<rparr>"
    have "trie_insert s ([], v) = Some (Inr (?s', Some m_root))"
      unfolding trie_insert_def using tr True insert_item_eff [OF r, of "([], v)"]
      by (simp add: pos_match_def pos_node_def iterator_def)
    moreover have "root_item ?s' = Some (items_next s)" by (simp add: root_item_def)
    moreover have "m_items ?s' (items_next s) = Some ([], v)" by simp
    ultimately show ?thesis by auto
  qed
qed

text \<open>
  With \<open>insert(item, pos)\<close> the root can hold the item of a key that is not empty: in the
  empty trie the lower bound of \<open>"a"\<close> is the root with no nibble matched, which is the
  \<open>qlen\<close> of the root, so that the item is installed there.
\<close>

lemma insert_at_root_item:
  "lower_bound TRIE_KEY_TRACING_STRICT (trie_new :: nat trie) k_a 1 =
     Some (Inr (Some m_root, 0, False)) \<and>
   root_item s_at_root = Some 0 \<and> m_items s_at_root 0 = Some (k_a, 1)"
  by code_simp

text \<open>
  C8, the part that fails.  After \<open>insert\<close> of an item with the zero-length key into the
  empty trie, the root holds that item.
\<close>

theorem root_carries_item: "ok_run (run trie_new [A ([], 5::nat)]) \<and> root_item s_empty_key = Some 0"
  by code_simp

text \<open>
  C8, amended.  In every trie built by \<open>insert\<close>, \<open>insert(item, pos)\<close> and \<open>erase\<close> the
  root exists at its place with \<open>qlen = 0\<close> and no parent; when no node holds an item any
  more, the root is the only node, all its \<open>branches\<close> are empty and its branch indices say
  leaf (\<open>br_1st > br_last\<close>); and \<open>insert\<close> of an item with the empty key returns an
  iterator at the root, which then holds an item.  In every trie built by \<open>insert\<close> of
  items with keys that satisfy \<open>P\<close> and by \<open>erase\<close>, the root holds an item exactly when an
  item with the empty key is stored, hence never when \<open>P\<close> excludes the empty key.
\<close>

theorem root_kept:
  "(reach_all s \<longrightarrow>
      (\<exists>r. nodes s m_root = Some r \<and> qlen r = 0 \<and> parent r = None \<and>
           ((\<forall>a n. nodes s a = Some n \<longrightarrow> item n = None) \<longrightarrow>
              (\<forall>a. a \<noteq> m_root \<longrightarrow> nodes s a = None) \<and> (\<forall>i. branches r i = None) \<and>
              br_last r < br_1st r)) \<and>
      (\<exists>s'. trie_insert s ([], v) = Some (Inr (s', Some m_root)) \<and> root_item s' \<noteq> None)) \<and>
   (reach_keys P s \<longrightarrow>
      (root_item s \<noteq> None \<longleftrightarrow> (\<exists>h w. m_items s h = Some ([], w))) \<and>
      (\<not> P [] \<longrightarrow> root_item s = None))"
proof (intro conjI impI)
  assume r: "reach_all s"
  from reach_all_wfp [OF r] obtain pth where wf: "trie_inv {} s pth" by blast
  from root_kept_aux [OF wf]
  show "\<exists>r. nodes s m_root = Some r \<and> qlen r = 0 \<and> parent r = None \<and>
           ((\<forall>a n. nodes s a = Some n \<longrightarrow> item n = None) \<longrightarrow>
              (\<forall>a. a \<noteq> m_root \<longrightarrow> nodes s a = None) \<and> (\<forall>i. branches r i = None) \<and>
              br_last r < br_1st r)" .
  from wfpD(1) [OF wf] obtain rt where "nodes s m_root = Some rt" by blast
  from insert_empty_key [OF this, of v]
  show "\<exists>s'. trie_insert s ([], v) = Some (Inr (s', Some m_root)) \<and> root_item s' \<noteq> None"
    by blast
next
  assume r: "reach_keys P s"
  from reach_all_wfp [OF reach_keys_all [OF r]] obtain pth where wf: "trie_inv {} s pth" by blast
  note iff = root_item_iff [OF wf reach_keys_keyed [OF r]]
  show "root_item s \<noteq> None \<longleftrightarrow> (\<exists>h w. m_items s h = Some ([], w))" by (rule iff)
  assume np: "\<not> P []"
  show "root_item s = None"
  proof (rule ccontr)
    assume "root_item s \<noteq> None"
    with iff obtain h w where "m_items s h = Some ([], w)" by blast
    from reach_keys_stored [OF r this] np show False by simp
  qed
qed

theorem root_kept_witness:
  "reach_all s_emptied \<and> no_items_below s_emptied (nodes_next s_emptied) \<and>
   (\<exists>r. nodes s_emptied m_root = Some r \<and> qlen r = 0 \<and> parent r = None \<and>
      (\<forall>i. branches r i = None) \<and> br_last r < br_1st r) \<and>
   (\<exists>s'. trie_insert s_emptied ([], 9) = Some (Inr (s', Some m_root)) \<and> root_item s' \<noteq> None) \<and>
   reach_keys (\<lambda>k. k \<noteq> []) s_three \<and> root_item s_three = None \<and>
   reach_keys (\<lambda>k. True) s_empty_key \<and> root_item s_empty_key = Some 0 \<and>
   m_items s_empty_key 0 = Some ([], 5)"
proof -
  have r: "reach_all s_emptied" unfolding s_emptied_def by (rule ok_run_reach_all) code_simp
  have nb: "no_items_below s_emptied (nodes_next s_emptied)" by code_simp
  then have ni: "\<forall>a n. nodes s_emptied a = Some n \<longrightarrow> item n = None"
    using no_items_belowD [OF r] by blast
  note T = root_kept [of s_emptied 9 "\<lambda>k. True", THEN conjunct1, THEN mp, OF r]
  from T ni have 1: "\<exists>r. nodes s_emptied m_root = Some r \<and> qlen r = 0 \<and> parent r = None \<and>
      (\<forall>i. branches r i = None) \<and> br_last r < br_1st r" by blast
  from T have 2: "\<exists>s'. trie_insert s_emptied ([], 9) = Some (Inr (s', Some m_root)) \<and>
      root_item s' \<noteq> None" by blast
  have k3: "reach_keys (\<lambda>k. k \<noteq> []) s_three" unfolding s_three_def
    by (rule ok_run_reach_keys) (simp add: k_abcd_def k_abxx_def k_abc_def, code_simp)
  have 3: "root_item s_three = None"
    using root_kept [of s_three 0 "\<lambda>k. k \<noteq> []", THEN conjunct2, THEN mp, OF k3] by simp
  have k0: "reach_keys (\<lambda>k. True) s_empty_key" unfolding s_empty_key_def
    by (rule ok_run_reach_keys) (simp, code_simp)
  have 4: "root_item s_empty_key = Some 0" "m_items s_empty_key 0 = Some ([], 5)" by code_simp+
  show ?thesis by (intro conjI r nb 1 2 k3 3 k0 4)
qed

end
